(* ===== verification/Prelude.thy ===== *)
theory Prelude
  imports Main "HOL-Library.Word"
begin

unbundle bit_operations_syntax

text \<open>
  Shared vocabulary of the development: names for the C integer types of the 32-bit ARM target,
  the memory of the C abstract machine, C strings, and the generic facts on lists, options and
  words that the component theories use.

  \<^item> \<open>char\<close> is unsigned on the ARM EABI, so \<open>char\<close> and \<open>unsigned char\<close> are both \<open>8 word\<close>;
    \<open>unsigned int\<close>, \<open>unsigned long\<close>, \<open>size_t\<close>, \<open>phys_addr_t\<close> are 32 bits wide.
  \<^item> A memory is a function from addresses to bytes; a C string is a run of non-zero bytes that
    ends in a zero byte (\<open>cstr\<close>).
  \<^item> \<open>rd\<close> is a read of an array with the array's bounds: \<open>None\<close> is an access out of bounds.
\<close>

type_synonym u8 = "8 word"
type_synonym u16 = "16 word"
type_synonym u32 = "32 word"
type_synonym mem = "nat \<Rightarrow> u8"
type_synonym bytes = "u8 list"

named_theorems word_nat \<open>facts that move word arithmetic to natural numbers\<close>
named_theorems inv_defs \<open>definitions of the components' invariants\<close>

abbreviation NUL :: u8 where
  "NUL \<equiv> 0"

text \<open>A string literal as bytes.\<close>

definition bs :: "string \<Rightarrow> bytes" where
  "bs s = map of_char s"

lemma bs_simps [simp]: "bs [] = []" "bs (c # s) = of_char c # bs s" "length (bs s) = length s"
  by (simp_all add: bs_def)

text \<open>Array reads with bounds.\<close>

definition rd :: "'a list \<Rightarrow> nat \<Rightarrow> 'a option" where
  "rd xs i = (if i < length xs then Some (xs ! i) else None)"

definition wr :: "'a list \<Rightarrow> nat \<Rightarrow> 'a \<Rightarrow> 'a list option" where
  "wr xs i v = (if i < length xs then Some (xs[i := v]) else None)"

lemma rd_Some [simp]: "i < length xs \<Longrightarrow> rd xs i = Some (xs ! i)"
  by (simp add: rd_def)

lemma rd_None [simp]: "length xs \<le> i \<Longrightarrow> rd xs i = None"
  by (simp add: rd_def)

lemma rd_eq_Some [simp]: "rd xs i = Some v \<longleftrightarrow> i < length xs \<and> xs ! i = v"
  by (auto simp: rd_def)

lemma wr_Some [simp]: "i < length xs \<Longrightarrow> wr xs i v = Some (xs[i := v])"
  by (simp add: wr_def)

lemma wr_eq_Some [simp]: "wr xs i v = Some ys \<longleftrightarrow> i < length xs \<and> ys = xs[i := v]"
  by (auto simp: wr_def)

text \<open>Wrapping an offset past the end of a ring.\<close>

lemma ring_next:
  fixes p n :: nat
  assumes "p < n"
  shows "(if Suc p = n then 0 else Suc p) = Suc p mod n"
  using assms by auto

text \<open>Keeping the last \<open>c\<close> elements, twice.\<close>

lemma drop_keep_keep:
  "drop (length (drop (length l - c) l @ ys) - c) (drop (length l - c) l @ ys)
     = drop (length (l @ ys) - c) (l @ ys)"
proof -
  have "drop (length l - c) l @ ys = drop (length l - c) (l @ ys)"
    by simp
  moreover have "length l + length ys - (length l - c) - c + (length l - c) = length l + length ys - c"
    by arith
  ultimately show ?thesis by (simp only: drop_drop length_drop length_append)
qed

lemma find_map_comp: "find P (map f xs) = map_option f (find (P \<circ> f) xs)"
  by (induction xs) auto

text \<open>Words and natural numbers.\<close>

lemma unat_plus_no_wrap [word_nat]:
  fixes a b :: "'a::len word"
  assumes "unat a + unat b < 2 ^ LENGTH('a)"
  shows "unat (a + b) = unat a + unat b"
  using assms by (simp add: unat_word_ariths)

lemma unat_minus_no_wrap [word_nat]:
  fixes a b :: "'a::len word"
  assumes "b \<le> a"
  shows "unat (a - b) = unat a - unat b"
  using assms by (simp add: unat_sub)

lemma unat_u32_lt [simp, intro]: "unat (w :: u32) < 4294967296"
  using unsigned_less [of w] by simp

lemma unat_u8_lt [simp, intro]: "unat (w :: u8) < 256"
  using unsigned_less [of w] by simp

lemma bit_u8_lt: "bit (b :: u8) n \<Longrightarrow> n < 8"
  using bit_imp_le_length [of b n] by simp

lemma bit_u32_lt: "bit (w :: u32) n \<Longrightarrow> n < 32"
  using bit_imp_le_length [of w n] by simp

lemma unat_take_bit: "unat (take_bit k (a :: u32)) = unat a mod 2 ^ k"
  unfolding unsigned_take_bit_eq by (rule take_bit_eq_mod)

text \<open>Little-endian words, as the target stores them.\<close>

definition le32 :: "u8 \<Rightarrow> u8 \<Rightarrow> u8 \<Rightarrow> u8 \<Rightarrow> u32" where
  "le32 b0 b1 b2 b3 = ucast b0 OR push_bit 8 (ucast b1) OR push_bit 16 (ucast b2) OR push_bit 24 (ucast b3)"

definition put_le32 :: "u32 \<Rightarrow> bytes" where
  "put_le32 w = [ucast w, ucast (drop_bit 8 w), ucast (drop_bit 16 w), ucast (drop_bit 24 w)]"

lemma mask_255: "(255 :: u32) = mask 8"
  by (simp add: mask_eq_exp_minus_1)

lemma le32_bytes:
  "le32 b0 b1 b2 b3 AND 255 = ucast b0"
  "drop_bit 8 (le32 b0 b1 b2 b3) AND 255 = ucast b1"
  "drop_bit 8 (drop_bit 8 (le32 b0 b1 b2 b3)) AND 255 = ucast b2"
  "drop_bit 8 (drop_bit 8 (drop_bit 8 (le32 b0 b1 b2 b3))) AND 255 = ucast b3"
  "drop_bit 8 (drop_bit 8 (drop_bit 8 (drop_bit 8 (le32 b0 b1 b2 b3)))) = 0"
  unfolding le32_def mask_255
  by (rule bit_word_eqI; auto simp: bit_simps dest: bit_u8_lt)+

lemma put_le32_le32: "put_le32 (le32 b0 b1 b2 b3) = [b0, b1, b2, b3]"
  unfolding put_le32_def le32_def
  by (simp, intro conjI; rule bit_word_eqI; auto simp: bit_simps dest: bit_u8_lt)

lemma put_le32_length [simp]: "length (put_le32 w) = 4"
  by (simp add: put_le32_def)

lemma le32_put_le32: "le32 (put_le32 w ! 0) (put_le32 w ! 1) (put_le32 w ! 2) (put_le32 w ! 3) = w"
proof -
  have "put_le32 w ! 0 = ucast w" "put_le32 w ! 1 = ucast (drop_bit 8 w)" "put_le32 w ! 2 = ucast (drop_bit 16 w)"
    "put_le32 w ! 3 = ucast (drop_bit 24 w)" by (simp_all add: put_le32_def)
  moreover have "le32 (ucast w) (ucast (drop_bit 8 w)) (ucast (drop_bit 16 w)) (ucast (drop_bit 24 w)) = w"
    unfolding le32_def
  proof (rule bit_word_eqI)
    fix n assume "n < LENGTH(32)"
    then consider "n < 8" | "8 \<le> n" "n < 16" | "16 \<le> n" "n < 24" | "24 \<le> n" "n < 32" by force
    then show "bit ((ucast (ucast w :: u8) :: u32) OR push_bit 8 (ucast (ucast (drop_bit 8 w) :: u8))
        OR push_bit 16 (ucast (ucast (drop_bit 16 w) :: u8)) OR push_bit 24 (ucast (ucast (drop_bit 24 w) :: u8))) n
      = bit w n"
      by cases (auto simp: bit_simps)
  qed
  ultimately show ?thesis by (simp only:)
qed

end
