(* ===== verification/Circbuf.thy ===== *)
theory Circbuf
  imports Prelude
begin

text \<open>
  The circular byte buffer of \<open>lib/circbuf.c\<close> (the queue behind the USB serial console).
  Pointers into \<open>data\<close> are offsets; \<open>end\<close> is the offset one past the storage. A null \<open>data\<close>
  pointer is \<open>None\<close>, and an access outside the storage makes the operation \<open>None\<close>.
  The interface of a bounded queue that drops its oldest bytes is the locale \<open>ring_queue\<close>;
  the C buffer is an instance of it.
\<close>

record circbuf =
  cb_size :: nat
  cb_totalsize :: nat
  cb_top :: nat
  cb_tail :: nat
  cb_data :: "bytes option"
  cb_end :: nat

text \<open>\<open>malloc\<close> is an argument: whether it can serve a request, and the bytes it returns.\<close>

definition buf_init :: "(nat \<Rightarrow> bytes option) \<Rightarrow> nat \<Rightarrow> circbuf" where
  "buf_init malloc sz =
     \<lparr>cb_size = 0, cb_totalsize = sz, cb_top = 0, cb_tail = 0, cb_data = malloc sz, cb_end = sz\<rparr>"

definition buf_free :: "circbuf \<Rightarrow> circbuf" where
  "buf_free b =
     \<lparr>cb_size = 0, cb_totalsize = 0, cb_top = 0, cb_tail = 0, cb_data = None, cb_end = 0\<rparr>"

fun buf_pop_loop :: "bytes \<Rightarrow> nat \<Rightarrow> nat \<Rightarrow> nat \<Rightarrow> (bytes \<times> nat) option" where
  "buf_pop_loop d e p 0 = Some ([], p)"
| "buf_pop_loop d e p (Suc n) =
     (case rd d p of
        None \<Rightarrow> None
      | Some x \<Rightarrow>
          (case buf_pop_loop d e (if Suc p = e then 0 else Suc p) n of
             None \<Rightarrow> None
           | Some (xs, q) \<Rightarrow> Some (x # xs, q)))"

definition buf_pop :: "circbuf \<Rightarrow> nat \<Rightarrow> (bytes \<times> circbuf) option" where
  "buf_pop b len =
     (case cb_data b of
        None \<Rightarrow> None
      | Some d \<Rightarrow>
          (let n = (if len > cb_size b then cb_size b else len)
           in case buf_pop_loop d (cb_end b) (cb_top b) n of
                None \<Rightarrow> None
              | Some (dest, p) \<Rightarrow> Some (dest, b\<lparr>cb_top := p, cb_size := cb_size b - n\<rparr>)))"

fun buf_push_loop :: "circbuf \<Rightarrow> bytes \<Rightarrow> nat \<Rightarrow> bytes \<Rightarrow> (circbuf \<times> bytes \<times> nat) option" where
  "buf_push_loop b d p [] = Some (b, d, p)"
| "buf_push_loop b d p (x # xs) =
     (case wr d p x of
        None \<Rightarrow> None
      | Some d' \<Rightarrow>
          (let p' = (if Suc p = cb_end b then 0 else Suc p);
               b' = (if cb_size b < cb_totalsize b then b\<lparr>cb_size := Suc (cb_size b)\<rparr>
                     else b\<lparr>cb_top := (if Suc (cb_top b) = cb_end b then 0 else Suc (cb_top b))\<rparr>)
           in buf_push_loop b' d' p' xs))"

definition buf_push :: "circbuf \<Rightarrow> bytes \<Rightarrow> circbuf option" where
  "buf_push b src =
     (case cb_data b of
        None \<Rightarrow> None
      | Some d \<Rightarrow>
          (case buf_push_loop b d (cb_tail b) src of
             None \<Rightarrow> None
           | Some (b', d', p) \<Rightarrow> Some (b'\<lparr>cb_tail := p, cb_data := Some d'\<rparr>)))"

text \<open>The bytes held, oldest first, and the buffer's invariant.\<close>

definition ring_bytes :: "bytes \<Rightarrow> nat \<Rightarrow> nat \<Rightarrow> nat \<Rightarrow> bytes" where
  "ring_bytes d t n k = map (\<lambda>i. d ! ((t + i) mod n)) [0..<k]"

definition buf_contents :: "circbuf \<Rightarrow> bytes" where
  "buf_contents b = ring_bytes (the (cb_data b)) (cb_top b) (cb_totalsize b) (cb_size b)"

definition ring_ok :: "circbuf \<Rightarrow> bytes \<Rightarrow> nat \<Rightarrow> bool" where
  "ring_ok b d p \<longleftrightarrow>
     length d = cb_totalsize b \<and> cb_end b = cb_totalsize b \<and> 0 < cb_totalsize b \<and>
     cb_size b \<le> cb_totalsize b \<and> cb_top b < cb_totalsize b \<and>
     p = (cb_top b + cb_size b) mod cb_totalsize b"

definition buf_inv :: "circbuf \<Rightarrow> bool" where
  "buf_inv b \<longleftrightarrow> (\<exists>d. cb_data b = Some d \<and> ring_ok b d (cb_tail b))"

lemmas circbuf_defs [inv_defs] = buf_inv_def ring_ok_def

subsection \<open>The interface: a bounded queue that forgets its oldest bytes\<close>

locale ring_queue =
  fixes push :: "'q \<Rightarrow> 'a list \<Rightarrow> 'q option"
    and pop :: "'q \<Rightarrow> nat \<Rightarrow> ('a list \<times> 'q) option"
    and held :: "'q \<Rightarrow> 'a list"
    and cap :: "'q \<Rightarrow> nat"
    and ok :: "'q \<Rightarrow> bool"
  assumes push_law: "ok q \<Longrightarrow> \<exists>q'. push q xs = Some q' \<and> ok q' \<and> cap q' = cap q \<and>
      held q' = drop (length (held q @ xs) - cap q) (held q @ xs)"
    and pop_law: "ok q \<Longrightarrow> \<exists>q'. pop q n = Some (take n (held q), q') \<and> ok q' \<and> cap q' = cap q \<and>
      held q' = drop n (held q)"
    and held_cap: "ok q \<Longrightarrow> length (held q) \<le> cap q"
begin

text \<open>What fits comes out again in order, after what was held before.\<close>

lemma push_pop_all:
  assumes "ok q" and "length (held q) + length xs \<le> cap q"
  shows "\<exists>q' q''. push q xs = Some q' \<and> pop q' (length (held q) + length xs) = Some (held q @ xs, q'')
           \<and> ok q'' \<and> held q'' = []"
proof -
  obtain q' where q': "push q xs = Some q'" "ok q'" "held q' = held q @ xs"
    using push_law [OF assms(1), of xs] assms(2) by auto
  show ?thesis
    using pop_law [OF q'(2), of "length (held q) + length xs"] q' by auto
qed

text \<open>Two pushes are one push of the concatenation.\<close>

lemma push_push:
  assumes "ok q"
  shows "\<exists>q1 q2 q3. push q xs = Some q1 \<and> push q1 ys = Some q2 \<and> push q (xs @ ys) = Some q3 \<and>
           held q2 = held q3"
proof -
  obtain q1 where q1: "push q xs = Some q1" "ok q1" "cap q1 = cap q"
      "held q1 = drop (length (held q @ xs) - cap q) (held q @ xs)"
    using push_law [OF assms, of xs] by blast
  obtain q2 where q2: "push q1 ys = Some q2"
      "held q2 = drop (length (held q1 @ ys) - cap q) (held q1 @ ys)"
    using push_law [OF q1(2), of ys] q1(3) by auto
  obtain q3 where q3: "push q (xs @ ys) = Some q3"
      "held q3 = drop (length (held q @ xs @ ys) - cap q) (held q @ xs @ ys)"
    using push_law [OF assms, of "xs @ ys"] by blast
  have "held q2 = held q3"
    unfolding q2(2) q3(2) q1(4) using drop_keep_keep [of "held q @ xs" "cap q" ys] by simp
  with q1(1) q2(1) q3(1) show ?thesis by blast
qed

end

subsection \<open>The C buffer implements it\<close>

lemma length_ring_bytes [simp]: "length (ring_bytes d t n k) = k"
  by (simp add: ring_bytes_def)

lemma ring_bytes_0 [simp]: "ring_bytes d t n 0 = []"
  by (simp add: ring_bytes_def)

lemma ring_bytes_Suc: "t < n \<Longrightarrow> ring_bytes d t n (Suc k) = d ! t # ring_bytes d (Suc t mod n) n k"
proof -
  assume "t < n"
  have "map (\<lambda>i. d ! ((t + Suc i) mod n)) [0..<k] = map (\<lambda>i. d ! ((Suc t mod n + i) mod n)) [0..<k]"
    by (rule map_cong) (simp_all add: mod_simps)
  with \<open>t < n\<close> show ?thesis
    by (simp add: ring_bytes_def upt_conv_Cons map_Suc_upt [symmetric] comp_def del: upt_Suc)
qed

lemma ring_bytes_snoc: "ring_bytes d t n (Suc k) = ring_bytes d t n k @ [d ! ((t + k) mod n)]"
  by (simp add: ring_bytes_def)

lemma ring_bytes_update:
  assumes "k < n" "t < n" "length d = n"
  shows "ring_bytes (d[(t + k) mod n := x]) t n k = ring_bytes d t n k"
proof -
  have "(t + k) mod n \<noteq> (t + i) mod n" if "i < k" for i
  proof
    assume "(t + k) mod n = (t + i) mod n"
    then have "n dvd (t + k) - (t + i)"
      using mod_eq_dvd_iff_nat [of "t + i" "t + k" n] that by simp
    with that assms(1) show False by (simp add: nat_dvd_not_less)
  qed
  then show ?thesis by (auto simp: ring_bytes_def)
qed

lemma buf_pop_loop_ring:
  assumes "p < n" "length d = n" "e = n"
  shows "buf_pop_loop d e p k = Some (ring_bytes d p n k, (p + k) mod n)"
  using assms
proof (induction k arbitrary: p)
  case (Suc k)
  then have "Suc p mod n < n" by simp
  from Suc.IH [OF this] Suc.prems show ?case
    by (simp add: ring_next ring_bytes_Suc mod_simps)
qed simp

lemma ring_bytes_drop:
  "k \<le> m \<Longrightarrow> t < n \<Longrightarrow> drop k (ring_bytes d t n m) = ring_bytes d ((t + k) mod n) n (m - k)"
  by (auto simp: ring_bytes_def drop_map intro!: nth_equalityI simp: mod_simps add.assoc)

lemma ring_bytes_take: "k \<le> m \<Longrightarrow> take k (ring_bytes d t n m) = ring_bytes d t n k"
  by (simp add: ring_bytes_def take_map)

lemma buf_push_loop_ring:
  assumes "ring_ok b d p"
  shows "\<exists>b' d' p'. buf_push_loop b d p xs = Some (b', d', p') \<and> ring_ok b' d' p' \<and>
     cb_totalsize b' = cb_totalsize b \<and>
     ring_bytes d' (cb_top b') (cb_totalsize b) (cb_size b')
       = drop (cb_size b + length xs - cb_totalsize b)
              (ring_bytes d (cb_top b) (cb_totalsize b) (cb_size b) @ xs)"
  using assms
proof (induction xs arbitrary: b d p)
  case Nil
  then show ?case by (simp add: ring_ok_def)
next
  case (Cons x xs)
  let ?n = "cb_totalsize b"
  let ?R = "ring_bytes d (cb_top b) ?n (cb_size b)"
  let ?d = "d[p := x]"
  let ?b = "if cb_size b < ?n then b\<lparr>cb_size := Suc (cb_size b)\<rparr>
            else b\<lparr>cb_top := (if Suc (cb_top b) = cb_end b then 0 else Suc (cb_top b))\<rparr>"
  let ?p = "if Suc p = cb_end b then 0 else Suc p"
  from Cons.prems have p: "p < ?n" "length d = ?n" "cb_end b = ?n" "cb_top b < ?n"
      "p = (cb_top b + cb_size b) mod ?n" "cb_size b \<le> ?n"
    by (auto simp: ring_ok_def)
  have ok: "ring_ok ?b ?d ?p"
    using p by (auto simp: ring_ok_def mod_Suc)
  have step: "buf_push_loop b d p (x # xs) = buf_push_loop ?b ?d ?p xs"
    using p by simp
  have R: "ring_bytes ?d (cb_top ?b) ?n (cb_size ?b) = drop (Suc (cb_size b) - ?n) (?R @ [x])"
  proof (cases "cb_size b < ?n")
    case True
    then show ?thesis
      using p by (simp add: ring_bytes_snoc ring_bytes_update)
  next
    case False
    then have sz: "cb_size b = ?n" and tp: "p = cb_top b"
      using p by auto
    obtain m where m: "?n = Suc m" using p(1) by (cases ?n) auto
    have top': "Suc (cb_top b) mod ?n < ?n" using p by simp
    have pm: "Suc (cb_top b + m) mod Suc m = cb_top b"
      using p(4) m by (metis add_Suc_right mod_add_self2 mod_less)
    have "ring_bytes ?d (Suc (cb_top b) mod ?n) ?n ?n
        = ring_bytes ?d (Suc (cb_top b) mod ?n) ?n m @ [?d ! p]"
      using p m tp pm by (subst m, subst ring_bytes_snoc) (simp add: mod_simps)
    also have "ring_bytes ?d (Suc (cb_top b) mod ?n) ?n m = ring_bytes d (Suc (cb_top b) mod ?n) ?n m"
    proof -
      have "(Suc (cb_top b) mod ?n + m) mod ?n = p"
        using p m tp pm by (simp add: mod_simps)
      then show ?thesis
        using ring_bytes_update [of m ?n "Suc (cb_top b) mod ?n" d x] p m top' by simp
    qed
    also have "\<dots> = tl ?R"
      using p sz by (simp add: m ring_bytes_Suc)
    finally show ?thesis
      using p(1-4) sz m by (auto simp: drop_Suc)
  qed
  obtain b' d' p' where IH: "buf_push_loop ?b ?d ?p xs = Some (b', d', p')" "ring_ok b' d' p'"
      "cb_totalsize b' = cb_totalsize ?b"
      "ring_bytes d' (cb_top b') (cb_totalsize ?b) (cb_size b')
       = drop (cb_size ?b + length xs - cb_totalsize ?b)
              (ring_bytes ?d (cb_top ?b) (cb_totalsize ?b) (cb_size ?b) @ xs)"
    using Cons.IH [OF ok] by blast
  have tot: "cb_totalsize ?b = ?n" by simp
  have "ring_bytes d' (cb_top b') ?n (cb_size b')
      = drop (cb_size ?b + length xs - ?n) (drop (length (?R @ [x]) - ?n) (?R @ [x]) @ xs)"
    using IH(4) R unfolding tot by simp
  also have "cb_size ?b + length xs = length (drop (length (?R @ [x]) - ?n) (?R @ [x]) @ xs)"
    using p by simp
  also have "drop (\<dots> - ?n) (drop (length (?R @ [x]) - ?n) (?R @ [x]) @ xs)
      = drop (length ((?R @ [x]) @ xs) - ?n) ((?R @ [x]) @ xs)"
    by (rule drop_keep_keep)
  finally have "ring_bytes d' (cb_top b') ?n (cb_size b') = drop (cb_size b + length (x # xs) - ?n) (?R @ x # xs)"
    by simp
  with IH(1-3) step tot show ?case by auto
qed

interpretation cb: ring_queue buf_push buf_pop buf_contents cb_totalsize buf_inv
proof unfold_locales
  fix b xs
  assume "buf_inv b"
  then obtain d where d: "cb_data b = Some d" "ring_ok b d (cb_tail b)"
    by (auto simp: buf_inv_def)
  from buf_push_loop_ring [OF d(2), of xs]
  show "\<exists>b'. buf_push b xs = Some b' \<and> buf_inv b' \<and> cb_totalsize b' = cb_totalsize b \<and>
      buf_contents b' = drop (length (buf_contents b @ xs) - cb_totalsize b) (buf_contents b @ xs)"
    by (auto simp: buf_push_def buf_inv_def buf_contents_def ring_ok_def d(1))
next
  fix b n
  assume "buf_inv b"
  then obtain d where d: "cb_data b = Some d" "ring_ok b d (cb_tail b)"
    by (auto simp: buf_inv_def)
  let ?m = "if n > cb_size b then cb_size b else n"
  have "buf_pop_loop d (cb_end b) (cb_top b) ?m
      = Some (ring_bytes d (cb_top b) (cb_totalsize b) ?m, (cb_top b + ?m) mod cb_totalsize b)"
    using d(2) by (intro buf_pop_loop_ring) (auto simp: ring_ok_def)
  moreover have "((cb_top b + ?m) mod cb_totalsize b + (cb_size b - ?m)) mod cb_totalsize b
      = (cb_top b + cb_size b) mod cb_totalsize b"
    by (subst mod_add_left_eq) simp
  ultimately show "\<exists>b'. buf_pop b n = Some (take n (buf_contents b), b') \<and> buf_inv b' \<and>
      cb_totalsize b' = cb_totalsize b \<and> buf_contents b' = drop n (buf_contents b)"
    using d by (auto simp: buf_pop_def buf_inv_def buf_contents_def ring_ok_def Let_def
        ring_bytes_take ring_bytes_drop)
qed (auto simp: circbuf_defs buf_contents_def)

subsection \<open>Properties\<close>

lemma buf_init_inv: "0 < sz \<Longrightarrow> malloc sz = Some d \<Longrightarrow> length d = sz \<Longrightarrow>
    buf_inv (buf_init malloc sz) \<and> buf_contents (buf_init malloc sz) = []"
  by (simp add: buf_init_def circbuf_defs buf_contents_def)

text \<open>
  C39: The circular buffer refines a bounded queue. From a well-formed buffer a push returns a
  well-formed buffer of the same capacity that holds the old bytes followed by the new ones, less the
  oldest of them that do not fit; no access leaves the storage.
\<close>

theorem buf_push_refines:
  assumes "buf_inv b"
  shows "\<exists>b'. buf_push b xs = Some b' \<and> buf_inv b' \<and> cb_totalsize b' = cb_totalsize b \<and>
    buf_contents b' = drop (length (buf_contents b @ xs) - cb_totalsize b) (buf_contents b @ xs)"
  using assms by (rule cb.push_law)

definition demo_buf :: circbuf where
  "demo_buf = buf_init (\<lambda>n. Some (replicate n 0)) 3"

lemma demo_buf_ok: "buf_inv demo_buf" "buf_contents demo_buf = []" "cb_totalsize demo_buf = 3"
  using buf_init_inv [of 3 "\<lambda>n. Some (replicate n 0)"] by (auto simp: demo_buf_def buf_init_def)

theorem buf_push_refines_witness:
  "\<exists>b'. buf_push demo_buf [1, 2, 3, 4] = Some b' \<and> buf_inv b' \<and> buf_contents b' = [2, 3, 4]"
  using buf_push_refines [OF demo_buf_ok(1), of "[1, 2, 3, 4]"] by (auto simp: demo_buf_ok)

text \<open>
  A pop of \<open>n\<close> bytes from a well-formed buffer returns the \<open>n\<close> oldest bytes (all of them when there
  are fewer) and leaves a well-formed buffer that holds the others in order.
\<close>

theorem buf_pop_refines:
  assumes "buf_inv b"
  shows "\<exists>b'. buf_pop b n = Some (take n (buf_contents b), b') \<and> buf_inv b' \<and>
    cb_totalsize b' = cb_totalsize b \<and> buf_contents b' = drop n (buf_contents b)"
  using assms by (rule cb.pop_law)

theorem buf_pop_refines_witness: "\<exists>b'. buf_pop demo_buf 2 = Some ([], b') \<and> buf_inv b'"
  using buf_pop_refines [OF demo_buf_ok(1), of 2] by (auto simp: demo_buf_ok)

text \<open>
  What fits comes out again: after a push of bytes for which there is room, a pop of everything
  returns what was held before followed by the pushed bytes, and leaves the buffer empty.
\<close>

theorem buf_push_pop:
  assumes "buf_inv b" "length (buf_contents b) + length xs \<le> cb_totalsize b"
  shows "\<exists>b' b''. buf_push b xs = Some b' \<and>
    buf_pop b' (length (buf_contents b) + length xs) = Some (buf_contents b @ xs, b'') \<and>
    buf_inv b'' \<and> buf_contents b'' = []"
  using assms by (rule cb.push_pop_all)

theorem buf_push_pop_witness:
  "\<exists>b' b''. buf_push demo_buf [7, 8, 9] = Some b' \<and> buf_pop b' 3 = Some ([7, 8, 9], b'')"
  using buf_push_pop [OF demo_buf_ok(1), of "[7, 8, 9]"] by (auto simp: demo_buf_ok numeral_3_eq_3)

end
