(* ===== verification/Ctype.thy ===== *)
theory Ctype
  imports Prelude
begin

text \<open>
  The character classes of \<open>lib/ctype.c\<close> and \<open>include/linux/ctype.h\<close>: the 256-entry mask table
  and the predicates that test its bits. The bits are \<open>_U\<close> 1, \<open>_L\<close> 2, \<open>_D\<close> 4, \<open>_C\<close> 8,
  \<open>_P\<close> 16, \<open>_S\<close> 32, \<open>_X\<close> 64, \<open>_SP\<close> 128.
\<close>

definition ctype :: "u8 list" where
  "ctype =
    [8, 8, 8, 8, 8, 8, 8, 8,
     8, 40, 40, 40, 40, 40, 8, 8,
     8, 8, 8, 8, 8, 8, 8, 8,
     8, 8, 8, 8, 8, 8, 8, 8,
     160, 16, 16, 16, 16, 16, 16, 16,
     16, 16, 16, 16, 16, 16, 16, 16,
     4, 4, 4, 4, 4, 4, 4, 4,
     4, 4, 16, 16, 16, 16, 16, 16,
     16, 65, 65, 65, 65, 65, 65, 1,
     1, 1, 1, 1, 1, 1, 1, 1,
     1, 1, 1, 1, 1, 1, 1, 1,
     1, 1, 1, 16, 16, 16, 16, 16,
     16, 66, 66, 66, 66, 66, 66, 2,
     2, 2, 2, 2, 2, 2, 2, 2,
     2, 2, 2, 2, 2, 2, 2, 2,
     2, 2, 2, 16, 16, 16, 16, 8,
     0, 0, 0, 0, 0, 0, 0, 0, 0, 0, 0, 0, 0, 0, 0, 0,
     0, 0, 0, 0, 0, 0, 0, 0, 0, 0, 0, 0, 0, 0, 0, 0,
     160, 16, 16, 16, 16, 16, 16, 16, 16, 16, 16, 16, 16, 16, 16, 16,
     16, 16, 16, 16, 16, 16, 16, 16, 16, 16, 16, 16, 16, 16, 16, 16,
     1, 1, 1, 1, 1, 1, 1, 1, 1, 1, 1, 1, 1, 1, 1, 1,
     1, 1, 1, 1, 1, 1, 1, 16, 1, 1, 1, 1, 1, 1, 1, 2,
     2, 2, 2, 2, 2, 2, 2, 2, 2, 2, 2, 2, 2, 2, 2, 2,
     2, 2, 2, 2, 2, 2, 2, 16, 2, 2, 2, 2, 2, 2, 2, 2]"

definition ismask :: "u8 \<Rightarrow> u8" where
  "ismask c = ctype ! unat c"

definition isalnum :: "u8 \<Rightarrow> bool" where "isalnum c \<longleftrightarrow> ismask c AND 7 \<noteq> 0"
definition isalpha :: "u8 \<Rightarrow> bool" where "isalpha c \<longleftrightarrow> ismask c AND 3 \<noteq> 0"
definition isdigit :: "u8 \<Rightarrow> bool" where "isdigit c \<longleftrightarrow> ismask c AND 4 \<noteq> 0"
definition islower :: "u8 \<Rightarrow> bool" where "islower c \<longleftrightarrow> ismask c AND 2 \<noteq> 0"
definition isupper :: "u8 \<Rightarrow> bool" where "isupper c \<longleftrightarrow> ismask c AND 1 \<noteq> 0"
definition isspace :: "u8 \<Rightarrow> bool" where "isspace c \<longleftrightarrow> ismask c AND 32 \<noteq> 0"
definition isxdigit :: "u8 \<Rightarrow> bool" where "isxdigit c \<longleftrightarrow> ismask c AND 68 \<noteq> 0"
definition isblank :: "u8 \<Rightarrow> bool" where "isblank c \<longleftrightarrow> c = 32 \<or> c = 9"

definition tolower :: "u8 \<Rightarrow> u8" where
  "tolower c = (if isupper c then c - (65 - 97) else c)"

definition toupper :: "u8 \<Rightarrow> u8" where
  "toupper c = (if islower c then c - (97 - 65) else c)"

lemma length_ctype: "length ctype = 256"
  by (simp add: ctype_def)

text \<open>A fact about every byte is a fact about 256 numerals.\<close>

lemma all_u8: "(\<forall>n \<in> set [0..<256]. P (word_of_nat n :: u8)) \<Longrightarrow> P c"
proof -
  assume a: "\<forall>n \<in> set [0..<256]. P (word_of_nat n :: u8)"
  have "unat c < 256" by simp
  with a have "P (word_of_nat (unat c) :: u8)" by (metis atLeastLessThan_iff set_upt zero_le)
  then show ?thesis by simp
qed

text \<open>What the table says, as ranges of the ISO 8859-1 code.\<close>

lemma isspace_iff: "isspace c \<longleftrightarrow> c \<in> {9, 10, 11, 12, 13, 32, 160}"
  by (rule all_u8) code_simp

lemma isdigit_iff: "isdigit c \<longleftrightarrow> 48 \<le> c \<and> c \<le> 57"
  by (rule all_u8) code_simp

lemma isxdigit_iff: "isxdigit c \<longleftrightarrow> 48 \<le> c \<and> c \<le> 57 \<or> 65 \<le> c \<and> c \<le> 70 \<or> 97 \<le> c \<and> c \<le> 102"
  by (rule all_u8) code_simp

lemma NUL_classes [simp]: "\<not> isspace 0" "\<not> isdigit 0" "\<not> isxdigit 0"
  by (simp_all add: isspace_iff isdigit_iff isxdigit_iff)

end
