(* ===== verification/Qsort.thy ===== *)
theory Qsort
  imports Prelude "HOL-Library.Multiset"
begin

text \<open>
  The Shell sort of \<open>lib/qsort.c\<close>. Offsets (\<open>wgap\<close>, \<open>i\<close>, \<open>j\<close>, \<open>nel * width\<close>) are byte offsets
  as in the source; the array is the list of its elements, of \<open>width\<close> bytes each, and the loop
  that swaps \<open>width\<close> bytes is a swap of two elements. Reading outside the array, and a loop that
  would not advance (\<open>wgap = 0\<close> or \<open>width = 0\<close>), is \<open>None\<close>. The comparison function is known
  through the contract \<open>qsort_order\<close>.
\<close>

function qsort_gap :: "nat \<Rightarrow> nat \<Rightarrow> nat" where
  "qsort_gap lim wgap = (let g = 3 * wgap + 1 in if g < lim then qsort_gap lim g else g)"
  by pat_completeness auto
termination by (relation "measure (\<lambda>(lim, g). lim - g)") auto

function qsort_sift :: "('a \<Rightarrow> 'a \<Rightarrow> int) \<Rightarrow> nat \<Rightarrow> nat \<Rightarrow> nat \<Rightarrow> 'a list \<Rightarrow> 'a list option" where
  "qsort_sift cmp width wgap j xs =
     (if wgap = 0 \<or> j < wgap then None else
      let j' = j - wgap; a = j' div width; b = (j' + wgap) div width in
      case (rd xs a, rd xs b) of
        (Some x, Some y) \<Rightarrow>
          if cmp x y \<le> 0 then Some xs
          else let xs' = xs[a := y, b := x] in
               if wgap \<le> j' then qsort_sift cmp width wgap j' xs' else Some xs'
      | _ \<Rightarrow> None)"
  by pat_completeness auto
termination by (relation "measure (\<lambda>(cmp, width, wgap, j, xs). j)") auto

function qsort_pass :: "('a \<Rightarrow> 'a \<Rightarrow> int) \<Rightarrow> nat \<Rightarrow> nat \<Rightarrow> nat \<Rightarrow> nat \<Rightarrow> 'a list \<Rightarrow> 'a list option" where
  "qsort_pass cmp width wgap wnel i xs =
     (if width = 0 then None else
      case qsort_sift cmp width wgap i xs of
        None \<Rightarrow> None
      | Some xs' \<Rightarrow>
          if i + width < wnel then qsort_pass cmp width wgap wnel (i + width) xs' else Some xs')"
  by pat_completeness auto
termination by (relation "measure (\<lambda>(cmp, width, wgap, wnel, i, xs). wnel - i)") auto

function qsort_gaps :: "('a \<Rightarrow> 'a \<Rightarrow> int) \<Rightarrow> nat \<Rightarrow> nat \<Rightarrow> nat \<Rightarrow> 'a list \<Rightarrow> 'a list option" where
  "qsort_gaps cmp width wnel wgap xs =
     (case qsort_pass cmp width wgap wnel wgap xs of
        None \<Rightarrow> None
      | Some xs' \<Rightarrow>
          let g = (wgap - width) div 3 in
          if g \<noteq> 0 then qsort_gaps cmp width wnel g xs' else Some xs')"
  by pat_completeness auto
termination by (relation "measure (\<lambda>(cmp, width, wnel, wgap, xs). wgap)") auto

declare qsort_gap.simps [simp del] qsort_sift.simps [simp del] qsort_pass.simps [simp del]
  qsort_gaps.simps [simp del]

definition qsort :: "('a \<Rightarrow> 'a \<Rightarrow> int) \<Rightarrow> nat \<Rightarrow> nat \<Rightarrow> 'a list \<Rightarrow> 'a list option" where
  "qsort cmp nel width base =
     (if nel > 1 \<and> width > 0
      then qsort_gaps cmp width (nel * width) (qsort_gap ((nel - 1) div 3) 0 * width) base
      else Some base)"

text \<open>The contract of a comparison function, on the elements \<open>A\<close> it is used on.\<close>

locale qsort_order =
  fixes cmp :: "'a \<Rightarrow> 'a \<Rightarrow> int" and A :: "'a set"
  assumes cmp_total: "x \<in> A \<Longrightarrow> y \<in> A \<Longrightarrow> cmp x y \<le> 0 \<or> cmp y x \<le> 0"
    and cmp_trans: "x \<in> A \<Longrightarrow> y \<in> A \<Longrightarrow> z \<in> A \<Longrightarrow> cmp x y \<le> 0 \<Longrightarrow> cmp y z \<le> 0 \<Longrightarrow> cmp x z \<le> 0"

subsection \<open>Swapping keeps the elements, whatever the comparison\<close>

lemma mset_swap_positions:
  assumes "a < length xs" "b < length xs"
  shows "mset (xs[a := xs ! b, b := xs ! a]) = mset xs"
  using assms by (simp add: mset_swap)

text \<open>Element offsets: with \<open>wgap = g * w\<close> and \<open>j = p * w\<close> every access is to an element of the array.\<close>

lemma qsort_sift_unfold:
  assumes "0 < w" "0 < g" "g \<le> p" "p < length xs"
  shows "qsort_sift cmp w (g * w) (p * w) xs =
     (if cmp (xs ! (p - g)) (xs ! p) \<le> 0 then Some xs
      else let xs' = xs[p - g := xs ! p, p := xs ! (p - g)] in
           if g \<le> p - g then qsort_sift cmp w (g * w) ((p - g) * w) xs' else Some xs')"
proof -
  have 1: "p * w - g * w = (p - g) * w" by (simp add: diff_mult_distrib)
  have 2: "(p - g) * w + g * w = p * w"
    using assms by (simp add: diff_mult_distrib)
  have 3: "\<not> p * w < g * w" "(g * w \<le> (p - g) * w) = (g \<le> p - g)" "g * w \<noteq> 0"
    using assms by auto
  have 4: "p - g < length xs" using assms by simp
  show ?thesis
    by (subst qsort_sift.simps) (use assms in \<open>simp add: 1 2 3 4 Let_def\<close>)
qed

lemma qsort_sift_mset:
  assumes "0 < w" "0 < g" "g \<le> p" "p < length xs"
  shows "\<exists>ys. qsort_sift cmp w (g * w) (p * w) xs = Some ys \<and> mset ys = mset xs"
  using assms(3,4)
proof (induction p arbitrary: xs rule: less_induct)
  case (less p)
  let ?xs = "xs[p - g := xs ! p, p := xs ! (p - g)]"
  have m: "mset ?xs = mset xs" and l: "length ?xs = length xs"
    using less.prems assms(2) by (auto simp: mset_swap_positions)
  have "\<exists>ys. qsort_sift cmp w (g * w) ((p - g) * w) ?xs = Some ys \<and> mset ys = mset ?xs"
    if "g \<le> p - g"
    using that less.prems assms(2) by (intro less.IH) auto
  with m show ?case
    using qsort_sift_unfold [OF assms(1,2) less.prems, of cmp] by (auto simp: Let_def)
qed

lemma offset_step: "p * w + w = Suc p * (w::nat)"
  by simp

lemma offset_less: "0 < w \<Longrightarrow> (p * w + w < n * w) = (Suc p < (n::nat))"
  unfolding offset_step by (rule mult_less_cancel2 [THEN trans]) simp

lemma qsort_pass_mset:
  assumes "0 < w" "0 < g" "g \<le> p" "p < length xs"
  shows "\<exists>ys. qsort_pass cmp w (g * w) (length xs * w) (p * w) xs = Some ys \<and> mset ys = mset xs"
  using assms(3,4)
proof (induction "length xs - p" arbitrary: p xs rule: less_induct)
  case less
  obtain ys where ys: "qsort_sift cmp w (g * w) (p * w) xs = Some ys" "mset ys = mset xs"
    using qsort_sift_mset [OF assms(1,2) less.prems] by blast
  have l: "length ys = length xs" using ys(2) by (metis size_mset)
  note s = offset_step [of p w] offset_less [OF assms(1), of p "length xs"]
  show ?case
  proof (cases "Suc p < length xs")
    case True
    then have "\<exists>zs. qsort_pass cmp w (g * w) (length ys * w) (Suc p * w) ys = Some zs \<and> mset zs = mset ys"
      using less.prems l by (intro less.hyps) auto
    then show ?thesis
      using assms(1) ys l s True by (subst qsort_pass.simps) (auto simp: add.commute)
  next
    case False
    then show ?thesis
      using assms(1) ys s by (subst qsort_pass.simps) auto
  qed
qed

subsection \<open>The gap sequence\<close>

inductive gapnum :: "nat \<Rightarrow> bool" where
  gap1: "gapnum 1"
| gap_next: "gapnum g \<Longrightarrow> gapnum (3 * g + 1)"

lemma gapnum_pos: "gapnum g \<Longrightarrow> 0 < g"
  by (induction rule: gapnum.induct) auto

lemma qsort_gap_gapnum:
  "g = 0 \<or> gapnum g \<Longrightarrow> gapnum (qsort_gap lim g)"
proof (induction lim g rule: qsort_gap.induct)
  case (1 lim g)
  then have "gapnum (3 * g + 1)"
    by (auto intro: gap_next [simplified] gap1 [simplified])
  with "1.IH" show ?case
    by (subst qsort_gap.simps) (auto simp: Let_def)
qed

lemma qsort_gap_less: "3 * lim < n \<Longrightarrow> 1 < n \<Longrightarrow> g = 0 \<or> g < lim \<Longrightarrow> qsort_gap lim g < n"
proof (induction lim g rule: qsort_gap.induct)
  case (1 lim g)
  then show ?case
    by (subst qsort_gap.simps) (auto simp: Let_def)
qed

lemma gap_step: "(Suc (3 * g) * w - w) div 3 = g * w"
  by simp

lemma qsort_gaps_mset:
  assumes "0 < w" "gapnum g" "g < length xs"
  shows "\<exists>ys. qsort_gaps cmp w (length xs * w) (g * w) xs = Some ys \<and> mset ys = mset xs"
  using assms(2,3)
proof (induction g arbitrary: xs rule: gapnum.induct)
  case gap1
  then show ?case
    using qsort_pass_mset [OF assms(1), of 1 1 xs cmp]
    by (subst qsort_gaps.simps) auto
next
  case (gap_next g)
  have g: "0 < g" using gap_next.hyps by (rule gapnum_pos)
  obtain ys where ys: "qsort_pass cmp w ((3 * g + 1) * w) (length xs * w) ((3 * g + 1) * w) xs = Some ys"
      "mset ys = mset xs"
    using qsort_pass_mset [OF assms(1), of "3 * g + 1" "3 * g + 1" xs cmp] gap_next.prems by auto
  have l: "length ys = length xs" using ys(2) by (metis size_mset)
  have "\<exists>zs. qsort_gaps cmp w (length ys * w) (g * w) ys = Some zs \<and> mset zs = mset ys"
    using gap_next.prems l by (intro gap_next.IH) simp
  with ys l g assms(1) gap_step [of g w] show ?case
    by (subst qsort_gaps.simps) (auto simp: Let_def)
qed

lemma qsort_mset:
  assumes "0 < w"
  shows "\<exists>ys. qsort cmp (length xs) w xs = Some ys \<and> mset ys = mset xs"
proof (cases "1 < length xs")
  case True
  then have "qsort_gap ((length xs - 1) div 3) 0 < length xs"
    by (intro qsort_gap_less) auto
  with True assms show ?thesis
    using qsort_gaps_mset [OF assms qsort_gap_gapnum [of 0], of "(length xs - 1) div 3" xs cmp]
    by (simp add: qsort_def)
qed (simp add: qsort_def)

subsection \<open>The pass with gap one is an insertion sort\<close>

context qsort_order
begin

definition sorted_but :: "nat \<Rightarrow> nat \<Rightarrow> 'a list \<Rightarrow> bool" where
  "sorted_but n p xs \<longleftrightarrow> (\<forall>i k. i < k \<and> k < n \<and> k \<noteq> p \<longrightarrow> cmp (xs ! i) (xs ! k) \<le> 0)"

lemma sift_one:
  assumes "0 < w" "0 < p" "p < n" "n \<le> length xs" "set xs \<subseteq> A" "sorted_but n p xs"
  shows "\<exists>ys. qsort_sift cmp w w (p * w) xs = Some ys \<and> mset ys = mset xs \<and> sorted_but n 0 ys"
  using assms(2-)
proof (induction p arbitrary: xs rule: less_induct)
  case (less p)
  let ?xs = "xs[p - 1 := xs ! p, p := xs ! (p - 1)]"
  have len: "p < length xs" and in_A: "\<And>i. i < length xs \<Longrightarrow> xs ! i \<in> A"
    using less.prems by (auto intro!: nth_mem [THEN subsetD [OF less.prems(4)]])
  have pre: "cmp (xs ! i) (xs ! (p - Suc 0)) \<le> 0" if "i < p" "i \<noteq> p - Suc 0" for i
  proof -
    have "i < p - Suc 0" "p - Suc 0 < n" "p - Suc 0 \<noteq> p"
      using less.prems that by auto
    then show ?thesis
      using less.prems(5) unfolding sorted_but_def by blast
  qed
  have unf: "qsort_sift cmp w w (p * w) xs =
      (if cmp (xs ! (p - 1)) (xs ! p) \<le> 0 then Some xs
       else if 1 \<le> p - 1 then qsort_sift cmp w w ((p - 1) * w) ?xs else Some ?xs)"
    using qsort_sift_unfold [OF assms(1), of 1 p xs cmp] less.prems len by (simp add: Let_def)
  show ?case
  proof (cases "cmp (xs ! (p - 1)) (xs ! p) \<le> 0")
    case True
    have "cmp (xs ! i) (xs ! k) \<le> 0" if "i < k" "k < n" for i k
    proof (cases "k = p \<and> i \<noteq> p - 1")
      case True': True
      then have "cmp (xs ! i) (xs ! (p - 1)) \<le> 0"
        using that by (auto intro: pre)
      with True True' that len show ?thesis
        by (auto intro!: cmp_trans [of "xs ! i" "xs ! (p - 1)" "xs ! p"] in_A)
    qed (use True that less.prems in \<open>auto simp: sorted_but_def\<close>)
    then show ?thesis
      using unf True by (auto simp: sorted_but_def)
  next
    case False
    have ep: "cmp (xs ! p) (xs ! (p - 1)) \<le> 0"
      using cmp_total [OF in_A in_A, of "p - 1" p] False len by auto
    have sb: "sorted_but n (p - 1) ?xs"
      using less.prems len ep by (auto simp: sorted_but_def nth_list_update intro: pre)
    have m: "mset ?xs = mset xs"
      using len by (simp add: mset_swap_positions)
    then have sub: "set ?xs \<subseteq> A"
      using less.prems(4) by (metis set_mset_mset)
    show ?thesis
    proof (cases "1 \<le> p - 1")
      case True
      have "\<exists>ys. qsort_sift cmp w w ((p - 1) * w) ?xs = Some ys \<and> mset ys = mset ?xs \<and> sorted_but n 0 ys"
        using True less.prems sub sb by (intro less.IH) auto
      with True False unf m show ?thesis by auto
    next
      case False': False
      then have "p - 1 = 0" using less.prems by simp
      with sb have "sorted_but n 0 ?xs" by simp
      with False False' unf m show ?thesis by auto
    qed
  qed
qed

lemma pass_one:
  assumes "0 < w" "0 < p" "p < length xs" "set xs \<subseteq> A" "sorted_but p 0 xs"
  shows "\<exists>ys. qsort_pass cmp w w (length xs * w) (p * w) xs = Some ys \<and> mset ys = mset xs \<and>
           sorted_but (length xs) 0 ys"
  using assms(2-)
proof (induction "length xs - p" arbitrary: p xs rule: less_induct)
  case less
  have "sorted_but (Suc p) p xs"
    using less.prems by (auto simp: sorted_but_def less_Suc_eq)
  then obtain ys where ys: "qsort_sift cmp w w (p * w) xs = Some ys" "mset ys = mset xs"
      "sorted_but (Suc p) 0 ys"
    using sift_one [OF assms(1), of p "Suc p" xs] less.prems by auto
  have l: "length ys = length xs" and sub: "set ys \<subseteq> A"
    using ys(2) less.prems(3) by (metis size_mset, metis set_mset_mset)
  note s = offset_step [of p w] offset_less [OF assms(1), of p "length xs"]
  show ?case
  proof (cases "Suc p < length xs")
    case True
    then have "\<exists>zs. qsort_pass cmp w w (length ys * w) (Suc p * w) ys = Some zs \<and> mset zs = mset ys \<and>
        sorted_but (length ys) 0 zs"
      using less.prems l sub ys(3) by (intro less.hyps) auto
    then show ?thesis
      using assms(1) ys l s True by (subst qsort_pass.simps) (auto simp: add.commute)
  next
    case False
    then have "Suc p = length xs" using less.prems by simp
    with False show ?thesis
      using assms(1) ys s by (subst qsort_pass.simps) auto
  qed
qed

lemma gaps_sorted:
  assumes "0 < w" "gapnum g" "g < length xs" "set xs \<subseteq> A"
  shows "\<exists>ys. qsort_gaps cmp w (length xs * w) (g * w) xs = Some ys \<and> mset ys = mset xs \<and>
           sorted_but (length xs) 0 ys"
  using assms(2-)
proof (induction g arbitrary: xs rule: gapnum.induct)
  case gap1
  then show ?case
    using pass_one [OF assms(1), of 1 xs]
    by (subst qsort_gaps.simps) (auto simp: sorted_but_def)
next
  case (gap_next g)
  have g: "0 < g" using gap_next.hyps by (rule gapnum_pos)
  obtain ys where ys: "qsort_pass cmp w ((3 * g + 1) * w) (length xs * w) ((3 * g + 1) * w) xs = Some ys"
      "mset ys = mset xs"
    using qsort_pass_mset [OF assms(1), of "3 * g + 1" "3 * g + 1" xs cmp] gap_next.prems by auto
  have l: "length ys = length xs" and sub: "set ys \<subseteq> A"
    using ys(2) gap_next.prems(2) by (metis size_mset, metis set_mset_mset)
  have "\<exists>zs. qsort_gaps cmp w (length ys * w) (g * w) ys = Some zs \<and> mset zs = mset ys \<and>
      sorted_but (length ys) 0 zs"
    using gap_next.prems l sub by (intro gap_next.IH) auto
  with ys l g assms(1) gap_step [of g w] show ?case
    by (subst qsort_gaps.simps) (auto simp: Let_def)
qed

lemma qsort_sorts:
  assumes "0 < w" "set xs \<subseteq> A"
  shows "\<exists>ys. qsort cmp (length xs) w xs = Some ys \<and> mset ys = mset xs \<and>
           sorted_wrt (\<lambda>x y. cmp x y \<le> 0) ys"
proof (cases "1 < length xs")
  case True
  have gap: "qsort_gap ((length xs - 1) div 3) 0 < length xs"
    using True by (intro qsort_gap_less) auto
  obtain ys where "qsort cmp (length xs) w xs = Some ys" "mset ys = mset xs" "sorted_but (length xs) 0 ys"
    using gaps_sorted [OF assms(1) qsort_gap_gapnum [of 0] gap assms(2)] True assms(1)
    by (auto simp: qsort_def)
  moreover from this have "length ys = length xs" by (metis size_mset)
  ultimately show ?thesis by (auto simp: sorted_but_def sorted_wrt_iff_nth_less)
next
  case False
  then show ?thesis by (cases xs rule: list.exhaust) (auto simp: qsort_def)
qed

end

end
