(* ===== verification/Cstring.thy ===== *)
theory Cstring
  imports Ctype Qsort "HOL-Library.List_Lexorder"
begin

text \<open>
  The routines of \<open>lib/string.c\<close> over an explicit memory. Addresses are natural numbers, a pointer
  that may be null is an \<open>option\<close>, and a scan for a terminating zero is a
  \<^theory_text>\<open>partial_function (option)\<close>: \<open>None\<close> is a scan that never ends. Counted loops recurse on the
  cnt. \<open>cstr m p s\<close> says that the zero-terminated string \<open>s\<close> is at \<open>p\<close>; the lemmas say what
  each routine does to such strings, and that it returns. Word-wise copies and fills
  (\<open>memset\<close>, \<open>memcpy\<close>) store 32-bit little-endian words, as the ARM target does.

  \<open>strcmp_s\<close> is the comparison on strings as values, which the hash table and the sort use;
  \<open>strcmp_cstr\<close> shows that the memory routine computes it.
\<close>

subsection \<open>Strings in memory\<close>

fun cstr :: "mem \<Rightarrow> nat \<Rightarrow> bytes \<Rightarrow> bool" where
  "cstr m p [] \<longleftrightarrow> m p = 0"
| "cstr m p (c # s) \<longleftrightarrow> c \<noteq> 0 \<and> m p = c \<and> cstr m (Suc p) s"

definition bytes_at :: "mem \<Rightarrow> nat \<Rightarrow> nat \<Rightarrow> bytes" where
  "bytes_at m p n = map (\<lambda>i. m (p + i)) [0..<n]"

definition store :: "mem \<Rightarrow> nat \<Rightarrow> bytes \<Rightarrow> mem" where
  "store m p xs = (\<lambda>a. if p \<le> a \<and> a < p + length xs then xs ! (a - p) else m a)"

definition load32 :: "mem \<Rightarrow> nat \<Rightarrow> u32" where
  "load32 m p = ucast (m p) OR push_bit 8 (ucast (m (p + 1))) OR push_bit 16 (ucast (m (p + 2)))
     OR push_bit 24 (ucast (m (p + 3)))"

definition store32 :: "mem \<Rightarrow> nat \<Rightarrow> u32 \<Rightarrow> mem" where
  "store32 m p w = m(p := ucast w, p + 1 := ucast (drop_bit 8 w), p + 2 := ucast (drop_bit 16 w),
     p + 3 := ucast (drop_bit 24 w))"

subsection \<open>Length, copy, concatenation\<close>

partial_function (option) strlen_loop :: "mem \<Rightarrow> nat \<Rightarrow> nat \<Rightarrow> nat option" where
  "strlen_loop m s sc = (if m sc \<noteq> 0 then strlen_loop m s (sc + 1) else Some (sc - s))"

definition strlen :: "mem \<Rightarrow> nat \<Rightarrow> nat option" where
  "strlen m s = strlen_loop m s s"

fun strnlen_loop :: "mem \<Rightarrow> nat \<Rightarrow> nat \<Rightarrow> nat \<Rightarrow> nat" where
  "strnlen_loop m s sc 0 = sc - s"
| "strnlen_loop m s sc (Suc cnt) = (if m sc \<noteq> 0 then strnlen_loop m s (sc + 1) cnt else sc - s)"

definition strnlen :: "mem \<Rightarrow> nat \<Rightarrow> nat \<Rightarrow> nat" where
  "strnlen m s cnt = strnlen_loop m s s cnt"

partial_function (option) strcpy :: "mem \<Rightarrow> nat \<Rightarrow> nat \<Rightarrow> mem option" where
  "strcpy m dest src =
     (let c = m src; m' = m(dest := c)
      in if c \<noteq> 0 then strcpy m' (dest + 1) (src + 1) else Some m')"

fun strncpy :: "mem \<Rightarrow> nat \<Rightarrow> nat \<Rightarrow> nat \<Rightarrow> mem" where
  "strncpy m dest src 0 = m"
| "strncpy m dest src (Suc cnt) =
     (let c = m src; m' = m(dest := c)
      in if c \<noteq> 0 then strncpy m' (dest + 1) (src + 1) cnt else m')"

partial_function (option) skip_to_nul :: "mem \<Rightarrow> nat \<Rightarrow> nat option" where
  "skip_to_nul m dest = (if m dest \<noteq> 0 then skip_to_nul m (dest + 1) else Some dest)"

definition strcat :: "mem \<Rightarrow> nat \<Rightarrow> nat \<Rightarrow> mem option" where
  "strcat m dest src =
     (case skip_to_nul m dest of None \<Rightarrow> None | Some d \<Rightarrow> strcpy m d src)"

fun strncat_loop :: "mem \<Rightarrow> nat \<Rightarrow> nat \<Rightarrow> nat \<Rightarrow> mem" where
  "strncat_loop m dest src 0 = m"
| "strncat_loop m dest src (Suc cnt) =
     (let c = m src; m' = m(dest := c)
      in if c \<noteq> 0 then (if cnt = 0 then m'(dest + 1 := 0)
                        else strncat_loop m' (dest + 1) (src + 1) cnt)
         else m')"

definition strncat :: "mem \<Rightarrow> nat \<Rightarrow> nat \<Rightarrow> nat \<Rightarrow> mem option" where
  "strncat m dest src cnt =
     (if cnt = 0 then Some m
      else case skip_to_nul m dest of None \<Rightarrow> None | Some d \<Rightarrow> Some (strncat_loop m d src cnt))"

subsection \<open>Blocks of memory\<close>

fun memset_bytes :: "mem \<Rightarrow> nat \<Rightarrow> u8 \<Rightarrow> nat \<Rightarrow> mem" where
  "memset_bytes m s8 c 0 = m"
| "memset_bytes m s8 c (Suc cnt) = memset_bytes (m(s8 := c)) (s8 + 1) c cnt"

fun memset_words :: "mem \<Rightarrow> nat \<Rightarrow> u32 \<Rightarrow> nat \<Rightarrow> mem \<times> nat \<times> nat" where
  "memset_words m sl cl cnt =
     (if 4 \<le> cnt then memset_words (store32 m sl cl) (sl + 4) cl (cnt - 4) else (m, sl, cnt))"

fun memset_cl :: "u32 \<Rightarrow> nat \<Rightarrow> u32 \<Rightarrow> u32" where
  "memset_cl c 0 cl = cl"
| "memset_cl c (Suc i) cl = memset_cl c i (push_bit 8 cl OR (c AND 255))"

definition memset_fill :: "u32 \<Rightarrow> u32" where
  "memset_fill c = memset_cl c 4 0"

definition memset :: "mem \<Rightarrow> nat \<Rightarrow> u32 \<Rightarrow> nat \<Rightarrow> mem" where
  "memset m s c cnt =
     (if s mod 4 = 0
      then (case memset_words m s (memset_fill c) cnt of (m', s', n) \<Rightarrow> memset_bytes m' s' (ucast c) n)
      else memset_bytes m s (ucast c) cnt)"

fun bcopy :: "mem \<Rightarrow> nat \<Rightarrow> nat \<Rightarrow> nat \<Rightarrow> mem" where
  "bcopy m src dest 0 = m"
| "bcopy m src dest (Suc cnt) = bcopy (m(dest := m src)) (src + 1) (dest + 1) cnt"

fun memcpy_words :: "mem \<Rightarrow> nat \<Rightarrow> nat \<Rightarrow> nat \<Rightarrow> mem \<times> nat \<times> nat \<times> nat" where
  "memcpy_words m dl sl cnt =
     (if 4 \<le> cnt then memcpy_words (store32 m dl (load32 m sl)) (dl + 4) (sl + 4) (cnt - 4)
      else (m, dl, sl, cnt))"

definition memcpy :: "mem \<Rightarrow> nat \<Rightarrow> nat \<Rightarrow> nat \<Rightarrow> mem" where
  "memcpy m dest src cnt =
     (if src = dest then m
      else if dest mod 4 = 0 \<and> src mod 4 = 0
      then (case memcpy_words m dest src cnt of (m', d8, s8, n) \<Rightarrow> bcopy m' s8 d8 n)
      else bcopy m src dest cnt)"

fun memmove_down :: "mem \<Rightarrow> nat \<Rightarrow> nat \<Rightarrow> nat \<Rightarrow> mem" where
  "memmove_down m tmp s 0 = m"
| "memmove_down m tmp s (Suc cnt) =
     memmove_down (m(tmp - 1 := m (s - 1))) (tmp - 1) (s - 1) cnt"

definition memmove :: "mem \<Rightarrow> nat \<Rightarrow> nat \<Rightarrow> nat \<Rightarrow> mem" where
  "memmove m dest src cnt =
     (if src = dest then m
      else if dest \<le> src then bcopy m src dest cnt
      else memmove_down m (dest + cnt) (src + cnt) cnt)"

fun memcmp :: "mem \<Rightarrow> nat \<Rightarrow> nat \<Rightarrow> nat \<Rightarrow> int" where
  "memcmp m cs ct 0 = 0"
| "memcmp m cs ct (Suc cnt) =
     (let res = uint (m cs) - uint (m ct)
      in if res \<noteq> 0 then res else memcmp m (cs + 1) (ct + 1) cnt)"

fun memscan :: "mem \<Rightarrow> nat \<Rightarrow> u8 \<Rightarrow> nat \<Rightarrow> nat" where
  "memscan m addr c 0 = addr"
| "memscan m addr c (Suc sz) = (if m addr = c then addr else memscan m (addr + 1) c sz)"

fun memchr :: "mem \<Rightarrow> nat \<Rightarrow> u8 \<Rightarrow> nat \<Rightarrow> nat option" where
  "memchr m s c 0 = None"
| "memchr m s c (Suc n) = (if c = m s then Some s else memchr m (s + 1) c n)"

definition strlcpy :: "mem \<Rightarrow> nat \<Rightarrow> nat \<Rightarrow> nat \<Rightarrow> (nat \<times> mem) option" where
  "strlcpy m dest src sz =
     (case strlen m src of
        None \<Rightarrow> None
      | Some ret \<Rightarrow>
          (if sz \<noteq> 0
           then let len = (if ret \<ge> sz then sz - 1 else ret)
                in Some (ret, (memcpy m dest src len)(dest + len := 0))
           else Some (ret, m)))"

subsection \<open>Comparison and search\<close>

text \<open>\<open>__res\<close> is a \<open>signed char\<close>: the difference of the two bytes is cut to 8 bits.\<close>

partial_function (option) strcmp :: "mem \<Rightarrow> nat \<Rightarrow> nat \<Rightarrow> int option" where
  "strcmp m cs ct =
     (let res = m cs - m ct
      in if res \<noteq> 0 \<or> m cs = 0 then Some (sint res) else strcmp m (cs + 1) (ct + 1))"

fun strncmp_loop :: "mem \<Rightarrow> nat \<Rightarrow> nat \<Rightarrow> int \<Rightarrow> nat \<Rightarrow> int" where
  "strncmp_loop m cs ct r 0 = r"
| "strncmp_loop m cs ct r (Suc cnt) =
     (let res = m cs - m ct
      in if res \<noteq> 0 \<or> m cs = 0 then sint res
         else strncmp_loop m (cs + 1) (ct + 1) (sint res) cnt)"

definition strncmp :: "mem \<Rightarrow> nat \<Rightarrow> nat \<Rightarrow> nat \<Rightarrow> int" where
  "strncmp m cs ct cnt = strncmp_loop m cs ct 0 cnt"

fun strcmp_s :: "bytes \<Rightarrow> bytes \<Rightarrow> int" where
  "strcmp_s [] [] = 0"
| "strcmp_s [] (y # ys) = sint (0 - y)"
| "strcmp_s (x # xs) [] = sint (x - 0)"
| "strcmp_s (x # xs) (y # ys) = (if x - y \<noteq> 0 then sint (x - y) else strcmp_s xs ys)"

partial_function (option) strchr :: "mem \<Rightarrow> nat \<Rightarrow> u8 \<Rightarrow> nat option option" where
  "strchr m s c =
     (if m s \<noteq> c then (if m s = 0 then Some None else strchr m (s + 1) c) else Some (Some s))"

fun strrchr_loop :: "mem \<Rightarrow> nat \<Rightarrow> u8 \<Rightarrow> nat \<Rightarrow> nat option" where
  "strrchr_loop m s c 0 = (if m s = c then Some s else None)"
| "strrchr_loop m s c (Suc n) = (if m (s + Suc n) = c then Some (s + Suc n) else strrchr_loop m s c n)"

definition strrchr :: "mem \<Rightarrow> nat \<Rightarrow> u8 \<Rightarrow> nat option option" where
  "strrchr m s c = (case strlen m s of None \<Rightarrow> None | Some n \<Rightarrow> Some (strrchr_loop m s c n))"

partial_function (option) skip_spaces :: "mem \<Rightarrow> nat \<Rightarrow> nat option" where
  "skip_spaces m str = (if isspace (m str) then skip_spaces m (str + 1) else Some str)"

fun strim_end :: "mem \<Rightarrow> nat \<Rightarrow> nat \<Rightarrow> nat" where
  "strim_end m s 0 = 0"
| "strim_end m s (Suc n) = (if isspace (m (s + n)) then strim_end m s n else Suc n)"

definition strim :: "mem \<Rightarrow> nat \<Rightarrow> (nat \<times> mem) option" where
  "strim m s0 =
     (case skip_spaces m s0 of
        None \<Rightarrow> None
      | Some s \<Rightarrow>
          (case strlen m s of
             None \<Rightarrow> None
           | Some sz \<Rightarrow> if sz = 0 then Some (s, m) else Some (s, m(s + strim_end m s sz := 0))))"

partial_function (option) accepts :: "mem \<Rightarrow> u8 \<Rightarrow> nat \<Rightarrow> bool option" where
  "accepts m c a = (if m a = 0 then Some False else if c = m a then Some True else accepts m c (a + 1))"

partial_function (option) strspn_loop :: "mem \<Rightarrow> nat \<Rightarrow> nat \<Rightarrow> nat \<Rightarrow> nat option" where
  "strspn_loop m p accept cnt =
     (if m p = 0 then Some cnt
      else Option.bind (accepts m (m p) accept)
             (\<lambda>ok. if ok then strspn_loop m (p + 1) accept (cnt + 1) else Some cnt))"

definition strspn :: "mem \<Rightarrow> nat \<Rightarrow> nat \<Rightarrow> nat option" where
  "strspn m s accept = strspn_loop m s accept 0"

partial_function (option) strpbrk :: "mem \<Rightarrow> nat \<Rightarrow> nat \<Rightarrow> nat option option" where
  "strpbrk m sc1 ct =
     (if m sc1 = 0 then Some None
      else Option.bind (accepts m (m sc1) ct)
             (\<lambda>hit. if hit then Some (Some sc1) else strpbrk m (sc1 + 1) ct))"

text \<open>\<open>strtok\<close> keeps its position in the global \<open>___strtok\<close>, here the second argument and result.\<close>

definition strtok :: "mem \<Rightarrow> nat option \<Rightarrow> nat option \<Rightarrow> nat \<Rightarrow> (nat option \<times> nat option \<times> mem) option" where
  "strtok m static_p s ct =
     (case (case s of Some p \<Rightarrow> Some p | None \<Rightarrow> static_p) of
        None \<Rightarrow> Some (None, static_p, m)
      | Some p \<Rightarrow>
          Option.bind (strspn m p ct) (\<lambda>n.
            let sbegin = p + n in
            if m sbegin = 0 then Some (None, None, m)
            else Option.bind (strpbrk m sbegin ct) (\<lambda>send.
              case send of
                Some e \<Rightarrow> if m e \<noteq> 0 then Some (Some sbegin, Some (e + 1), m(e := 0))
                          else Some (Some sbegin, Some e, m)
              | None \<Rightarrow> Some (Some sbegin, None, m))))"

definition strsep :: "mem \<Rightarrow> nat option \<Rightarrow> nat \<Rightarrow> (nat option \<times> nat option \<times> mem) option" where
  "strsep m s ct =
     (case s of
        None \<Rightarrow> Some (None, s, m)
      | Some sbegin \<Rightarrow>
          Option.bind (strpbrk m sbegin ct) (\<lambda>end_p.
            case end_p of
              Some e \<Rightarrow> Some (Some sbegin, Some (e + 1), m(e := 0))
            | None \<Rightarrow> Some (Some sbegin, None, m)))"

partial_function (option) strswab_loop :: "mem \<Rightarrow> nat \<Rightarrow> nat \<Rightarrow> mem option" where
  "strswab_loop m p q =
     (if m p \<noteq> 0 \<and> m q \<noteq> 0 then strswab_loop (m(p := m q, q := m p)) (p + 2) (q + 2) else Some m)"

definition strswab :: "mem \<Rightarrow> nat option \<Rightarrow> (nat option \<times> mem) option" where
  "strswab m s =
     (case s of
        None \<Rightarrow> Some (None, m)
      | Some p \<Rightarrow> if m p = 0 then Some (None, m)
                  else map_option (\<lambda>m'. (Some p, m')) (strswab_loop m p (p + 1)))"

fun strstr_loop :: "mem \<Rightarrow> nat \<Rightarrow> nat \<Rightarrow> nat \<Rightarrow> nat \<Rightarrow> nat option" where
  "strstr_loop m s1 s2 l1 l2 =
     (if l2 = 0 \<or> l1 < l2 then None
      else if memcmp m s1 s2 l2 = 0 then Some s1
      else strstr_loop m (s1 + 1) s2 (l1 - 1) l2)"

definition strstr :: "mem \<Rightarrow> nat \<Rightarrow> nat \<Rightarrow> nat option option" where
  "strstr m s1 s2 =
     (case strlen m s2 of
        None \<Rightarrow> None
      | Some l2 \<Rightarrow>
          if l2 = 0 then Some (Some s1)
          else (case strlen m s1 of
                  None \<Rightarrow> None
                | Some l1 \<Rightarrow> Some (strstr_loop m s1 s2 l1 l2)))"

text \<open>\<open>strdup\<close>: \<open>malloc\<close> is an argument; it yields the address of a fresh block or fails.\<close>

definition strdup :: "(nat \<Rightarrow> nat option) \<Rightarrow> mem \<Rightarrow> nat option \<Rightarrow> (nat option \<times> mem) option" where
  "strdup malloc m s =
     (case s of
        None \<Rightarrow> Some (None, m)
      | Some p \<Rightarrow>
          Option.bind (strlen m p) (\<lambda>n.
            case malloc (n + 1) of
              None \<Rightarrow> Some (None, m)
            | Some a \<Rightarrow> map_option (\<lambda>m'. (Some a, m')) (strcpy m a p)))"

declare memset_words.simps [simp del] memcpy_words.simps [simp del] strstr_loop.simps [simp del]

subsection \<open>Facts about memory\<close>

lemma bytes_at_simps [simp]:
  "bytes_at m p 0 = []"
  "bytes_at m p (Suc n) = m p # bytes_at m (Suc p) n"
  "length (bytes_at m p n) = n"
  by (simp_all add: bytes_at_def upt_conv_Cons map_Suc_upt [symmetric] comp_def del: upt_Suc)

lemma nth_bytes_at [simp]: "i < n \<Longrightarrow> bytes_at m p n ! i = m (p + i)"
  by (simp add: bytes_at_def)

lemma bytes_at_append: "bytes_at m p (a + b) = bytes_at m p a @ bytes_at m (p + a) b"
  by (induction a arbitrary: p) simp_all

lemma bytes_at_cong: "(\<And>i. i < n \<Longrightarrow> m (p + i) = m' (p + i)) \<Longrightarrow> bytes_at m p n = bytes_at m' p n"
  by (simp add: bytes_at_def)

lemma bytes_at_upd [simp]: "a < p \<or> p + n \<le> a \<Longrightarrow> bytes_at (m(a := x)) p n = bytes_at m p n"
  by (rule bytes_at_cong) auto

lemma take_bytes_at [simp]: "take k (bytes_at m p n) = bytes_at m p (min k n)"
  by (simp add: bytes_at_def take_map min_def)

lemma store_Nil [simp]: "store m p [] = m"
  by (auto simp: store_def fun_eq_iff)

lemma store_Cons: "store m p (x # xs) = store (m(p := x)) (Suc p) xs"
  by (auto simp: store_def fun_eq_iff nth_Cons')

lemma store_append: "store m p (xs @ ys) = store (store m p xs) (p + length xs) ys"
  by (auto simp: store_def fun_eq_iff nth_append)

lemma store_snoc: "store m p (xs @ [x]) = (store m p xs)(p + length xs := x)"
  by (auto simp: store_append store_Cons)

lemma store_in: "p \<le> a \<Longrightarrow> a < p + length xs \<Longrightarrow> store m p xs a = xs ! (a - p)"
  by (simp add: store_def)

lemma store_out: "a < p \<or> p + length xs \<le> a \<Longrightarrow> store m p xs a = m a"
  by (auto simp: store_def)

lemma bytes_at_store_out:
  "q + n \<le> p \<or> p + length xs \<le> q \<Longrightarrow> bytes_at (store m p xs) q n = bytes_at m q n"
  by (rule bytes_at_cong) (auto simp: store_def)

lemma bytes_at_store_in [simp]: "bytes_at (store m p xs) p (length xs) = xs"
  by (rule nth_equalityI) (simp_all add: store_in)

lemma store_upd_swap: "a < p \<or> p + length xs \<le> a \<Longrightarrow> store (m(a := x)) p xs = (store m p xs)(a := x)"
  by (auto simp: store_def fun_eq_iff)

lemma cstr_iff: "cstr m p s \<longleftrightarrow> 0 \<notin> set s \<and> bytes_at m p (length s) = s \<and> m (p + length s) = 0"
  by (induction s arbitrary: p) auto

lemma cstr_NUL_free: "cstr m p s \<Longrightarrow> 0 \<notin> set s"
  by (simp add: cstr_iff)

lemma cstr_nth: "cstr m p s \<Longrightarrow> i < length s \<Longrightarrow> m (p + i) = s ! i"
  by (metis cstr_iff nth_bytes_at)

lemma cstr_end: "cstr m p s \<Longrightarrow> m (p + length s) = 0"
  by (simp add: cstr_iff)

lemma cstr_drop: "cstr m p s \<Longrightarrow> k \<le> length s \<Longrightarrow> cstr m (p + k) (drop k s)"
proof (induction k arbitrary: p s)
  case (Suc k)
  then show ?case by (cases s) (auto dest: Suc.IH [of "Suc p"])
qed simp

lemma cstr_unique: "cstr m p s \<Longrightarrow> cstr m p t \<Longrightarrow> s = t"
proof (induction s arbitrary: p t)
  case Nil then show ?case by (cases t) auto
next
  case (Cons c s) then show ?case by (cases t) auto
qed

lemma cstr_store: "0 \<notin> set s \<Longrightarrow> cstr (store m p (s @ [0])) p s"
  by (simp add: cstr_iff store_snoc)

lemma cstr_frame: "cstr m p s \<Longrightarrow> (\<And>i. i \<le> length s \<Longrightarrow> m' (p + i) = m (p + i)) \<Longrightarrow> cstr m' p s"
  unfolding cstr_iff by (auto intro: trans [OF bytes_at_cong])

subsection \<open>Lengths\<close>

lemma strlen_loop_cstr: "cstr m sc s \<Longrightarrow> p \<le> sc \<Longrightarrow> strlen_loop m p sc = Some (sc + length s - p)"
  by (induction s arbitrary: sc) (subst strlen_loop.simps; simp)+

lemma strlen_cstr [simp]: "cstr m p s \<Longrightarrow> strlen m p = Some (length s)"
  by (simp add: strlen_def strlen_loop_cstr)

lemma strnlen_loop_cstr: "cstr m sc s \<Longrightarrow> p \<le> sc \<Longrightarrow> strnlen_loop m p sc n = sc + min n (length s) - p"
proof (induction n arbitrary: sc s)
  case (Suc n)
  then show ?case by (cases s) auto
qed simp

lemma strnlen_cstr: "cstr m p s \<Longrightarrow> strnlen m p n = min n (length s)"
  by (simp add: strnlen_def strnlen_loop_cstr)

lemma skip_to_nul_cstr: "cstr m p s \<Longrightarrow> skip_to_nul m p = Some (p + length s)"
  by (induction s arbitrary: p) (subst skip_to_nul.simps; simp)+

subsection \<open>Copies\<close>

lemma bcopy_store:
  "dest \<le> src \<or> src + n \<le> dest \<Longrightarrow> bcopy m src dest n = store m dest (bytes_at m src n)"
proof (induction n arbitrary: m src dest)
  case (Suc n)
  have "bcopy (m(dest := m src)) (Suc src) (Suc dest) n
      = store (m(dest := m src)) (Suc dest) (bytes_at (m(dest := m src)) (Suc src) n)"
    using Suc.prems by (intro Suc.IH) auto
  also have "bytes_at (m(dest := m src)) (Suc src) n = bytes_at m (Suc src) n"
    using Suc.prems by (intro bytes_at_upd) auto
  finally show ?case by (simp add: store_Cons fun_upd_def)
qed simp

lemma memmove_down_store:
  "src < dest \<Longrightarrow> memmove_down m (dest + n) (src + n) n = store m dest (bytes_at m src n)"
proof (induction n arbitrary: m)
  case (Suc n)
  let ?m = "m(dest + n := m (src + n))"
  have "memmove_down ?m (dest + n) (src + n) n = store ?m dest (bytes_at ?m src n)"
    using Suc.prems by (intro Suc.IH)
  also have "bytes_at ?m src n = bytes_at m src n"
    using Suc.prems by (intro bytes_at_cong) auto
  also have "store ?m dest (bytes_at m src n) = store m dest (bytes_at m src n @ [m (src + n)])"
    by (simp add: store_upd_swap store_snoc)
  also have "bytes_at m src n @ [m (src + n)] = bytes_at m src (Suc n)"
    using bytes_at_append [of m src n 1] by simp
  finally show ?case by (simp add: fun_upd_def)
qed simp

lemma memmove_store: "memmove m dest src n = store m dest (bytes_at m src n)"
proof (cases "src = dest")
  case True
  have "store m dest (bytes_at m dest n) a = m a" for a
    by (auto simp: store_def)
  with True show ?thesis by (simp add: memmove_def fun_eq_iff)
next
  case False
  then show ?thesis
    by (cases "dest \<le> src") (simp_all add: memmove_def bcopy_store memmove_down_store)
qed

lemma ucast_load32:
  fixes m :: mem
  shows "(ucast (load32 m p) :: u8) = m p"
    and "(ucast (drop_bit 8 (load32 m p)) :: u8) = m (p + 1)"
    and "(ucast (drop_bit 16 (load32 m p)) :: u8) = m (p + 2)"
    and "(ucast (drop_bit 24 (load32 m p)) :: u8) = m (p + 3)"
  by (rule bit_word_eqI; auto simp: load32_def bit_simps dest: bit_imp_le_length)+

lemma bytes_at_4: "bytes_at m s 4 = [m s, m (s + 1), m (s + 2), m (s + 3)]"
  by (simp add: numeral_eq_Suc)

lemma store_4: "store m d [a, b, c, e] = m(d := a, d + 1 := b, d + 2 := c, d + 3 := e)"
  by (simp add: store_Cons numeral_eq_Suc)

lemma store32_load32: "store32 m d (load32 m s) = store m d (bytes_at m s 4)"
  by (simp only: store32_def ucast_load32 bytes_at_4 store_4)

lemma memcpy_words_store:
  assumes "dest + n \<le> src \<or> src + n \<le> dest"
  shows "\<exists>k \<le> n. memcpy_words m dest src n =
           (store m dest (bytes_at m src k), dest + k, src + k, n - k)"
  using assms
proof (induction n arbitrary: m dest src rule: less_induct)
  case (less n)
  show ?case
  proof (cases "4 \<le> n")
    case True
    let ?m = "store m dest (bytes_at m src 4)"
    obtain k where k: "k \<le> n - 4" "memcpy_words ?m (dest + 4) (src + 4) (n - 4) =
        (store ?m (dest + 4) (bytes_at ?m (src + 4) k), dest + 4 + k, src + 4 + k, n - 4 - k)"
      using less.IH [of "n - 4" "dest + 4" "src + 4" ?m] True less.prems by auto
    have "bytes_at ?m (src + 4) k = bytes_at m (src + 4) k"
      using k(1) less.prems True by (intro bytes_at_store_out) auto
    then have "store ?m (dest + 4) (bytes_at ?m (src + 4) k) = store m dest (bytes_at m src (4 + k))"
      by (simp only: bytes_at_append store_append) simp
    with k True show ?thesis
      by (intro exI [of _ "4 + k"], subst memcpy_words.simps) (simp add: store32_load32 add.assoc)
  qed (subst memcpy_words.simps, auto)
qed

lemma memcpy_store:
  assumes "dest + n \<le> src \<or> src + n \<le> dest \<or> src = dest"
  shows "memcpy m dest src n = store m dest (bytes_at m src n)"
proof (cases "src = dest")
  case True
  then show ?thesis using memmove_store [of m dest src n] by (simp add: memcpy_def memmove_def)
next
  case False
  then have disj: "dest + n \<le> src \<or> src + n \<le> dest" using assms by auto
  obtain k where k: "k \<le> n" "memcpy_words m dest src n =
      (store m dest (bytes_at m src k), dest + k, src + k, n - k)"
    using memcpy_words_store [OF disj] by blast
  let ?m = "store m dest (bytes_at m src k)"
  have "bcopy ?m (src + k) (dest + k) (n - k) = store ?m (dest + k) (bytes_at ?m (src + k) (n - k))"
    using disj k(1) by (intro bcopy_store) auto
  also have "bytes_at ?m (src + k) (n - k) = bytes_at m (src + k) (n - k)"
    using disj k(1) by (intro bytes_at_store_out) auto
  also have "store ?m (dest + k) \<dots> = store m dest (bytes_at m src (k + (n - k)))"
    by (simp only: bytes_at_append store_append) simp
  finally have w: "bcopy ?m (src + k) (dest + k) (n - k) = store m dest (bytes_at m src n)"
    using k(1) by simp
  have "bcopy m src dest n = store m dest (bytes_at m src n)"
    using disj by (intro bcopy_store) auto
  with w k(2) False show ?thesis by (simp add: memcpy_def)
qed

subsection \<open>Fills\<close>

lemma memset_bytes_store: "memset_bytes m p c n = store m p (replicate n c)"
  by (induction n arbitrary: m p) (simp_all add: store_Cons)

lemma memset_fill_eq:
  "memset_fill c = push_bit 24 (take_bit 8 c) OR push_bit 16 (take_bit 8 c) OR push_bit 8 (take_bit 8 c)
     OR take_bit 8 c"
proof -
  have m: "c AND 255 = take_bit 8 c"
    by (simp add: take_bit_eq_mask mask_eq_exp_minus_1)
  have "memset_fill c = memset_cl c (Suc (Suc (Suc (Suc 0)))) 0"
    by (simp add: memset_fill_def numeral_eq_Suc)
  then show ?thesis by (simp add: m or.assoc)
qed

lemma memset_fill_bytes:
  "(ucast (memset_fill c) :: u8) = ucast c"
  "(ucast (drop_bit 8 (memset_fill c)) :: u8) = ucast c"
  "(ucast (drop_bit 16 (memset_fill c)) :: u8) = ucast c"
  "(ucast (drop_bit 24 (memset_fill c)) :: u8) = ucast c"
  by (rule bit_word_eqI; auto simp: memset_fill_eq bit_simps dest: bit_imp_le_length)+

lemma memset_words_store:
  "\<exists>k \<le> n. memset_words m p (memset_fill c) n = (store m p (replicate k (ucast c)), p + k, n - k)"
proof (induction n arbitrary: m p rule: less_induct)
  case (less n)
  show ?case
  proof (cases "4 \<le> n")
    case True
    let ?m = "store m p (replicate 4 (ucast c))"
    have m: "store32 m p (memset_fill c) = ?m"
      by (simp only: store32_def memset_fill_bytes store_4 [symmetric]) (simp add: numeral_eq_Suc)
    obtain k where k: "k \<le> n - 4" "memset_words ?m (p + 4) (memset_fill c) (n - 4) =
        (store ?m (p + 4) (replicate k (ucast c)), p + 4 + k, n - 4 - k)"
      using less.IH [of "n - 4" ?m "p + 4"] True by auto
    have "store ?m (p + 4) (replicate k (ucast c)) = store m p (replicate (4 + k) (ucast c))"
      by (simp only: replicate_add store_append) simp
    with k True m show ?thesis
      by (intro exI [of _ "4 + k"], subst memset_words.simps) (simp add: add.assoc)
  qed (subst memset_words.simps, auto)
qed

lemma memset_store: "memset m p c n = store m p (replicate n (ucast c))"
proof -
  obtain k where k: "k \<le> n" "memset_words m p (memset_fill c) n = (store m p (replicate k (ucast c)), p + k, n - k)"
    using memset_words_store by blast
  have "store (store m p (replicate k (ucast c))) (p + k) (replicate (n - k) (ucast c))
      = store m p (replicate (k + (n - k)) (ucast c))"
    by (simp only: replicate_add store_append) simp
  with k show ?thesis by (simp add: memset_def memset_bytes_store)
qed

subsection \<open>String copies\<close>

lemma strcpy_store:
  "cstr m src s \<Longrightarrow> dest \<le> src \<or> src + length s < dest \<Longrightarrow> strcpy m dest src = Some (store m dest (s @ [0]))"
proof (induction s arbitrary: m dest src)
  case Nil
  then show ?case by (subst strcpy.simps) (simp add: store_Cons)
next
  case (Cons c s)
  let ?m = "m(dest := c)"
  have "cstr ?m (Suc src) s"
    by (rule cstr_frame [of m]) (use Cons.prems in auto)
  moreover have "Suc dest \<le> Suc src \<or> Suc src + length s < Suc dest"
    using Cons.prems(2) by auto
  ultimately have "strcpy ?m (Suc dest) (Suc src) = Some (store ?m (Suc dest) (s @ [0]))"
    by (rule Cons.IH)
  with Cons.prems(1) show ?case
    by (subst strcpy.simps) (simp add: store_Cons)
qed

lemma cstr_append_store:
  assumes "cstr m dest a" and "0 \<notin> set b"
  shows "cstr (store m (dest + length a) (b @ [0])) dest (a @ b)"
proof -
  have "bytes_at (store m (dest + length a) (b @ [0])) dest (length a + length b) = a @ b"
    using assms by (simp add: bytes_at_append bytes_at_store_out store_snoc cstr_iff)
  with assms show ?thesis by (simp add: cstr_iff store_snoc add.assoc)
qed

lemma strcat_cstr:
  assumes "cstr m dest a" "cstr m src b" "dest + length a \<le> src \<or> src + length b < dest + length a"
  shows "\<exists>m'. strcat m dest src = Some m' \<and> cstr m' dest (a @ b) \<and>
           (\<forall>q. q < dest + length a \<or> dest + length (a @ b) < q \<longrightarrow> m' q = m q)"
proof -
  have "strcat m dest src = Some (store m (dest + length a) (b @ [0]))"
    using assms by (simp add: strcat_def skip_to_nul_cstr strcpy_store)
  then show ?thesis
    using assms(1) cstr_NUL_free [OF assms(2)] by (auto simp: cstr_append_store store_out)
qed

lemma strlcpy_cstr:
  assumes "cstr m src s" "0 < n" "dest + n \<le> src \<or> src + length s < dest"
  shows "\<exists>m'. strlcpy m dest src n = Some (length s, m') \<and> cstr m' dest (take (n - 1) s) \<and>
           (\<forall>q. q < dest \<or> dest + n \<le> q \<longrightarrow> m' q = m q)"
proof -
  let ?l = "min (length s) (n - 1)"
  have len: "(if length s \<ge> n then n - 1 else length s) = ?l"
    using assms(2) by auto
  have s: "bytes_at m src ?l = take (n - 1) s"
    using assms(1) take_bytes_at [of "n - 1" m src "length s"] by (simp add: cstr_iff min.commute)
  have "(memcpy m dest src ?l)(dest + ?l := 0) = store m dest (take (n - 1) s @ [0])"
    using assms by (subst memcpy_store) (auto simp: s [unfolded One_nat_def] store_snoc)
  moreover have "0 \<notin> set (take (n - 1) s)"
    using cstr_NUL_free [OF assms(1)] by (meson in_set_takeD)
  ultimately show ?thesis
    using assms(1,2) by (auto simp: strlcpy_def len Let_def cstr_store store_out)
qed

lemma strdup_cstr:
  assumes "cstr m p s" "malloc (length s + 1) = Some a" "a \<le> p \<or> p + length s < a"
  shows "\<exists>m'. strdup malloc m (Some p) = Some (Some a, m') \<and> cstr m' a s"
  using assms cstr_NUL_free [OF assms(1)] by (simp add: strdup_def strcpy_store cstr_store)

lemma strdup_nomem: "cstr m p s \<Longrightarrow> malloc (length s + 1) = None \<Longrightarrow> strdup malloc m (Some p) = Some (None, m)"
  by (simp add: strdup_def)

subsection \<open>Comparison\<close>

lemma strcmp_cstr: "cstr m p s \<Longrightarrow> cstr m q t \<Longrightarrow> strcmp m p q = Some (strcmp_s s t)"
proof (induction s t arbitrary: p q rule: strcmp_s.induct)
  case (4 x xs y ys)
  then show ?case by (subst strcmp.simps) (auto simp: Let_def)
qed (subst strcmp.simps, simp add: Let_def)+

lemma sint_eq_0 [simp]: "sint w = 0 \<longleftrightarrow> w = 0"
  by (metis signed_0 signed_word_eqI)

lemma strcmp_s_eq_0: "0 \<notin> set s \<Longrightarrow> 0 \<notin> set t \<Longrightarrow> strcmp_s s t = 0 \<longleftrightarrow> s = t"
  by (induction s t rule: strcmp_s.induct) auto

lemma strcmp_s_refl [simp]: "strcmp_s s s = 0"
  by (induction s) auto

definition ascii :: "bytes set" where
  "ascii = {s. \<forall>c \<in> set s. c \<noteq> 0 \<and> c < 128}"

lemma sint_sub_ascii:
  assumes "x < (128::u8)" "y < 128"
  shows "sint (x - y) = uint x - uint y"
proof -
  have b: "uint x < 128" "uint y < 128"
    using assms by (simp_all add: word_less_def)
  have "- 128 \<le> uint x - uint y" and "uint x - uint y < 128"
    using b uint_nonnegative [of x] uint_nonnegative [of y] by linarith+
  then have "signed_take_bit 7 (uint x - uint y) = uint x - uint y"
    by (intro signed_take_bit_int_eq_self) simp_all
  then show ?thesis by (subst word_sub_wi, subst signed_of_int) simp
qed

lemma sint_sub_ascii_le: "x < (128::u8) \<Longrightarrow> y < 128 \<Longrightarrow> sint (x - y) \<le> 0 \<longleftrightarrow> x \<le> y"
  by (simp add: sint_sub_ascii word_le_def)

text \<open>On ASCII strings \<open>strcmp\<close> is the lexicographic order of the bytes.\<close>

lemma strcmp_s_le_iff: "s \<in> ascii \<Longrightarrow> t \<in> ascii \<Longrightarrow> strcmp_s s t \<le> 0 \<longleftrightarrow> s \<le> t"
proof (induction s t rule: strcmp_s.induct)
  case (2 y ys)
  then have "sint (0 - y) \<le> 0"
    by (subst sint_sub_ascii_le) (simp_all add: ascii_def)
  then show ?case by simp
next
  case (3 x xs)
  then have "\<not> sint (x - 0) \<le> 0"
    by (subst sint_sub_ascii_le) (simp_all add: ascii_def)
  then show ?case by simp
next
  case (4 x xs y ys)
  then have xy: "x < 128" "y < 128" and tl: "xs \<in> ascii" "ys \<in> ascii"
    by (simp_all add: ascii_def)
  show ?case
  proof (cases "x = y")
    case True
    with 4 tl show ?thesis by simp
  next
    case False
    with sint_sub_ascii_le [OF xy] show ?thesis by (simp add: less_le)
  qed
qed simp

interpretation strcmp_order: qsort_order strcmp_s ascii
  by unfold_locales (auto simp: strcmp_s_le_iff)

lemma memcmp_eq_0: "memcmp m p q n = 0 \<longleftrightarrow> bytes_at m p n = bytes_at m q n"
  by (induction n arbitrary: p q) (auto simp: Let_def intro: word_uint_eqI)

subsection \<open>Searches\<close>

lemma strchr_cstr:
  "cstr m p s \<Longrightarrow> strchr m p c =
     Some (if c = 0 then Some (p + length s)
           else if c \<in> set s then Some (p + length (takeWhile (\<lambda>x. x \<noteq> c) s)) else None)"
  by (induction s arbitrary: p) (subst strchr.simps; auto)+

lemma accepts_cstr: "cstr m a d \<Longrightarrow> accepts m c a = Some (c \<in> set d)"
  by (induction d arbitrary: a) (subst accepts.simps; auto)+

lemma strpbrk_cstr:
  "cstr m p s \<Longrightarrow> cstr m ct d \<Longrightarrow> strpbrk m p ct =
     Some (if \<exists>c \<in> set s. c \<in> set d then Some (p + length (takeWhile (\<lambda>x. x \<notin> set d) s)) else None)"
  by (induction s arbitrary: p) (subst strpbrk.simps; auto simp: accepts_cstr)+

lemma strspn_loop_cstr:
  "cstr m p s \<Longrightarrow> cstr m ct d \<Longrightarrow>
     strspn_loop m p ct n = Some (n + length (takeWhile (\<lambda>x. x \<in> set d) s))"
  by (induction s arbitrary: p n) (subst strspn_loop.simps; auto simp: accepts_cstr)+

lemma strspn_cstr: "cstr m p s \<Longrightarrow> cstr m ct d \<Longrightarrow> strspn m p ct = Some (length (takeWhile (\<lambda>x. x \<in> set d) s))"
  by (simp add: strspn_def strspn_loop_cstr)

lemma cstr_cut:
  assumes "cstr m p s" "k < length s"
  shows "cstr (m(p + k := 0)) p (take k s)" "cstr (m(p + k := 0)) (p + k + 1) (drop (k + 1) s)"
proof -
  have "bytes_at m p k = take k s"
    using assms take_bytes_at [of k m p "length s"] by (simp add: cstr_iff)
  then show "cstr (m(p + k := 0)) p (take k s)"
    using assms by (auto simp: cstr_iff dest: in_set_takeD)
  have "cstr m (p + k + 1) (drop (k + 1) s)"
    using cstr_drop [OF assms(1), of "k + 1"] assms(2) by (simp add: add.assoc)
  then show "cstr (m(p + k := 0)) (p + k + 1) (drop (k + 1) s)"
    by (rule cstr_frame) auto
qed

lemma takeWhile_length_less: "\<exists>c \<in> set s. \<not> P c \<Longrightarrow> length (takeWhile P s) < length s"
  by (induction s) auto

lemma strsep_cstr:
  assumes "cstr m p s" "cstr m ct d"
  shows "(\<exists>c \<in> set s. c \<in> set d) \<Longrightarrow>
           \<exists>q m'. strsep m (Some p) ct = Some (Some p, Some q, m') \<and>
             cstr m' p (takeWhile (\<lambda>x. x \<notin> set d) s) \<and> cstr m' q (tl (dropWhile (\<lambda>x. x \<notin> set d) s))"
    and "\<not> (\<exists>c \<in> set s. c \<in> set d) \<Longrightarrow> strsep m (Some p) ct = Some (Some p, None, m)"
proof -
  let ?k = "length (takeWhile (\<lambda>x. x \<notin> set d) s)"
  assume hit: "\<exists>c \<in> set s. c \<in> set d"
  then have k: "?k < length s" by (intro takeWhile_length_less) auto
  have "takeWhile (\<lambda>x. x \<notin> set d) s = take ?k s"
    by (rule takeWhile_eq_take)
  moreover have "tl (dropWhile (\<lambda>x. x \<notin> set d) s) = drop (?k + 1) s"
    by (simp add: dropWhile_eq_drop tl_drop drop_Suc)
  ultimately show "\<exists>q m'. strsep m (Some p) ct = Some (Some p, Some q, m') \<and>
      cstr m' p (takeWhile (\<lambda>x. x \<notin> set d) s) \<and> cstr m' q (tl (dropWhile (\<lambda>x. x \<notin> set d) s))"
    using cstr_cut [OF assms(1) k] strpbrk_cstr [OF assms] hit
    by (auto simp: strsep_def)
qed (use strpbrk_cstr [OF assms] in \<open>auto simp: strsep_def\<close>)

lemma strstr_loop_find:
  assumes "0 < n"
  shows "l \<le> length s \<Longrightarrow> bytes_at m p l = s \<Longrightarrow> length s = l \<Longrightarrow> bytes_at m q n = t \<Longrightarrow>
    strstr_loop m p q l n =
      map_option (\<lambda>i. p + i) (find (\<lambda>i. take n (drop i s) = t) [0..<l + 1 - n])"
proof (induction l arbitrary: p s)
  case 0
  with assms show ?case by (subst strstr_loop.simps) simp
next
  case (Suc l)
  have hd: "memcmp m p q n = 0 \<longleftrightarrow> take n s = t" if "n \<le> Suc l"
    using that Suc.prems(2,4) by (auto simp: memcmp_eq_0 min_absorb1 simp del: bytes_at_simps(2))
  obtain c s' where s: "s = c # s'" "bytes_at m (Suc p) l = s'" "length s' = l"
    using Suc.prems(2) by (metis bytes_at_simps(2,3))
  have IH: "strstr_loop m (Suc p) q l n = map_option (\<lambda>i. Suc p + i)
      (find (\<lambda>i. take n (drop i s') = t) [0..<l + 1 - n])"
    using Suc.IH [of s' "Suc p"] s Suc.prems(4) by simp
  show ?case
  proof (cases "n \<le> Suc l")
    case True
    have "[0..<Suc l + 1 - n] = 0 # map Suc [0..<l + 1 - n]"
      using True by (simp add: upt_conv_Cons map_Suc_upt Suc_diff_le del: upt_Suc)
    then have "find (\<lambda>i. take n (drop i s) = t) [0..<Suc l + 1 - n] =
        (if take n s = t then Some 0
         else map_option Suc (find (\<lambda>i. take n (drop i s') = t) [0..<l + 1 - n]))"
      by (simp add: s(1) find_map_comp comp_def del: upt_Suc)
    with True assms hd IH show ?thesis
      by (subst strstr_loop.simps) (auto simp: option.map_comp comp_def simp del: upt_Suc)
  next
    case False
    then show ?thesis by (subst strstr_loop.simps) simp
  qed
qed

text \<open>\<open>strstr\<close> returns the first place where the pattern occurs.\<close>

lemma strstr_cstr:
  assumes "cstr m p s" "cstr m q t"
  shows "strstr m p q =
    Some (map_option (\<lambda>i. p + i) (find (\<lambda>i. take (length t) (drop i s) = t) [0..<length s + 1 - length t]))"
proof (cases "t = []")
  case True
  then show ?thesis
    using strlen_cstr [OF assms(2)] by (simp add: strstr_def upt_conv_Cons del: upt_Suc)
next
  case False
  have "strstr_loop m p q (length s) (length t) =
      map_option (\<lambda>i. p + i) (find (\<lambda>i. take (length t) (drop i s) = t) [0..<length s + 1 - length t])"
    using False assms by (intro strstr_loop_find) (auto simp: cstr_iff)
  with False assms show ?thesis by (simp add: strstr_def)
qed

subsection \<open>Trimming\<close>

lemma skip_spaces_cstr:
  "cstr m p s \<Longrightarrow> skip_spaces m p = Some (p + length (takeWhile isspace s))"
  by (induction s arbitrary: p) (subst skip_spaces.simps; auto)+

lemma strim_end_eq:
  "strim_end m p n = length (rev (dropWhile isspace (rev (bytes_at m p n))))"
proof (induction n)
  case (Suc n)
  have "bytes_at m p (Suc n) = bytes_at m p n @ [m (p + n)]"
    using bytes_at_append [of m p n 1] by simp
  with Suc show ?case by (simp del: bytes_at_simps(2))
qed simp

definition trim :: "bytes \<Rightarrow> bytes" where
  "trim s = rev (dropWhile isspace (rev (dropWhile isspace s)))"

lemma strim_cstr:
  assumes "cstr m p s"
  shows "\<exists>q m'. strim m p = Some (q, m') \<and> cstr m' q (trim s)"
proof -
  let ?k = "length (takeWhile isspace s)"
  let ?t = "dropWhile isspace s"
  have t: "cstr m (p + ?k) ?t"
    using cstr_drop [OF assms, of ?k] by (simp add: dropWhile_eq_drop length_takeWhile_le)
  let ?e = "length (trim s)"
  have e: "strim_end m (p + ?k) (length ?t) = ?e"
    using t by (simp add: strim_end_eq trim_def cstr_iff)
  have "trim s = take ?e ?t"
    by (metis append_eq_conv_conj rev_append rev_rev_ident takeWhile_dropWhile_id trim_def)
  moreover have "?e \<le> length ?t"
    by (simp add: trim_def length_dropWhile_le [THEN order_trans])
  ultimately have "cstr (m(p + ?k + ?e := 0)) (p + ?k) (trim s)"
    using t cstr_cut(1) [OF t, of ?e] by (cases "?e = length ?t") (auto simp: cstr_iff)
  moreover have "cstr m (p + ?k) (trim s)" if "?t = []"
  proof -
    have "trim s = []" by (simp only: trim_def that) simp
    with t that show ?thesis by (simp only:)
  qed
  ultimately show ?thesis
    using strlen_cstr [OF t] e by (simp add: strim_def skip_spaces_cstr [OF assms])
qed

subsection \<open>Properties\<close>

text \<open>
  \<open>memmove\<close> copies correctly whether or not source and destination overlap: afterwards the
  destination holds what the source held before, and no other byte has changed.
\<close>

theorem memmove_correct: "memmove m dest src n = store m dest (bytes_at m src n)"
  by (rule memmove_store)

text \<open>
  \<open>memcpy\<close>, which copies word by word when both addresses are aligned, agrees with \<open>memmove\<close>
  whenever the areas are the same or do not overlap.
\<close>

theorem memcpy_is_memmove:
  assumes "dest + n \<le> src \<or> src + n \<le> dest \<or> src = dest"
  shows "memcpy m dest src n = memmove m dest src n"
  using memcpy_store [OF assms] by (simp add: memmove_store)

theorem memcpy_is_memmove_witness: "memcpy (\<lambda>a. word_of_nat a) 100 0 6 = memmove (\<lambda>a. word_of_nat a) 100 0 6"
  by (rule memcpy_is_memmove) simp

text \<open>
  \<open>memset\<close>, which fills word by word from an aligned address, stores the low byte of its argument
  in each of the \<open>n\<close> bytes and changes no other byte.
\<close>

theorem memset_correct: "memset m p c n = store m p (replicate n (ucast c))"
  by (rule memset_store)

text \<open>
  On two zero-terminated strings \<open>strcmp\<close> returns, its result is zero exactly for equal strings,
  and for strings of bytes below 128 it is not positive exactly when the first string comes first in
  the lexicographic order.
\<close>

theorem strcmp_order_ascii:
  assumes "cstr m p s" "cstr m q t"
  shows "\<exists>r. strcmp m p q = Some r \<and> (r = 0 \<longleftrightarrow> s = t) \<and> (s \<in> ascii \<and> t \<in> ascii \<longrightarrow> (r \<le> 0 \<longleftrightarrow> s \<le> t))"
  using strcmp_cstr [OF assms] strcmp_s_eq_0 [OF cstr_NUL_free [OF assms(1)] cstr_NUL_free [OF assms(2)]]
    strcmp_s_le_iff by auto

definition demo_mem :: mem where
  "demo_mem = store (store (\<lambda>_. 0) 10 (bs ''a=b;c'')) 20 (bs '';c'')"

lemma demo_cstr: "cstr demo_mem 10 (bs ''a=b;c'')" "cstr demo_mem 20 (bs '';c'')"
  by (simp_all add: demo_mem_def store_def of_char_def)

theorem strcmp_order_ascii_witness: "\<exists>r. strcmp demo_mem 10 20 = Some r \<and> r \<noteq> 0"
  using strcmp_order_ascii [OF demo_cstr] by (auto simp: of_char_def)

text \<open>
  \<open>strstr\<close> returns the address of the first occurrence of the second string in the first, or null
  when there is none.
\<close>

theorem strstr_first:
  assumes "cstr m p s" "cstr m q t"
  shows "strstr m p q =
    Some (map_option (\<lambda>i. p + i) (find (\<lambda>i. take (length t) (drop i s) = t) [0..<length s + 1 - length t]))"
  using assms by (rule strstr_cstr)

theorem strstr_first_witness: "strstr demo_mem 10 20 = Some (Some 13)"
  using strstr_first [OF demo_cstr] by (simp add: of_char_def upt_rec)

text \<open>
  \<open>strsep\<close> on a string that holds a separator cuts it there: the token is the part before the first
  separator, and the rest is the string after it; without a separator the whole string is the token
  and there is no rest.
\<close>

theorem strsep_splits:
  assumes "cstr m p s" "cstr m ct d"
  shows "if \<exists>c \<in> set s. c \<in> set d
    then \<exists>q m'. strsep m (Some p) ct = Some (Some p, Some q, m') \<and>
      cstr m' p (takeWhile (\<lambda>x. x \<notin> set d) s) \<and> cstr m' q (tl (dropWhile (\<lambda>x. x \<notin> set d) s))
    else strsep m (Some p) ct = Some (Some p, None, m)"
  using strsep_cstr [OF assms] by simp

theorem strsep_splits_witness:
  "\<exists>q m'. strsep demo_mem (Some 10) 20 = Some (Some 10, Some q, m') \<and> cstr m' 10 (bs ''a=b'') \<and> cstr m' q (bs ''c'')"
proof -
  have hit: "\<exists>c \<in> set (bs ''a=b;c''). c \<in> set (bs '';c'')"
    by (rule bexI [of _ 59]) (simp_all add: of_char_def)
  have cut: "takeWhile (\<lambda>x. x \<notin> set (bs '';c'')) (bs ''a=b;c'') = bs ''a=b''"
    "tl (dropWhile (\<lambda>x. x \<notin> set (bs '';c'')) (bs ''a=b;c'')) = bs ''c''"
    by (simp_all add: of_char_def)
  show ?thesis using strsep_splits [OF demo_cstr] unfolding if_P [OF hit] cut .
qed

text \<open>
  \<open>strim\<close> returns, and what it returns is the string without the white space at both ends.
\<close>

theorem strim_trims:
  assumes "cstr m p s"
  shows "\<exists>q m'. strim m p = Some (q, m') \<and> cstr m' q (trim s)"
  using assms by (rule strim_cstr)

theorem strim_trims_witness: "\<exists>q m'. strim demo_mem 10 = Some (q, m') \<and> cstr m' q (trim (bs ''a=b;c''))"
  by (rule strim_trims) (rule demo_cstr)

text \<open>
  \<open>strlcpy\<close> into a buffer of \<open>n\<close> bytes returns the length of the source, leaves a terminated string
  that is the source cut to \<open>n - 1\<close> bytes, and writes nothing outside the buffer.
\<close>

theorem strlcpy_bounded:
  assumes "cstr m src s" "0 < n" "dest + n \<le> src \<or> src + length s < dest"
  shows "\<exists>m'. strlcpy m dest src n = Some (length s, m') \<and> cstr m' dest (take (n - 1) s) \<and>
    (\<forall>q. q < dest \<or> dest + n \<le> q \<longrightarrow> m' q = m q)"
  using assms by (rule strlcpy_cstr)

theorem strlcpy_bounded_witness:
  "\<exists>m'. strlcpy demo_mem 40 10 3 = Some (5, m') \<and> cstr m' 40 (bs ''a='')"
  using strlcpy_bounded [OF demo_cstr(1), of 3 40] by auto

text \<open>
  The Shell sort with \<open>strcmp\<close> as comparison returns, for any number of strings of bytes below 128,
  a sorted permutation of its input; no access leaves the array.
\<close>

theorem qsort_strings:
  assumes "0 < width" "set xs \<subseteq> ascii"
  shows "\<exists>ys. qsort strcmp_s (length xs) width xs = Some ys \<and> mset ys = mset xs \<and> sorted ys"
proof -
  obtain ys where ys: "qsort strcmp_s (length xs) width xs = Some ys" "mset ys = mset xs"
    "sorted_wrt (\<lambda>x y. strcmp_s x y \<le> 0) ys"
    using strcmp_order.qsort_sorts [OF assms] by blast
  then have sub: "set ys \<subseteq> ascii" using assms(2) by (metis set_mset_mset)
  have "sorted_wrt (\<le>) ys"
    using ys(3) by (rule sorted_wrt_mono_rel [rotated]) (use sub strcmp_s_le_iff in blast)
  with ys(1,2) show ?thesis by (auto simp: sorted_wrt_iff_nth_less sorted_iff_nth_mono_less)
qed

theorem qsort_strings_witness:
  "\<exists>ys. qsort strcmp_s (length [bs ''b'', bs ''c'', bs ''a'']) 4 [bs ''b'', bs ''c'', bs ''a''] = Some ys \<and> sorted ys"
  using qsort_strings [of 4 "[bs ''b'', bs ''c'', bs ''a'']"] by (auto simp: ascii_def of_char_def)

text \<open>
  The comparison of \<open>strcmp\<close> is not transitive on bytes above 127: the difference of two bytes is cut to
  a \<open>signed char\<close>.
\<close>

theorem strcmp_not_transitive:
  "strcmp_s [0x01] [0x70] \<le> 0 \<and> strcmp_s [0x70] [0xE0] \<le> 0 \<and> \<not> strcmp_s [0x01] [0xE0] \<le> 0"
  by simp

end
