(* ===== verification/Hashtable.thy ===== *)
theory Hashtable
  imports Cstring
begin

text \<open>
  The open-addressing hash table of \<open>lib/hashtable.c\<close> that holds the boot loader's environment.
  A slot keeps the first hash value of its key in \<open>used\<close> (0 free, -1 deleted); \<open>NULL\<close> pointers
  for \<open>key\<close> and \<open>data\<close> are \<open>None\<close>. \<open>malloc\<close> is an argument that says whether a request of
  some number of bytes succeeds: within one call, two requests of the same size have the same fate. The
  tests of \<open>htab\<close> for a null pointer (\<open>EINVAL\<close>) are left out, since a table is an argument here and every
  caller passes the address of the one \<open>env_htab\<close>. A result \<open>None\<close> of an operation is a dereference of a null
  pointer, an access outside an array, or a loop that does not end.
\<close>

datatype ACTION = FIND | ENTER

datatype herrno = EINVAL | ENOMEM | ESRCH

record hslot =
  used :: int
  key :: "bytes option"
  data :: "bytes option"

record hsearch_data =
  ht_table :: "hslot list option"
  ht_size :: nat
  ht_filled :: nat

text \<open>What a call returns: the return value, the slot \<open>*retval\<close> points to, and \<open>errno\<close>.\<close>

record hres =
  ret :: nat
  retval :: "nat option"
  errno :: "herrno option"

abbreviation hfail :: "herrno \<Rightarrow> hres" where
  "hfail e \<equiv> \<lparr>ret = 0, retval = None, errno = Some e\<rparr>"

abbreviation hfound :: "nat \<Rightarrow> nat \<Rightarrow> hres" where
  "hfound r i \<equiv> \<lparr>ret = r, retval = Some i, errno = None\<rparr>"

subsection \<open>String values\<close>

definition strdup_s :: "(nat \<Rightarrow> bool) \<Rightarrow> bytes option \<Rightarrow> bytes option" where
  "strdup_s malloc s =
     (case s of None \<Rightarrow> None | Some x \<Rightarrow> if malloc (length x + 1) then Some x else None)"

fun chr0 :: "bytes \<Rightarrow> u8" where
  "chr0 [] = 0"
| "chr0 (c # cs) = c"

fun strncmp_s :: "bytes \<Rightarrow> bytes \<Rightarrow> nat \<Rightarrow> int" where
  "strncmp_s cs ct 0 = 0"
| "strncmp_s cs ct (Suc n) =
     (let res = chr0 cs - chr0 ct
      in if res \<noteq> 0 \<or> chr0 cs = 0 then sint res else strncmp_s (tl cs) (tl ct) n)"

definition strstr_s :: "bytes \<Rightarrow> bytes \<Rightarrow> bool" where
  "strstr_s s t \<longleftrightarrow> find (\<lambda>i. take (length t) (drop i s) = t) [0..<length s + 1 - length t] \<noteq> None"

subsection \<open>Table sizes\<close>

partial_function (option) isprime_loop :: "nat \<Rightarrow> nat \<Rightarrow> nat option" where
  "isprime_loop number dv =
     (if dv * dv mod 2 ^ 32 < number \<and> number mod dv \<noteq> 0
      then isprime_loop number ((dv + 2) mod 2 ^ 32)
      else Some dv)"

definition isprime :: "nat \<Rightarrow> bool option" where
  "isprime number =
     (case isprime_loop number 3 of None \<Rightarrow> None | Some dv \<Rightarrow> Some (number mod dv \<noteq> 0))"

partial_function (option) next_prime :: "nat \<Rightarrow> nat option" where
  "next_prime nel =
     Option.bind (isprime nel)
       (\<lambda>p. if p then Some nel else next_prime ((nel + 2) mod 2 ^ 32))"

definition empty_slot :: hslot where
  "empty_slot = \<lparr>used = 0, key = None, data = None\<rparr>"

text \<open>\<open>hcreate_r\<close> returns its \<open>int\<close> result; \<open>sizeof(_ENTRY)\<close> is 12 on the 32-bit target.\<close>

definition hcreate_r :: "(nat \<Rightarrow> bool) \<Rightarrow> nat \<Rightarrow> hsearch_data \<Rightarrow> (nat \<times> hsearch_data) option" where
  "hcreate_r malloc nel htab =
     (if ht_table htab \<noteq> None then Some (0, htab)
      else case next_prime (nel OR 1) of
        None \<Rightarrow> None
      | Some n \<Rightarrow>
          let htab' = htab\<lparr>ht_size := n, ht_filled := 0\<rparr>
          in if malloc ((n + 1) * 12)
             then Some (1, htab'\<lparr>ht_table := Some (replicate (n + 1) empty_slot)\<rparr>)
             else Some (0, htab'))"

definition hdestroy_r :: "hsearch_data \<Rightarrow> hsearch_data" where
  "hdestroy_r htab = htab\<lparr>ht_table := None\<rparr>"

subsection \<open>Search by pattern\<close>

function hscan :: "(hslot \<Rightarrow> bool option) \<Rightarrow> hslot list \<Rightarrow> nat \<Rightarrow> nat \<Rightarrow> nat option option" where
  "hscan P t n idx =
     (if n \<le> idx then Some None
      else case rd t idx of
        None \<Rightarrow> None
      | Some e \<Rightarrow>
          if used e \<le> 0 then hscan P t n (idx + 1)
          else (case P e of
                  None \<Rightarrow> None
                | Some True \<Rightarrow> Some (Some idx)
                | Some False \<Rightarrow> hscan P t n (idx + 1)))"
  by pat_completeness auto
termination by (relation "measure (\<lambda>(P, t, n, idx). n - idx)") auto

declare hscan.simps [simp del]

definition hstrstr_r :: "bytes \<Rightarrow> nat \<Rightarrow> hsearch_data \<Rightarrow> hres option" where
  "hstrstr_r match last_idx htab =
     (case ht_table htab of
        None \<Rightarrow> None
      | Some t \<Rightarrow>
          (case hscan (\<lambda>e. case key e of
                             None \<Rightarrow> None
                           | Some k \<Rightarrow> if strstr_s k match then Some True
                                       else map_option (\<lambda>d. strstr_s d match) (data e))
                  t (ht_size htab) (last_idx + 1) of
             None \<Rightarrow> None
           | Some (Some i) \<Rightarrow> Some (hfound i i)
           | Some None \<Rightarrow> Some (hfail ESRCH)))"

definition hmatch_r :: "bytes \<Rightarrow> nat \<Rightarrow> hsearch_data \<Rightarrow> hres option" where
  "hmatch_r match last_idx htab =
     (case ht_table htab of
        None \<Rightarrow> None
      | Some t \<Rightarrow>
          (case hscan (\<lambda>e. map_option (\<lambda>k. strncmp_s match k (length match) = 0) (key e))
                  t (ht_size htab) (last_idx + 1) of
             None \<Rightarrow> None
           | Some (Some i) \<Rightarrow> Some (hfound i i)
           | Some None \<Rightarrow> Some (hfail ESRCH)))"

subsection \<open>Search, insertion, deletion\<close>

text \<open>The loop over \<open>count\<close> runs from the last character to the first.\<close>

definition hash :: "bytes \<Rightarrow> u32" where
  "hash k = foldr (\<lambda>c hval. push_bit 4 hval + ucast c) k (word_of_nat (length k))"

definition hfirst :: "nat \<Rightarrow> bytes \<Rightarrow> nat" where
  "hfirst sz k = (let hval = unat (hash k) mod sz in if hval = 0 then 1 else hval)"

definition hsecond :: "nat \<Rightarrow> nat \<Rightarrow> nat" where
  "hsecond sz hval = 1 + hval mod (if sz < 2 then sz + 2 ^ 32 - 2 else sz - 2)"

definition hstep :: "nat \<Rightarrow> nat \<Rightarrow> nat \<Rightarrow> nat" where
  "hstep sz hval2 idx = (if idx \<le> hval2 then sz + idx - hval2 else idx - hval2)"

text \<open>
  \<open>None\<close>: a null key is compared. The comparison with \<open>used\<close> comes first, as in the source.
\<close>

definition hkey_eq :: "nat \<Rightarrow> bytes \<Rightarrow> hslot \<Rightarrow> bool option" where
  "hkey_eq hval k e =
     (if used e = int hval
      then (case key e of None \<Rightarrow> None | Some k' \<Rightarrow> Some (strcmp_s k k' = 0))
      else Some False)"

text \<open>
  The \<open>do\<close> loop of \<open>hsearch_r\<close>: it stops at a slot with the key (\<open>Hit\<close>), at a free slot
  (\<open>Free\<close>) or when it is back at the first slot (\<open>Wrapped\<close>). The first argument bounds the
  number of steps; \<open>hsearch_r\<close> passes the table size, which is enough (\<open>hprobe_find\<close>).
\<close>

datatype hprobe_result = Hit nat | Free nat | Wrapped

fun hprobe :: "nat \<Rightarrow> hslot list \<Rightarrow> nat \<Rightarrow> nat \<Rightarrow> nat \<Rightarrow> bytes \<Rightarrow> nat \<Rightarrow> hprobe_result option" where
  "hprobe 0 t sz hval hval2 k idx = None"
| "hprobe (Suc n) t sz hval hval2 k idx =
     (let idx' = hstep sz hval2 idx in
      if idx' = hval then Some Wrapped
      else case rd t idx' of
        None \<Rightarrow> None
      | Some e \<Rightarrow>
          (case hkey_eq hval k e of
             None \<Rightarrow> None
           | Some True \<Rightarrow> Some (Hit idx')
           | Some False \<Rightarrow>
               if used e \<noteq> 0 then hprobe n t sz hval hval2 k idx' else Some (Free idx')))"

definition hoverwrite ::
  "(nat \<Rightarrow> bool) \<Rightarrow> ACTION \<Rightarrow> bytes option \<Rightarrow> hsearch_data \<Rightarrow> hslot list \<Rightarrow> nat \<Rightarrow> hres \<times> hsearch_data" where
  "hoverwrite malloc action dat htab t idx =
     (if action = ENTER \<and> dat \<noteq> None
      then let d = strdup_s malloc dat;
               htab' = htab\<lparr>ht_table := Some (t[idx := (t ! idx)\<lparr>data := d\<rparr>])\<rparr>
           in if d = None then (hfail ENOMEM, htab') else (hfound idx idx, htab')
      else (hfound idx idx, htab))"

definition henter ::
  "(nat \<Rightarrow> bool) \<Rightarrow> bytes \<Rightarrow> bytes option \<Rightarrow> ACTION \<Rightarrow> hsearch_data \<Rightarrow> hslot list \<Rightarrow> nat \<Rightarrow> nat \<Rightarrow> nat
     \<Rightarrow> hres \<times> hsearch_data" where
  "henter malloc k dat action htab t hval idx first_deleted =
     (if action = ENTER
      then if ht_filled htab = ht_size htab then (hfail ENOMEM, htab)
           else let i = (if first_deleted \<noteq> 0 then first_deleted else idx);
                    k' = strdup_s malloc (Some k); d' = strdup_s malloc dat;
                    htab' = htab\<lparr>ht_table := Some (t[i := \<lparr>used = int hval, key = k', data = d'\<rparr>])\<rparr>
                in if k' = None \<or> d' = None then (hfail ENOMEM, htab')
                   else (hfound 1 i, htab'\<lparr>ht_filled := ht_filled htab + 1\<rparr>)
      else (hfail ESRCH, htab))"

definition hsearch_r ::
  "(nat \<Rightarrow> bool) \<Rightarrow> bytes \<Rightarrow> bytes option \<Rightarrow> ACTION \<Rightarrow> hsearch_data \<Rightarrow> (hres \<times> hsearch_data) option" where
  "hsearch_r malloc k dat action htab =
     (case ht_table htab of
        None \<Rightarrow> None
      | Some t \<Rightarrow>
          let sz = ht_size htab; hval = hfirst sz k in
          case rd t hval of
            None \<Rightarrow> None
          | Some e \<Rightarrow>
              if used e \<noteq> 0
              then let first_deleted = (if used e = -1 then hval else 0) in
                   (case hkey_eq hval k e of
                      None \<Rightarrow> None
                    | Some True \<Rightarrow> Some (hoverwrite malloc action dat htab t hval)
                    | Some False \<Rightarrow>
                        (case hprobe sz t sz hval (hsecond sz hval) k hval of
                           None \<Rightarrow> None
                         | Some (Hit i) \<Rightarrow> Some (hoverwrite malloc action dat htab t i)
                         | Some (Free i) \<Rightarrow> Some (henter malloc k dat action htab t hval i first_deleted)
                         | Some Wrapped \<Rightarrow> Some (henter malloc k dat action htab t hval hval first_deleted)))
              else Some (henter malloc k dat action htab t hval hval 0))"

definition hdelete_r :: "bytes \<Rightarrow> hsearch_data \<Rightarrow> (hres \<times> hsearch_data) option" where
  "hdelete_r k htab =
     (case hsearch_r (\<lambda>_. True) k None FIND htab of
        None \<Rightarrow> None
      | Some (r, htab1) \<Rightarrow>
          if ret r = 0 then Some (hfail ESRCH, htab1)
          else (case ht_table htab1 of
                  None \<Rightarrow> None
                | Some t \<Rightarrow>
                    Some (\<lparr>ret = 1, retval = None, errno = None\<rparr>,
                      htab1\<lparr>ht_table := Some (t[ret r := (t ! ret r)\<lparr>used := -1\<rparr>]),
                            ht_filled := ht_filled htab1 - 1\<rparr>)))"

subsection \<open>Export\<close>

definition cmpkey :: "bytes \<times> bytes \<Rightarrow> bytes \<times> bytes \<Rightarrow> int" where
  "cmpkey e1 e2 = strcmp_s (fst e1) (fst e2)"

text \<open>Pass 1: the used entries, in slot order, that are named in \<open>argv\<close> (all when it is empty).\<close>

fun hexport_list :: "bytes list \<Rightarrow> hslot list \<Rightarrow> (bytes \<times> bytes) list option" where
  "hexport_list argv [] = Some []"
| "hexport_list argv (e # t) =
     (if used e > 0
      then (case key e of
              None \<Rightarrow> None
            | Some k \<Rightarrow>
                if argv \<noteq> [] \<and> \<not> (\<exists>a \<in> set argv. strcmp_s a k = 0) then hexport_list argv t
                else (case data e of
                        None \<Rightarrow> None
                      | Some d \<Rightarrow> map_option (\<lambda>l. (k, d) # l) (hexport_list argv t)))
      else hexport_list argv t)"

definition escape :: "u8 \<Rightarrow> bytes \<Rightarrow> bytes" where
  "escape sep d = concat (map (\<lambda>c. if c = sep \<or> c = 92 then [92, c] else [c]) d)"

definition hexport_len :: "u8 \<Rightarrow> bytes \<times> bytes \<Rightarrow> nat" where
  "hexport_len sep e =
     length (fst e) + 2 + (if sep = 0 then length (snd e) else length (escape sep (snd e))) + 2"

definition hexport_entry :: "u8 \<Rightarrow> bytes \<times> bytes \<Rightarrow> bytes" where
  "hexport_entry sep e = fst e @ [61] @ escape sep (snd e) @ [sep]"

text \<open>
  The result is an error value, or the buffer's new contents. \<open>Overflow\<close> stands for pass 2
  writing past the end of the buffer.
\<close>

datatype hexport_error = TooSmall | NoMemory | Overflow

definition hexport_r ::
  "(nat \<Rightarrow> bool) \<Rightarrow> hsearch_data \<Rightarrow> u8 \<Rightarrow> bool \<Rightarrow> nat \<Rightarrow> bytes list \<Rightarrow> (hexport_error + bytes) option" where
  "hexport_r malloc htab sep resp sz argv =
     (case ht_table htab of
        None \<Rightarrow> None
      | Some t \<Rightarrow>
          (case hexport_list argv (tl t) of
             None \<Rightarrow> None
           | Some l \<Rightarrow>
               let totlen = sum_list (map (hexport_len sep) l) in
               (case qsort cmpkey (length l) 4 l of
                  None \<Rightarrow> None
                | Some sorted_l \<Rightarrow>
                    if sz \<noteq> 0 \<and> sz < totlen + 1 then Some (Inl TooSmall)
                    else let n = (if sz \<noteq> 0 then sz else totlen + 1) in
                         if \<not> resp \<and> \<not> malloc n then Some (Inl NoMemory)
                         else let out = concat (map (hexport_entry sep) sorted_l) @ [0] in
                              if n < length out then Some (Inl Overflow)
                              else Some (Inr (out @ replicate (n - length out) 0)))))"

subsection \<open>Import\<close>

text \<open>
  The parser walks a private copy of the input; here it consumes the list of the bytes from
  \<open>dp\<close> to the end of the copy. Its writes (string terminators and unescaped values) go to
  bytes it has already passed, so they show only in the strings it extracts. Reading past the
  end of the copy is \<open>None\<close>.
\<close>

fun skip_blank :: "bytes \<Rightarrow> bytes option" where
  "skip_blank [] = None"
| "skip_blank (c # cs) = (if isblank c then skip_blank cs else Some (c # cs))"

fun skip_comment :: "u8 \<Rightarrow> bytes \<Rightarrow> bytes option" where
  "skip_comment sep [] = None"
| "skip_comment sep (c # cs) = (if c \<noteq> 0 \<and> c \<noteq> sep then skip_comment sep cs else Some cs)"

fun parse_name :: "u8 \<Rightarrow> bytes \<Rightarrow> (bytes \<times> bytes) option" where
  "parse_name sep [] = None"
| "parse_name sep (c # cs) =
     (if c \<noteq> 61 \<and> c \<noteq> 0 \<and> c \<noteq> sep then map_option (\<lambda>(n, r). (c # n, r)) (parse_name sep cs)
      else Some ([], c # cs))"

fun parse_value :: "u8 \<Rightarrow> bytes \<Rightarrow> (bytes \<times> bytes) option" where
  "parse_value sep [] = None"
| "parse_value sep (c # cs) =
     (if c = 0 \<or> c = sep then Some ([], cs)
      else if c = 92
      then (case cs of
              [] \<Rightarrow> None
            | d # ds \<Rightarrow> if d \<noteq> 0 then map_option (\<lambda>(v, r). (d # v, r)) (parse_value sep ds)
                        else map_option (\<lambda>(v, r). (c # v, r)) (parse_value sep cs))
      else map_option (\<lambda>(v, r). (c # v, r)) (parse_value sep cs))"

datatype himport_item = Comment | Delete bytes | Assign bytes bytes

text \<open>One round of the loop up to the table operation: what was read, and where it ends.\<close>

definition himport_parse :: "u8 \<Rightarrow> bytes \<Rightarrow> (himport_item \<times> bytes) option" where
  "himport_parse sep dp =
     (case skip_blank dp of
        None \<Rightarrow> None
      | Some dp1 \<Rightarrow>
          if hd dp1 = 35 then map_option (\<lambda>r. (Comment, r)) (skip_comment sep dp1)
          else (case parse_name sep dp1 of
                  None \<Rightarrow> None
                | Some (name, rest) \<Rightarrow>
                    if hd rest = 0 then Some (Delete name, tl rest)
                    else (case tl rest of
                            [] \<Rightarrow> None
                          | d # ds \<Rightarrow>
                              if d = 0 \<or> hd rest = sep \<or> d = sep
                              then Some (Delete name, if hd rest = 61 then ds else d # ds)
                              else map_option (\<lambda>(v, r). (Assign name v, r)) (parse_value sep (d # ds)))))"

lemma skip_blank_length: "skip_blank cs = Some r \<Longrightarrow> length r \<le> length cs \<and> r \<noteq> []"
  by (induction cs) (auto split: if_splits)

lemma skip_comment_length: "skip_comment sep cs = Some r \<Longrightarrow> length r < length cs"
  by (induction cs) (auto split: if_splits)

lemma parse_name_length: "parse_name sep cs = Some (n, r) \<Longrightarrow> length r \<le> length cs \<and> r \<noteq> []"
  by (induction cs arbitrary: n r) (auto split: if_splits)

lemma parse_value_length: "parse_value sep cs = Some (v, r) \<Longrightarrow> length r < length cs"
  by (induction sep cs arbitrary: v r rule: parse_value.induct)
    (auto split: if_splits list.splits, fastforce+)

lemma himport_parse_length: "himport_parse sep dp = Some (i, r) \<Longrightarrow> length r < length dp"
  unfolding himport_parse_def
  by (auto split: option.splits if_splits list.splits
      dest!: skip_blank_length skip_comment_length parse_name_length parse_value_length
      simp: neq_Nil_conv)

function himport_loop :: "(nat \<Rightarrow> bool) \<Rightarrow> u8 \<Rightarrow> bytes \<Rightarrow> hsearch_data \<Rightarrow> (nat \<times> hsearch_data) option" where
  "himport_loop malloc sep dp htab =
     (case himport_parse sep dp of
        None \<Rightarrow> None
      | Some (i, r) \<Rightarrow>
          let next = (\<lambda>htab'. if r \<noteq> [] \<and> hd r \<noteq> 0 then himport_loop malloc sep r htab'
                             else Some (1, htab'))
          in case i of
               Comment \<Rightarrow> next htab
             | Delete name \<Rightarrow>
                 (case hdelete_r name htab of None \<Rightarrow> None | Some (_, htab') \<Rightarrow> next htab')
             | Assign name v \<Rightarrow>
                 (case hsearch_r malloc name (Some v) ENTER htab of
                    None \<Rightarrow> None
                  | Some (rv, htab') \<Rightarrow> if retval rv = None then Some (0, htab') else next htab'))"
  by pat_completeness auto
termination
  by (relation "measure (\<lambda>(malloc, sep, dp, htab). length dp)") (auto dest: himport_parse_length)

declare himport_loop.simps [simp del]

definition himport_entries :: "nat \<Rightarrow> nat" where
  "himport_entries sz = (let nent = 64 + sz div 8 in if nent > 512 then 512 else nent)"

definition himport_r ::
  "(nat \<Rightarrow> bool) \<Rightarrow> hsearch_data \<Rightarrow> bytes \<Rightarrow> u8 \<Rightarrow> bool \<Rightarrow> (nat \<times> hsearch_data) option" where
  "himport_r malloc htab env sep noclear =
     (if \<not> malloc (length env) then Some (0, htab)
      else let htab1 = (if \<not> noclear \<and> ht_table htab \<noteq> None then hdestroy_r htab else htab) in
           (case (if ht_table htab1 = None then hcreate_r malloc (himport_entries (length env)) htab1
                  else Some (1, htab1)) of
              None \<Rightarrow> None
            | Some (r, htab2) \<Rightarrow>
                if r = 0 then Some (0, htab2) else himport_loop malloc sep env htab2))"

end
