(* ===== verification/Hashtable_Inv.thy ===== *)
theory Hashtable_Inv
  imports Hashtable
begin

text \<open>
  The invariant of the environment's hash table and the map it stands for. \<open>table_ok\<close> says that
  the size is prime, that every live slot holds its key's hash value and lies on its key's probe
  path behind slots that were never freed, and that no key is live twice. Under it \<open>hsearch_r\<close>
  and \<open>hdelete_r\<close> are lookup, update and removal on the map \<open>ht_map\<close>.
\<close>

subsection \<open>Prime sizes and probe paths\<close>

definition prime_nat :: "nat \<Rightarrow> bool" where
  "prime_nat p \<longleftrightarrow> 1 < p \<and> (\<forall>d. d dvd p \<longrightarrow> d = 1 \<or> d = p)"

lemma prime_nat_dvd_mult: "prime_nat p \<Longrightarrow> p dvd a * b \<Longrightarrow> p dvd a \<or> p dvd b"
proof -
  assume p: "prime_nat p" and dvd: "p dvd a * b"
  have "p dvd b" if "\<not> p dvd a"
  proof -
    have "gcd p a = 1 \<or> gcd p a = p"
      using p by (simp add: prime_nat_def)
    with that have "coprime p a"
      by (metis coprime_iff_gcd_eq_1 gcd_dvd2)
    with dvd show ?thesis by (simp add: coprime_dvd_mult_right_iff)
  qed
  then show ?thesis by blast
qed

definition hpath :: "nat \<Rightarrow> bytes \<Rightarrow> nat \<Rightarrow> nat" where
  "hpath sz k i = (hstep sz (hsecond sz (hfirst sz k)) ^^ i) (hfirst sz k)"

lemma hpath_0 [simp]: "hpath sz k 0 = hfirst sz k"
  by (simp add: hpath_def)

lemma hpath_Suc: "hpath sz k (Suc i) = hstep sz (hsecond sz (hfirst sz k)) (hpath sz k i)"
  by (simp add: hpath_def)

lemma hfirst_range: "2 \<le> sz \<Longrightarrow> 1 \<le> hfirst sz k \<and> hfirst sz k < sz"
  by (simp add: hfirst_def Let_def)

lemma hsecond_range: "3 \<le> sz \<Longrightarrow> 1 \<le> hsecond sz h \<and> hsecond sz h < sz"
proof -
  assume "3 \<le> sz"
  then have "Suc (h mod (sz - 2)) < sz"
    using mod_less_divisor [of "sz - 2" h] by linarith
  with \<open>3 \<le> sz\<close> show ?thesis by (simp add: hsecond_def)
qed

lemma hstep_range: "1 \<le> h2 \<Longrightarrow> h2 < sz \<Longrightarrow> 1 \<le> x \<Longrightarrow> x \<le> sz \<Longrightarrow> 1 \<le> hstep sz h2 x \<and> hstep sz h2 x \<le> sz"
  by (auto simp: hstep_def)

lemma hstep_mod: "1 \<le> h2 \<Longrightarrow> h2 < sz \<Longrightarrow> (hstep sz h2 x + h2) mod sz = x mod sz"
  by (auto simp: hstep_def)

lemma hpath_range: "3 \<le> sz \<Longrightarrow> 1 \<le> hpath sz k i \<and> hpath sz k i \<le> sz"
proof (induction i)
  case 0
  then show ?case using hfirst_range [of sz k] by simp
next
  case (Suc i)
  then show ?case
    using hsecond_range [of sz "hfirst sz k"] hstep_range [of "hsecond sz (hfirst sz k)" sz "hpath sz k i"]
    by (simp add: hpath_Suc)
qed

lemma hpath_mod: "3 \<le> sz \<Longrightarrow> (hpath sz k i + i * hsecond sz (hfirst sz k)) mod sz = hfirst sz k mod sz"
proof (induction i)
  case (Suc i)
  let ?h2 = "hsecond sz (hfirst sz k)"
  have "(hpath sz k (Suc i) + Suc i * ?h2) mod sz = ((hstep sz ?h2 (hpath sz k i) + ?h2) + i * ?h2) mod sz"
    by (simp add: hpath_Suc add.assoc)
  also have "\<dots> = (hpath sz k i + i * ?h2) mod sz"
    using hstep_mod [of ?h2 sz "hpath sz k i"] hsecond_range [of sz "hfirst sz k"] Suc.prems
    by (intro mod_add_cong) simp_all
  finally show ?case using Suc by simp
qed simp

lemma mod_range_eq: "1 \<le> a \<Longrightarrow> a \<le> n \<Longrightarrow> 1 \<le> b \<Longrightarrow> b \<le> n \<Longrightarrow> a mod n = b mod n \<Longrightarrow> a = (b::nat)"
  by (cases "a = n"; cases "b = n") auto

lemma hpath_full: "3 \<le> sz \<Longrightarrow> hpath sz k sz = hfirst sz k"
proof -
  assume sz: "3 \<le> sz"
  have "hpath sz k sz mod sz = hfirst sz k mod sz"
    using hpath_mod [OF sz, of k sz] by simp
  then show ?thesis
    using hpath_range [OF sz, of k sz] hfirst_range [of sz k] sz
    by (intro mod_range_eq [of "hpath sz k sz" sz "hfirst sz k"]) linarith+
qed

lemma hpath_inj:
  assumes "prime_nat sz" "3 \<le> sz" "i < sz" "j < sz" "hpath sz k i = hpath sz k j"
  shows "i = j"
proof -
  let ?h2 = "hsecond sz (hfirst sz k)"
  have *: "i = j" if "i \<le> j" "j < sz" "hpath sz k i = hpath sz k j" for i j
  proof (rule ccontr)
    assume "i \<noteq> j"
    have "(hpath sz k i + j * ?h2) mod sz = (hpath sz k i + i * ?h2) mod sz"
      using hpath_mod [OF assms(2), of k] that(3) by metis
    then have "sz dvd (hpath sz k i + j * ?h2) - (hpath sz k i + i * ?h2)"
      by (rule mod_eq_dvd_iff_nat [THEN iffD1, rotated]) (use that in simp)
    then have "sz dvd (j - i) * ?h2" by (simp add: diff_mult_distrib)
    then have "sz dvd (j - i) \<or> sz dvd ?h2"
      by (rule prime_nat_dvd_mult [OF assms(1)])
    then show False
      using hsecond_range [OF assms(2), of "hfirst sz k"] that \<open>i \<noteq> j\<close>
      by (auto dest: dvd_imp_le)
  qed
  show ?thesis
    using *[of i j] *[of j i] assms by (cases "i \<le> j") auto
qed

text \<open>A probe path of prime size visits every slot.\<close>

lemma hpath_surj:
  assumes "prime_nat sz" "3 \<le> sz"
  shows "hpath sz k ` {..<sz} = {1..sz}"
proof (rule card_subset_eq)
  show "hpath sz k ` {..<sz} \<subseteq> {1..sz}"
    using hpath_range [OF assms(2)] by auto
  have "inj_on (hpath sz k) {..<sz}"
    using hpath_inj [OF assms] by (auto simp: inj_on_def)
  then show "card (hpath sz k ` {..<sz}) = card {1..sz}"
    by (simp add: card_image)
qed simp

subsection \<open>The invariant and the map\<close>

definition slot_ok :: "nat \<Rightarrow> hslot list \<Rightarrow> nat \<Rightarrow> bool" where
  "slot_ok sz t j \<longleftrightarrow>
     (\<exists>k d. key (t ! j) = Some k \<and> data (t ! j) = Some d \<and> 0 \<notin> set k \<and> used (t ! j) = int (hfirst sz k) \<and>
        (\<exists>i < sz. hpath sz k i = j \<and> (\<forall>i' < i. used (t ! hpath sz k i') \<noteq> 0)))"

definition table_ok :: "nat \<Rightarrow> hslot list \<Rightarrow> bool" where
  "table_ok sz t \<longleftrightarrow>
     prime_nat sz \<and> 3 \<le> sz \<and> length t = sz + 1 \<and>
     (\<forall>j \<in> {1..sz}. - 1 \<le> used (t ! j) \<and> (0 < used (t ! j) \<longrightarrow> slot_ok sz t j)) \<and>
     (\<forall>j \<in> {1..sz}. \<forall>j' \<in> {1..sz}. 0 < used (t ! j) \<and> 0 < used (t ! j') \<and> key (t ! j) = key (t ! j') \<longrightarrow> j = j')"

definition live :: "nat \<Rightarrow> hslot list \<Rightarrow> nat set" where
  "live sz t = {j \<in> {1..sz}. 0 < used (t ! j)}"

definition ht_ok :: "hsearch_data \<Rightarrow> bool" where
  "ht_ok htab \<longleftrightarrow>
     (\<exists>t. ht_table htab = Some t \<and> table_ok (ht_size htab) t \<and> ht_filled htab = card (live (ht_size htab) t))"

definition slot_map :: "hslot list \<Rightarrow> bytes \<Rightarrow> bytes option" where
  "slot_map t k = (case find (\<lambda>e. 0 < used e \<and> key e = Some k) (tl t) of None \<Rightarrow> None | Some e \<Rightarrow> data e)"

definition ht_map :: "hsearch_data \<Rightarrow> bytes \<Rightarrow> bytes option" where
  "ht_map htab = (case ht_table htab of None \<Rightarrow> Map.empty | Some t \<Rightarrow> slot_map t)"

text \<open>The slots that were never used: a new key can be entered while there is one.\<close>

definition free_slots :: "hsearch_data \<Rightarrow> nat" where
  "free_slots htab = (case ht_table htab of None \<Rightarrow> 0 | Some t \<Rightarrow> length (filter (\<lambda>e. used e = 0) (tl t)))"

lemmas hash_inv_defs [inv_defs] = ht_ok_def table_ok_def slot_ok_def

lemma table_okD:
  assumes "table_ok sz t"
  shows "prime_nat sz" "3 \<le> sz" "length t = sz + 1"
    and "j \<in> {1..sz} \<Longrightarrow> - 1 \<le> used (t ! j)"
    and "j \<in> {1..sz} \<Longrightarrow> 0 < used (t ! j) \<Longrightarrow> slot_ok sz t j"
    and "j \<in> {1..sz} \<Longrightarrow> j' \<in> {1..sz} \<Longrightarrow> 0 < used (t ! j) \<Longrightarrow> 0 < used (t ! j') \<Longrightarrow>
           key (t ! j) = key (t ! j') \<Longrightarrow> j = j'"
  using assms unfolding table_ok_def by blast+

lemma finite_live [simp]: "finite (live sz t)"
  by (simp add: live_def)

lemma slot_map_Some:
  assumes "table_ok sz t"
  shows "slot_map t k = Some d \<longleftrightarrow>
    (\<exists>j \<in> {1..sz}. 0 < used (t ! j) \<and> key (t ! j) = Some k \<and> data (t ! j) = Some d)"
proof
  note len = table_okD(3) [OF assms]
  assume "slot_map t k = Some d"
  then obtain e where "find (\<lambda>e. 0 < used e \<and> key e = Some k) (tl t) = Some e" "data e = Some d"
    by (auto simp: slot_map_def split: option.splits)
  then obtain i where "i < length (tl t)" "0 < used (tl t ! i)" "key (tl t ! i) = Some k" "data (tl t ! i) = Some d"
    by (auto simp: find_Some_iff)
  then show "\<exists>j \<in> {1..sz}. 0 < used (t ! j) \<and> key (t ! j) = Some k \<and> data (t ! j) = Some d"
    using len by (intro bexI [of _ "Suc i"]) (auto simp: nth_tl)
next
  note len = table_okD(3) [OF assms]
  assume "\<exists>j \<in> {1..sz}. 0 < used (t ! j) \<and> key (t ! j) = Some k \<and> data (t ! j) = Some d"
  then obtain j where j: "j \<in> {1..sz}" "0 < used (t ! j)" "key (t ! j) = Some k" "data (t ! j) = Some d"
    by blast
  have "t ! j \<in> set (tl t)"
  proof -
    have "j - 1 < length (tl t)" "tl t ! (j - 1) = t ! j"
      using j(1) len by (auto simp: nth_tl)
    then show ?thesis by (metis nth_mem)
  qed
  with j(2,3) obtain e where f: "find (\<lambda>e. 0 < used e \<and> key e = Some k) (tl t) = Some e"
    by (metis (mono_tags, lifting) find_None_iff option.exhaust)
  then obtain i where i: "i < length (tl t)" "0 < used (tl t ! i)" "key (tl t ! i) = Some k" "e = tl t ! i"
    by (auto simp: find_Some_iff)
  then have "Suc i \<in> {1..sz}" "0 < used (t ! Suc i)" "key (t ! Suc i) = Some k"
    using len by (auto simp: nth_tl)
  then have "Suc i = j"
    using table_okD(6) [OF assms _ j(1)] j(2,3) by metis
  with i len have "e = t ! j" by (simp add: nth_tl)
  with f j(4) show "slot_map t k = Some d" by (simp add: slot_map_def)
qed

lemma slot_map_None:
  assumes "table_ok sz t"
  shows "slot_map t k = None \<longleftrightarrow> (\<forall>j \<in> {1..sz}. 0 < used (t ! j) \<longrightarrow> key (t ! j) \<noteq> Some k)"
proof -
  have "(\<exists>d. slot_map t k = Some d) \<longleftrightarrow> (\<exists>j \<in> {1..sz}. 0 < used (t ! j) \<and> key (t ! j) = Some k)"
    unfolding slot_map_Some [OF assms] using table_okD(5) [OF assms] by (fastforce simp: slot_ok_def)
  then show ?thesis by (metis not_None_eq)
qed

subsection \<open>The probe loop\<close>

definition hit :: "hslot list \<Rightarrow> bytes \<Rightarrow> nat \<Rightarrow> bool" where
  "hit t k j \<longleftrightarrow> 0 < used (t ! j) \<and> key (t ! j) = Some k"

lemma hkey_eq_ok:
  assumes "table_ok sz t" "j \<in> {1..sz}" "0 \<notin> set k"
  shows "hkey_eq (hfirst sz k) k (t ! j) = Some (hit t k j)"
proof (cases "0 < used (t ! j)")
  case True
  then obtain k' where k': "key (t ! j) = Some k'" "0 \<notin> set k'" "used (t ! j) = int (hfirst sz k')"
    using table_okD(5) [OF assms(1,2)] by (auto simp: slot_ok_def)
  then show ?thesis
    using True assms(3) by (auto simp: hkey_eq_def hit_def strcmp_s_eq_0)
next
  case False
  then have "used (t ! j) \<noteq> int (hfirst sz k)"
    using hfirst_range [of sz k] table_okD(2) [OF assms(1)] by auto
  with False show ?thesis by (simp add: hkey_eq_def hit_def)
qed

abbreviation hstop :: "nat \<Rightarrow> hslot list \<Rightarrow> bytes \<Rightarrow> nat \<Rightarrow> bool" where
  "hstop sz t k i \<equiv> hit t k (hpath sz k i) \<or> used (t ! hpath sz k i) = 0"

lemma hprobe_find:
  assumes "table_ok sz t" "0 \<notin> set k" "i < sz"
  shows "hprobe (sz - i) t sz (hfirst sz k) (hsecond sz (hfirst sz k)) k (hpath sz k i) =
    Some (case find (hstop sz t k) [Suc i..<sz] of
            None \<Rightarrow> Wrapped
          | Some i' \<Rightarrow> if hit t k (hpath sz k i') then Hit (hpath sz k i') else Free (hpath sz k i'))"
  using assms(3)
proof (induction "sz - i" arbitrary: i)
  case (Suc n)
  note ok = table_okD [OF assms(1)]
  have sz: "sz - i = Suc (sz - Suc i)" using Suc.prems by simp
  have r: "hpath sz k (Suc i) \<in> {1..sz}"
    using hpath_range [OF ok(2)] by simp
  then have rdj: "rd t (hpath sz k (Suc i)) = Some (t ! hpath sz k (Suc i))"
    using ok(3) by simp
  show ?case
  proof (cases "Suc i = sz")
    case True
    then have "hstep sz (hsecond sz (hfirst sz k)) (hpath sz k i) = hfirst sz k"
      using hpath_full [OF ok(2)] hpath_Suc by metis
    with True show ?thesis unfolding sz by (simp add: Let_def)
  next
    case False
    then have "hpath sz k (Suc i) \<noteq> hfirst sz k"
      using hpath_inj [OF ok(1,2), of "Suc i" 0 k] Suc.prems by auto
    moreover have "[Suc i..<sz] = Suc i # [Suc (Suc i)..<sz]"
      using False Suc.prems by (simp add: upt_conv_Cons)
    moreover have "hprobe (sz - Suc i) t sz (hfirst sz k) (hsecond sz (hfirst sz k)) k (hpath sz k (Suc i)) =
        Some (case find (hstop sz t k) [Suc (Suc i)..<sz] of
            None \<Rightarrow> Wrapped
          | Some i' \<Rightarrow> if hit t k (hpath sz k i') then Hit (hpath sz k i') else Free (hpath sz k i'))"
      using Suc.hyps(2) Suc.prems False by (intro Suc.hyps(1)) auto
    ultimately show ?thesis
      unfolding sz using rdj hkey_eq_ok [OF assms(1) r assms(2)]
      by (simp add: hpath_Suc Let_def del: upt_Suc split: bool.splits)
  qed
qed simp

text \<open>What \<open>hsearch_r\<close> does on a well-formed table, in terms of the first stopping place of the path.\<close>

lemma hsearch_r_find:
  assumes "table_ok (ht_size htab) t" "ht_table htab = Some t" "0 \<notin> set k"
  shows "hsearch_r malloc k dat act htab =
    (let sz = ht_size htab; h = hfirst sz k; fd = (if used (t ! h) = - 1 then h else 0) in
     Some (case find (hstop sz t k) [0..<sz] of
             None \<Rightarrow> henter malloc k dat act htab t h h fd
           | Some i \<Rightarrow> if hit t k (hpath sz k i) then hoverwrite malloc act dat htab t (hpath sz k i)
                       else henter malloc k dat act htab t h (hpath sz k i) fd))"
proof -
  let ?sz = "ht_size htab"
  let ?h = "hfirst ?sz k"
  note ok = table_okD [OF assms(1)]
  have h: "?h \<in> {1..?sz}" using hfirst_range [of ?sz k] ok(2) by auto
  then have rdh: "rd t ?h = Some (t ! ?h)" using ok(3) by simp
  note eq = hkey_eq_ok [OF assms(1) h assms(3)]
  have upt: "[0..<?sz] = 0 # [Suc 0..<?sz]"
    using ok(2) by (simp add: upt_conv_Cons)
  have probe: "hprobe ?sz t ?sz ?h (hsecond ?sz ?h) k ?h =
    Some (case find (hstop ?sz t k) [Suc 0..<?sz] of
            None \<Rightarrow> Wrapped
          | Some i' \<Rightarrow> if hit t k (hpath ?sz k i') then Hit (hpath ?sz k i') else Free (hpath ?sz k i'))"
    using hprobe_find [OF assms(1,3), of 0] ok(2) by simp
  show ?thesis
  proof (cases "used (t ! ?h) = 0")
    case True
    then have "\<not> hit t k ?h" by (simp add: hit_def)
    with True show ?thesis
      unfolding Let_def upt by (simp add: hsearch_r_def assms(2) rdh Let_def del: upt_Suc)
  next
    case False
    then show ?thesis
      unfolding Let_def upt using probe eq
      by (simp add: hsearch_r_def assms(2) rdh Let_def del: upt_Suc split: option.splits bool.splits)
  qed
qed

text \<open>Where the search stops: at the live slot of the key if there is one \<dots>\<close>

lemma find_live:
  assumes "table_ok sz t" "j \<in> {1..sz}" "hit t k j"
  obtains i where "find (hstop sz t k) [0..<sz] = Some i" "hpath sz k i = j"
proof -
  obtain i where i: "i < sz" "hpath sz k i = j" "\<forall>i' < i. used (t ! hpath sz k i') \<noteq> 0"
    using table_okD(5) [OF assms(1,2)] assms(3) by (auto simp: slot_ok_def hit_def)
  have "\<not> hit t k (hpath sz k i')" if "i' < i" for i'
  proof
    assume "hit t k (hpath sz k i')"
    then have "hpath sz k i' = j"
      using assms hpath_range [OF table_okD(2) [OF assms(1)], of k i']
      by (intro table_okD(6) [OF assms(1)]) (auto simp: hit_def)
    then have "i' = i"
      using hpath_inj [OF table_okD(1,2) [OF assms(1)], of i' i k] i that by simp
    with that show False by simp
  qed
  with i assms(3) have "find (hstop sz t k) [0..<sz] = Some i"
    by (subst find_Some_iff) (intro exI [of _ i], simp)
  with i(2) that show thesis by blast
qed

text \<open>\<dots> and otherwise at the first free slot of the path, if any slot is free.\<close>

lemma find_free:
  assumes "table_ok sz t" "\<forall>j \<in> {1..sz}. \<not> hit t k j" "j0 \<in> {1..sz}" "used (t ! j0) = 0"
  obtains i where "find (hstop sz t k) [0..<sz] = Some i" "i < sz" "used (t ! hpath sz k i) = 0"
    "\<forall>i' < i. used (t ! hpath sz k i') \<noteq> 0" "\<not> hit t k (hpath sz k i)"
proof -
  have nh: "\<not> hit t k (hpath sz k i)" for i
    using assms(2) hpath_range [OF table_okD(2) [OF assms(1)], of k i] by simp
  obtain i0 where "i0 < sz" "hpath sz k i0 = j0"
    using hpath_surj [OF table_okD(1,2) [OF assms(1)], of k] assms(3)
    by (metis imageE lessThan_iff)
  with assms(4) have "find (hstop sz t k) [0..<sz] \<noteq> None"
    by (auto simp: find_None_iff)
  then obtain i where i: "find (hstop sz t k) [0..<sz] = Some i" by blast
  then obtain n where n: "n < sz" "hstop sz t k ([0..<sz] ! n)" "i = [0..<sz] ! n"
    "\<forall>n' < n. \<not> hstop sz t k ([0..<sz] ! n')"
    unfolding find_Some_iff by (simp only: length_upt diff_zero) blast
  then have "i = n" by simp
  with n nh have "i < sz" "used (t ! hpath sz k i) = 0" by simp_all
  moreover have "used (t ! hpath sz k i') \<noteq> 0" if "i' < i" for i'
    using n(1,4) that \<open>i = n\<close> by auto
  ultimately show thesis using i nh by (intro that [of i]) blast+
qed

subsection \<open>Writing one slot\<close>

lemma hit_unique:
  assumes "table_ok sz t" "j \<in> {1..sz}" "j' \<in> {1..sz}" "hit t k j" "hit t k j'"
  shows "j = j'"
  using assms by (intro table_okD(6) [OF assms(1)]) (auto simp: hit_def)

lemma slot_ok_update:
  assumes "slot_ok sz t j'" "j' \<noteq> j" "j < length t" "used e \<noteq> 0"
  shows "slot_ok sz (t[j := e]) j'"
proof -
  obtain k d i where k: "key (t ! j') = Some k" "data (t ! j') = Some d" "0 \<notin> set k"
      "used (t ! j') = int (hfirst sz k)" "i < sz" "hpath sz k i = j'"
      and p: "\<forall>i' < i. used (t ! hpath sz k i') \<noteq> 0"
    using assms(1) unfolding slot_ok_def by blast
  have "\<forall>i' < i. used (t[j := e] ! hpath sz k i') \<noteq> 0"
    using p assms(3,4) by (simp add: nth_list_update)
  with k assms(2) show ?thesis
    unfolding slot_ok_def by (intro exI [of _ k] exI [of _ d] conjI exI [of _ i]) simp_all
qed

text \<open>
  The table stays well formed when slot \<open>j\<close> is overwritten by a slot that is not free and that,
  if it is live, is well placed and holds a key that no other slot holds.
\<close>

lemma table_ok_update:
  assumes ok: "table_ok sz t" and j: "j \<in> {1..sz}" and u: "used e \<noteq> 0" "- 1 \<le> used e"
    and s: "0 < used e \<Longrightarrow> slot_ok sz (t[j := e]) j"
    and new: "0 < used e \<Longrightarrow> \<forall>j' \<in> {1..sz}. j' \<noteq> j \<longrightarrow> 0 < used (t ! j') \<longrightarrow> key (t ! j') \<noteq> key e"
  shows "table_ok sz (t[j := e])"
proof -
  note okD = table_okD [OF ok]
  have len: "j < length t" using okD(3) j by simp
  have nth: "t[j := e] ! j' = (if j' = j then e else t ! j')" for j'
    using len by (simp add: nth_list_update)
  have slots: "- 1 \<le> used (t[j := e] ! j') \<and> (0 < used (t[j := e] ! j') \<longrightarrow> slot_ok sz (t[j := e]) j')"
    if "j' \<in> {1..sz}" for j'
  proof (cases "j' = j")
    case True
    then show ?thesis using u s nth by simp
  next
    case False
    then show ?thesis
      using okD(4,5) [OF that] slot_ok_update [OF _ False len u(1)] by (simp add: nth)
  qed
  have uniq: "j' = j''" if "j' \<in> {1..sz}" "j'' \<in> {1..sz}" "0 < used (t[j := e] ! j')" "0 < used (t[j := e] ! j'')"
      "key (t[j := e] ! j') = key (t[j := e] ! j'')" for j' j''
    using that new okD(6) [of j' j''] unfolding nth by (metis (full_types))
  show ?thesis
    unfolding table_ok_def
  proof (intro conjI ballI)
    fix j' assume "j' \<in> {1..sz}"
    from slots [OF this]
    show "- 1 \<le> used (t[j := e] ! j')" "0 < used (t[j := e] ! j') \<longrightarrow> slot_ok sz (t[j := e]) j'"
      by blast+
  next
    fix j' j'' assume "j' \<in> {1..sz}" "j'' \<in> {1..sz}"
    from uniq [OF this]
    show "0 < used (t[j := e] ! j') \<and> 0 < used (t[j := e] ! j'') \<and>
        key (t[j := e] ! j') = key (t[j := e] ! j'') \<longrightarrow> j' = j''"
      by blast
  qed (use okD(1-3) in simp_all)
qed

lemma slot_map_update:
  assumes ok: "table_ok sz t" "table_ok sz (t[j := e])" and j: "j \<in> {1..sz}"
    and other: "\<forall>j' \<in> {1..sz}. j' \<noteq> j \<longrightarrow> \<not> hit t k j'"
    and old: "\<forall>k'. k' \<noteq> k \<longrightarrow> \<not> hit t k' j"
    and e: "0 < used e \<Longrightarrow> key e = Some k"
  shows "slot_map (t[j := e]) = (slot_map t)(k := if 0 < used e then data e else None)"
proof -
  have len: "j < length t" using table_okD(3) [OF ok(1)] j by simp
  have "slot_map (t[j := e]) k' = Some d \<longleftrightarrow>
      ((slot_map t)(k := if 0 < used e then data e else None)) k' = Some d" for k' d
  proof (cases "k' = k")
    case True
    then show ?thesis
      unfolding slot_map_Some [OF ok(2)] using j e other len
      by (auto simp: nth_list_update hit_def simp del: atLeastAtMost_iff)
  next
    case False
    then have "(0 < used (t[j := e] ! j') \<and> key (t[j := e] ! j') = Some k' \<and> data (t[j := e] ! j') = Some d) =
        (0 < used (t ! j') \<and> key (t ! j') = Some k' \<and> data (t ! j') = Some d)" for j'
      using e old len by (cases "j' = j") (auto simp: hit_def)
    with False show ?thesis
      by (simp add: slot_map_Some [OF ok(1)] slot_map_Some [OF ok(2)])
  qed
  then show ?thesis by (intro ext) (metis option.exhaust)
qed

lemma live_update:
  assumes "j \<in> {1..sz}" "length t = sz + 1"
  shows "live sz (t[j := e]) = (if 0 < used e then insert j (live sz t) else live sz t - {j})"
  using assms by (auto simp: live_def nth_list_update)

text \<open>The three writes of the table operations.\<close>

lemma table_overwrite:
  fixes d :: bytes
  assumes "table_ok sz t" "j \<in> {1..sz}" "hit t k j"
  defines "t' \<equiv> t[j := (t ! j)\<lparr>data := Some d\<rparr>]"
  shows "table_ok sz t'" "slot_map t' = (slot_map t)(k \<mapsto> d)" "live sz t' = live sz t"
proof -
  let ?e = "(t ! j)\<lparr>data := Some d\<rparr>"
  note okD = table_okD [OF assms(1)]
  have len: "j < length t" using okD(3) assms(2) by simp
  have u: "0 < used (t ! j)" "key (t ! j) = Some k" using assms(3) by (auto simp: hit_def)
  obtain i where i: "0 \<notin> set k" "used (t ! j) = int (hfirst sz k)" "i < sz" "hpath sz k i = j"
      "\<forall>i' < i. used (t ! hpath sz k i') \<noteq> 0"
    using okD(5) [OF assms(2) u(1)] u(2) unfolding slot_ok_def by force
  have "\<forall>i' < i. used (t[j := ?e] ! hpath sz k i') \<noteq> 0"
    using i(5) u len by (simp add: nth_list_update)
  then have "slot_ok sz (t[j := ?e]) j"
    unfolding slot_ok_def using i(1-4) u(2) len
    by (intro exI [of _ k] exI [of _ d] conjI exI [of _ i]) simp_all
  then show ok': "table_ok sz t'"
    unfolding t'_def using u hit_unique [OF assms(1) _ assms(2) _ assms(3)]
    by (intro table_ok_update assms) (auto simp: hit_def simp del: atLeastAtMost_iff)
  have "slot_map t' = (slot_map t)(k := if 0 < used ?e then data ?e else None)"
    unfolding t'_def using u hit_unique [OF assms(1) _ assms(2) _ assms(3)]
    by (intro slot_map_update [OF assms(1) ok' [unfolded t'_def] assms(2)]) (auto simp: hit_def)
  with u show "slot_map t' = (slot_map t)(k \<mapsto> d)" by simp
  show "live sz t' = live sz t"
    unfolding t'_def live_update [OF assms(2) okD(3)] using u assms(2) by (auto simp: live_def)
qed

lemma table_insert:
  fixes d :: bytes
  assumes "table_ok sz t" "\<forall>j \<in> {1..sz}. \<not> hit t k j" "0 \<notin> set k"
    and "i < sz" "used (t ! hpath sz k i) \<le> 0" "\<forall>i' < i. used (t ! hpath sz k i') \<noteq> 0"
  defines "t' \<equiv> t[hpath sz k i := \<lparr>used = int (hfirst sz k), key = Some k, data = Some d\<rparr>]"
  shows "table_ok sz t'" "slot_map t' = (slot_map t)(k \<mapsto> d)"
    "live sz t' = insert (hpath sz k i) (live sz t)" "hpath sz k i \<notin> live sz t"
proof -
  let ?j = "hpath sz k i" and ?e = "\<lparr>used = int (hfirst sz k), key = Some k, data = Some d\<rparr>"
  note okD = table_okD [OF assms(1)]
  have j: "?j \<in> {1..sz}" using hpath_range [OF okD(2)] by simp
  have len: "?j < length t" using okD(3) j by simp
  have u: "0 < used ?e" using hfirst_range [of sz k] okD(2) by simp
  have "\<forall>i' < i. used (t[?j := ?e] ! hpath sz k i') \<noteq> 0"
    using assms(6) u len by (simp add: nth_list_update)
  then have "slot_ok sz (t[?j := ?e]) ?j"
    unfolding slot_ok_def using assms(3,4) len
    by (intro exI [of _ k] exI [of _ d] conjI exI [of _ i]) simp_all
  then show ok': "table_ok sz t'"
    unfolding t'_def using u assms(2)
    by (intro table_ok_update assms j) (auto simp: hit_def simp del: atLeastAtMost_iff)
  have "slot_map t' = (slot_map t)(k := if 0 < used ?e then data ?e else None)"
    unfolding t'_def using assms(2,5)
    by (intro slot_map_update [OF assms(1) ok' [unfolded t'_def] j]) (auto simp: hit_def)
  with u show "slot_map t' = (slot_map t)(k \<mapsto> d)" by simp
  show "live sz t' = insert ?j (live sz t)"
    unfolding t'_def live_update [OF j okD(3)] using u by simp
  show "?j \<notin> live sz t" using assms(5) by (simp add: live_def)
qed

lemma table_delete:
  assumes "table_ok sz t" "j \<in> {1..sz}" "hit t k j"
  defines "t' \<equiv> t[j := (t ! j)\<lparr>used := - 1\<rparr>]"
  shows "table_ok sz t'" "slot_map t' = (slot_map t)(k := None)" "live sz t' = live sz t - {j}" "j \<in> live sz t"
proof -
  let ?e = "(t ! j)\<lparr>used := - 1\<rparr>"
  note okD = table_okD [OF assms(1)]
  show ok': "table_ok sz t'"
    unfolding t'_def by (intro table_ok_update assms) simp_all
  have "slot_map t' = (slot_map t)(k := if 0 < used ?e then data ?e else None)"
    unfolding t'_def using assms(3) hit_unique [OF assms(1) _ assms(2) _ assms(3)]
    by (intro slot_map_update [OF assms(1) ok' [unfolded t'_def] assms(2)]) (auto simp: hit_def)
  then show "slot_map t' = (slot_map t)(k := None)" by simp
  show "live sz t' = live sz t - {j}"
    unfolding t'_def live_update [OF assms(2) okD(3)] by simp
  show "j \<in> live sz t" using assms(2,3) by (simp add: live_def hit_def)
qed

end
