(* ===== verification/Hashtable_Ops.thy ===== *)
theory Hashtable_Ops
  imports Hashtable_Inv
begin

text \<open>
  The table operations as operations on the map \<open>ht_map\<close>: \<open>FIND\<close> is lookup, \<open>ENTER\<close> is
  update, \<open>hdelete_r\<close> is removal, each with its error results, and each keeps \<open>ht_ok\<close>.
  \<open>hcreate_r\<close> returns a well-formed empty table whose size is a prime not below the request.
\<close>

subsection \<open>Searching\<close>

lemma ht_okE:
  assumes "ht_ok htab"
  obtains t where "ht_table htab = Some t" "table_ok (ht_size htab) t"
    "ht_filled htab = card (live (ht_size htab) t)" "ht_map htab = slot_map t"
  using assms by (auto simp: ht_ok_def ht_map_def)

lemma ht_okI:
  assumes "table_ok (ht_size htab) t" "ht_table htab = Some t" "ht_filled htab = card (live (ht_size htab) t)"
  shows "ht_ok htab"
  using assms by (auto simp: ht_ok_def)

lemma hsearch_r_present:
  assumes "table_ok (ht_size htab) t" "ht_table htab = Some t" "0 \<notin> set k" "slot_map t k = Some d"
  obtains j where "j \<in> {1..ht_size htab}" "hit t k j" "data (t ! j) = Some d"
    "\<And>malloc dat act. hsearch_r malloc k dat act htab = Some (hoverwrite malloc act dat htab t j)"
proof -
  obtain j where j: "j \<in> {1..ht_size htab}" "hit t k j" "data (t ! j) = Some d"
    using assms(4) unfolding slot_map_Some [OF assms(1)] hit_def by blast
  obtain i where "find (hstop (ht_size htab) t k) [0..<ht_size htab] = Some i" "hpath (ht_size htab) k i = j"
    using find_live [OF assms(1) j(1,2)] .
  then have "hsearch_r malloc k dat act htab = Some (hoverwrite malloc act dat htab t j)" for malloc dat act
    unfolding hsearch_r_find [OF assms(1-3)] Let_def using j(2) by simp
  with j that show thesis by blast
qed

lemma slot_map_None_hit:
  "table_ok sz t \<Longrightarrow> slot_map t k = None \<Longrightarrow> \<forall>j \<in> {1..sz}. \<not> hit t k j"
  unfolding slot_map_None hit_def by blast

text \<open>The slot a new key goes to: the first of the path if that is a deleted one, else the first free one.\<close>

lemma hsearch_r_absent:
  assumes "table_ok (ht_size htab) t" "ht_table htab = Some t" "0 \<notin> set k" "slot_map t k = None"
    and "j0 \<in> {1..ht_size htab}" "used (t ! j0) = 0"
  obtains i j fd where "i < ht_size htab" "used (t ! hpath (ht_size htab) k i) \<le> 0"
    "\<forall>i' < i. used (t ! hpath (ht_size htab) k i') \<noteq> 0"
    "(if fd \<noteq> 0 then fd else j) = hpath (ht_size htab) k i"
    "\<And>malloc dat act. hsearch_r malloc k dat act htab
       = Some (henter malloc k dat act htab t (hfirst (ht_size htab) k) j fd)"
proof -
  let ?sz = "ht_size htab"
  let ?h = "hfirst ?sz k"
  note nh = slot_map_None_hit [OF assms(1,4)]
  obtain i where i: "find (hstop ?sz t k) [0..<?sz] = Some i" "i < ?sz" "used (t ! hpath ?sz k i) = 0"
    "\<forall>i' < i. used (t ! hpath ?sz k i') \<noteq> 0" "\<not> hit t k (hpath ?sz k i)"
    using find_free [OF assms(1) nh assms(5,6)] .
  have s: "hsearch_r malloc k dat act htab
      = Some (henter malloc k dat act htab t ?h (hpath ?sz k i) (if used (t ! ?h) = - 1 then ?h else 0))"
    for malloc dat act
    unfolding hsearch_r_find [OF assms(1-3)] Let_def i(1) using i(5) by simp
  have h: "?h \<noteq> 0" using hfirst_range [of ?sz k] table_okD(2) [OF assms(1)] by simp
  show thesis
  proof (cases "used (t ! ?h) = - 1")
    case True
    show thesis
      by (rule that [of 0 ?h "hpath ?sz k i"]) (use True h s i table_okD(2) [OF assms(1)] in simp_all)
  next
    case False
    show thesis
      by (rule that [of i 0 "hpath ?sz k i"]) (use False s i in simp_all)
  qed
qed

text \<open>A key that is not in a table without a free slot: the probe visits every slot and fails.\<close>

lemma hsearch_r_absent_full:
  assumes "table_ok (ht_size htab) t" "ht_table htab = Some t" "0 \<notin> set k" "slot_map t k = None"
    and "\<forall>j \<in> {1..ht_size htab}. used (t ! j) \<noteq> 0"
  shows "hsearch_r malloc k dat act htab = Some (henter malloc k dat act htab t (hfirst (ht_size htab) k)
     (hfirst (ht_size htab) k) (if used (t ! hfirst (ht_size htab) k) = - 1 then hfirst (ht_size htab) k else 0))"
proof -
  have "hpath (ht_size htab) k i \<in> {1..ht_size htab}" for i
    using hpath_range [OF table_okD(2) [OF assms(1)]] by simp
  then have "find (hstop (ht_size htab) t k) [0..<ht_size htab] = None"
    using assms(5) slot_map_None_hit [OF assms(1,4)] unfolding find_None_iff by blast
  then show ?thesis
    unfolding hsearch_r_find [OF assms(1-3)] by (simp add: Let_def)
qed

lemma henter_FIND: "henter malloc k dat FIND htab t h j fd = (hfail ESRCH, htab)"
  by (simp add: henter_def)

lemma hoverwrite_FIND: "hoverwrite malloc FIND dat htab t j = (hfound j j, htab)"
  by (simp add: hoverwrite_def)

lemma find_present:
  assumes "ht_ok htab" "0 \<notin> set k" "ht_map htab k = Some d"
  obtains t j where "hsearch_r malloc k dat FIND htab = Some (hfound j j, htab)" "0 < j"
    "ht_table htab = Some t" "j < length t" "key (t ! j) = Some k" "data (t ! j) = Some d"
proof -
  obtain t where t: "ht_table htab = Some t" "table_ok (ht_size htab) t" "ht_map htab = slot_map t"
    using assms(1) by (rule ht_okE)
  with assms(2,3) obtain j where j: "j \<in> {1..ht_size htab}" "hit t k j" "data (t ! j) = Some d"
    "\<And>malloc dat act. hsearch_r malloc k dat act htab = Some (hoverwrite malloc act dat htab t j)"
    by (metis hsearch_r_present)
  show thesis
    by (rule that [of j t])
      (use j t table_okD(3) [OF t(2)] in \<open>simp_all add: hoverwrite_FIND hit_def\<close>)
qed

lemma find_absent:
  assumes "ht_ok htab" "0 \<notin> set k" "ht_map htab k = None"
  shows "hsearch_r malloc k dat FIND htab = Some (hfail ESRCH, htab)"
proof -
  obtain t where t: "ht_table htab = Some t" "table_ok (ht_size htab) t" "ht_map htab = slot_map t"
    using assms(1) by (rule ht_okE)
  show ?thesis
  proof (cases "\<forall>j \<in> {1..ht_size htab}. used (t ! j) \<noteq> 0")
    case True
    then show ?thesis
      using hsearch_r_absent_full [OF t(2,1) assms(2)] assms(3) t(3) by (simp add: henter_FIND)
  next
    case False
    then obtain j0 where j0: "j0 \<in> {1..ht_size htab}" "used (t ! j0) = 0" by blast
    have "slot_map t k = None" using assms(3) t(3) by simp
    then show ?thesis
      by (rule hsearch_r_absent [OF t(2,1) assms(2) _ j0]) (simp add: henter_FIND)
  qed
qed

subsection \<open>Insertion and deletion\<close>

lemma free_slots_pos:
  assumes "ht_table htab = Some t" "table_ok (ht_size htab) t" "0 < free_slots htab"
  obtains j where "j \<in> {1..ht_size htab}" "used (t ! j) = 0"
proof -
  from assms obtain e where "e \<in> set (tl t)" "used e = 0"
    by (auto simp: free_slots_def filter_empty_conv)
  then obtain i where "i < length (tl t)" "used (tl t ! i) = 0"
    by (metis in_set_conv_nth)
  then show thesis
    using table_okD(3) [OF assms(2)] by (intro that [of "Suc i"]) (auto simp: nth_tl)
qed

lemma free_slots_update:
  assumes "0 < j" "j < length t" "used e \<noteq> 0"
  shows "length (filter (\<lambda>e. used e = 0) (tl (t[j := e]))) + (if used (t ! j) = 0 then 1 else 0)
    = length (filter (\<lambda>e. used e = 0) (tl t))"
proof -
  obtain i where j: "j = Suc i" using assms(1) gr0_conv_Suc by auto
  have i: "i < length (tl t)" "t ! j = tl t ! i" "tl (t[j := e]) = (tl t)[i := e]"
    using assms(2) j by (cases t; simp)+
  show ?thesis
    unfolding i(2,3) using i(1) assms(3)
    by (subst (2) id_take_nth_drop [OF i(1)]) (simp add: upd_conv_take_nth_drop)
qed

lemma live_full:
  assumes "length t = sz + 1" "j \<in> {1..sz}" "used (t ! j) \<le> 0"
  shows "card (live sz t) < sz"
proof -
  have "live sz t \<subseteq> {1..sz} - {j}" using assms(3) by (auto simp: live_def)
  then have "card (live sz t) \<le> card ({1..sz} - {j})" by (intro card_mono) auto
  then have "card (live sz t) \<le> sz - 1" using assms(2) by simp
  moreover have "0 < sz" using assms(2) by simp
  ultimately show ?thesis by linarith
qed

lemma enter_ok:
  assumes "ht_ok htab" "0 \<notin> set k" "ht_map htab k \<noteq> None \<or> 0 < free_slots htab"
    and "malloc (length k + 1)" "malloc (length d + 1)"
  obtains r htab' where "hsearch_r malloc k (Some d) ENTER htab = Some (r, htab')"
    "ret r \<noteq> 0" "retval r \<noteq> None" "ht_ok htab'" "ht_map htab' = (ht_map htab)(k \<mapsto> d)"
    "free_slots htab \<le> free_slots htab' + 1" "ht_size htab' = ht_size htab"
proof -
  obtain t where t: "ht_table htab = Some t" "table_ok (ht_size htab) t"
      "ht_filled htab = card (live (ht_size htab) t)" "ht_map htab = slot_map t"
    using assms(1) by (rule ht_okE)
  note okD = table_okD [OF t(2)]
  show thesis
  proof (cases "slot_map t k")
    case (Some d0)
    obtain j where j: "j \<in> {1..ht_size htab}" "hit t k j"
      "\<And>malloc dat act. hsearch_r malloc k dat act htab = Some (hoverwrite malloc act dat htab t j)"
      using hsearch_r_present [OF t(2,1) assms(2) Some] by metis
    let ?e = "(t ! j)\<lparr>data := Some d\<rparr>"
    note w = table_overwrite [OF t(2) j(1,2), of d]
    have "used ?e \<noteq> 0" "used (t ! j) \<noteq> 0" using j(2) by (auto simp: hit_def)
    then have "free_slots (htab\<lparr>ht_table := Some (t[j := ?e])\<rparr>) = free_slots htab"
      using free_slots_update [of j t ?e] j(1) okD(3) t(1) by (simp add: free_slots_def)
    then show thesis
      using j(1) w t assms(5)
      by (intro that [of "hfound j j" "htab\<lparr>ht_table := Some (t[j := ?e])\<rparr>"])
        (auto simp: j(3) hoverwrite_def strdup_s_def Let_def ht_map_def intro: ht_okI)
  next
    case None
    then obtain j0 where j0: "j0 \<in> {1..ht_size htab}" "used (t ! j0) = 0"
      using assms(3) t free_slots_pos by (metis option.distinct(1))
    obtain i j fd where i: "i < ht_size htab" "used (t ! hpath (ht_size htab) k i) \<le> 0"
      "\<forall>i' < i. used (t ! hpath (ht_size htab) k i') \<noteq> 0"
      "(if fd \<noteq> 0 then fd else j) = hpath (ht_size htab) k i"
      "\<And>malloc dat act. hsearch_r malloc k dat act htab
         = Some (henter malloc k dat act htab t (hfirst (ht_size htab) k) j fd)"
      using hsearch_r_absent [OF t(2,1) assms(2) None j0] by metis
    let ?i = "hpath (ht_size htab) k i"
      and ?e = "\<lparr>used = int (hfirst (ht_size htab) k), key = Some k, data = Some d\<rparr>"
    let ?htab = "htab\<lparr>ht_table := Some (t[?i := ?e]), ht_filled := ht_filled htab + 1\<rparr>"
    note w = table_insert(1-3) [OF t(2) slot_map_None_hit [OF t(2) None] assms(2) i(1-3), of d]
      table_insert(4) [OF t(2) slot_map_None_hit [OF t(2) None] assms(2) i(1-3)]
    have "ht_filled htab \<noteq> ht_size htab"
      using live_full [OF okD(3) j0(1)] j0(2) t(3) by simp
    then have s: "hsearch_r malloc k (Some d) ENTER htab = Some (hfound 1 ?i, ?htab)"
      using assms(4,5) i(4) by (simp add: i(5) henter_def strdup_s_def Let_def)
    have "?i \<in> {1..ht_size htab}" using hpath_range [OF okD(2)] by simp
    then have "free_slots htab \<le> free_slots ?htab + 1"
      using free_slots_update [of ?i t ?e] okD(3) hfirst_range [of "ht_size htab" k] okD(2) t(1)
      by (simp add: free_slots_def split: if_splits)
    then show thesis
      using w t by (intro that [OF s]) (auto simp: ht_map_def intro: ht_okI)
  qed
qed

lemma delete_present:
  assumes "ht_ok htab" "0 \<notin> set k" "ht_map htab k = Some d"
  obtains htab' where "hdelete_r k htab = Some (\<lparr>ret = 1, retval = None, errno = None\<rparr>, htab')"
    "ht_ok htab'" "ht_map htab' = (ht_map htab)(k := None)" "free_slots htab' = free_slots htab"
    "ht_size htab' = ht_size htab"
proof -
  obtain t where t: "ht_table htab = Some t" "table_ok (ht_size htab) t"
      "ht_filled htab = card (live (ht_size htab) t)" "ht_map htab = slot_map t"
    using assms(1) by (rule ht_okE)
  have "slot_map t k = Some d" using assms(3) t(4) by simp
  then obtain j where j: "j \<in> {1..ht_size htab}" "hit t k j" "data (t ! j) = Some d"
      "\<And>malloc dat act. hsearch_r malloc k dat act htab = Some (hoverwrite malloc act dat htab t j)"
    by (rule hsearch_r_present [OF t(2,1) assms(2)]) (rule that)
  note w = table_delete [OF t(2) j(1,2)]
  let ?e = "(t ! j)\<lparr>used := - 1\<rparr>"
  let ?htab = "htab\<lparr>ht_table := Some (t[j := ?e]), ht_filled := ht_filled htab - 1\<rparr>"
  have s: "hdelete_r k htab = Some (\<lparr>ret = 1, retval = None, errno = None\<rparr>, ?htab)"
    using j(1) by (simp add: hdelete_r_def j(4) hoverwrite_FIND t(1))
  have "free_slots ?htab = free_slots htab"
    using free_slots_update [of j t ?e] j table_okD(3) [OF t(2)] t(1)
    by (simp add: free_slots_def hit_def split: if_splits)
  moreover have "ht_ok ?htab"
    by (rule ht_okI [of _ "t[j := ?e]"]) (use w(1,3,4) t(3) in simp_all)
  moreover have "ht_map ?htab = (ht_map htab)(k := None)"
    using w(2) t(4) by (simp add: ht_map_def)
  ultimately show thesis by (intro that [OF s]) simp_all
qed

lemma delete_absent:
  assumes "ht_ok htab" "0 \<notin> set k" "ht_map htab k = None"
  shows "hdelete_r k htab = Some (hfail ESRCH, htab)"
  using find_absent [OF assms] by (simp add: hdelete_r_def)

subsection \<open>Creation\<close>

text \<open>
  Trial division by odd numbers: the loop ends without wrapping at the first odd \<open>r\<close> that
  divides the number or whose square reaches it.
\<close>

lemma isprime_loop_stops:
  assumes "n < 2 ^ 31" "odd dv" "3 \<le> dv" "(dv - 2) * (dv - 2) < n"
  shows "\<exists>r. isprime_loop n dv = Some r \<and> odd r \<and> dv \<le> r \<and> (r - 2) * (r - 2) < n \<and>
    (n \<le> r * r \<or> r dvd n) \<and> (\<forall>d. odd d \<and> dv \<le> d \<and> d < r \<longrightarrow> \<not> d dvd n)"
  using assms(2-4)
proof (induction "n + 2 - dv" arbitrary: dv rule: less_induct)
  case less
  have small: "dv < 46343"
  proof (rule ccontr)
    assume "\<not> dv < 46343"
    then have "46341 * 46341 \<le> (dv - 2) * (dv - 2)" by (intro mult_le_mono) auto
    with less.prems(3) assms(1) show False by simp
  qed
  then have "dv * dv \<le> 46342 * 46342" by (intro mult_le_mono) auto
  then have sq: "dv * dv mod 2 ^ 32 = dv * dv" "(dv + 2) mod 2 ^ 32 = dv + 2"
    using small by simp_all
  show ?case
  proof (cases "dv * dv < n \<and> \<not> dv dvd n")
    case True
    have "dv \<le> dv * dv" by simp
    with True have "dv < n" by linarith
    then have "n + 2 - (dv + 2) < n + 2 - dv" by linarith
    moreover have "odd (dv + 2)" "3 \<le> dv + 2" "(dv + 2 - 2) * (dv + 2 - 2) < n"
      using less.prems True by simp_all
    ultimately obtain r where r: "isprime_loop n (dv + 2) = Some r" "odd r" "dv + 2 \<le> r"
      "(r - 2) * (r - 2) < n" "n \<le> r * r \<or> r dvd n" "\<forall>d. odd d \<and> dv + 2 \<le> d \<and> d < r \<longrightarrow> \<not> d dvd n"
      using less.hyps by blast
    have "\<not> d dvd n" if "odd d" "dv \<le> d" "d < r" for d
    proof -
      have "d = dv \<or> d = dv + 1 \<or> dv + 2 \<le> d" using that by linarith
      then show ?thesis using that r(6) True less.prems(1) by auto
    qed
    moreover have "isprime_loop n dv = Some r"
      using True r(1) by (subst isprime_loop.simps) (simp only: sq, simp add: dvd_eq_mod_eq_0)
    ultimately show ?thesis using r(2-5) by (intro exI [of _ r]) auto
  next
    case False
    then have "isprime_loop n dv = Some dv"
      by (subst isprime_loop.simps) (simp only: sq, auto simp: dvd_eq_mod_eq_0)
    with False less.prems show ?thesis by (intro exI [of _ dv]) auto
  qed
qed

lemma prime_nat_trial:
  assumes "odd n" "5 \<le> n" "odd r" "3 \<le> r" "n < r * r" "\<forall>d. odd d \<and> 3 \<le> d \<and> d < r \<longrightarrow> \<not> d dvd n"
  shows "prime_nat n"
  unfolding prime_nat_def
proof (intro conjI allI impI)
  fix d assume "d dvd n"
  then obtain e where n: "n = d * e" by blast
  show "d = 1 \<or> d = n"
  proof (rule ccontr)
    assume "\<not> (d = 1 \<or> d = n)"
    moreover have "odd d" "odd e" using n assms(1) by auto
    ultimately have de: "3 \<le> d" "3 \<le> e"
      using n assms(2) by (auto elim!: oddE)
    show False
    proof (cases "d < r \<or> e < r")
      case True
      then show False using de \<open>odd d\<close> \<open>odd e\<close> assms(6) n by auto
    next
      case False
      then have "r * r \<le> d * e" by (intro mult_le_mono) auto
      then show False using n assms(5) by simp
    qed
  qed
qed (use assms(2) in simp)

lemma isprime_correct:
  assumes "odd n" "5 \<le> n" "n < 2 ^ 31"
  shows "isprime n = Some (prime_nat n)"
proof -
  obtain r where r: "isprime_loop n 3 = Some r" "odd r" "3 \<le> r" "(r - 2) * (r - 2) < n"
    "n \<le> r * r \<or> r dvd n" "\<forall>d. odd d \<and> 3 \<le> d \<and> d < r \<longrightarrow> \<not> d dvd n"
    using isprime_loop_stops [of n 3] assms(2,3) by auto
  have "prime_nat n \<longleftrightarrow> \<not> r dvd n"
  proof
    assume "prime_nat n"
    moreover have "r \<noteq> n"
    proof
      assume "r = n"
      then have "3 * (n - 2) \<le> (r - 2) * (r - 2)" using assms(2) by (intro mult_le_mono) auto
      with r(4) assms(2) \<open>r = n\<close> show False by linarith
    qed
    ultimately show "\<not> r dvd n" using r(3) by (auto simp: prime_nat_def)
  next
    assume ndvd: "\<not> r dvd n"
    then have "n \<noteq> r * r" by auto
    with ndvd r(5) have "n < r * r" by auto
    then show "prime_nat n" using prime_nat_trial assms(1,2) r(2,3,6) by blast
  qed
  then show ?thesis by (simp add: isprime_def r(1) dvd_eq_mod_eq_0)
qed

lemma next_prime_correct:
  assumes "odd nel" "5 \<le> nel" "nel \<le> p" "prime_nat p" "p < 2 ^ 31"
  shows "\<exists>q. next_prime nel = Some q \<and> prime_nat q \<and> nel \<le> q \<and> q \<le> p"
  using assms(1-3)
proof (induction "p - nel" arbitrary: nel rule: less_induct)
  case less
  have ip: "isprime nel = Some (prime_nat nel)"
    using less.prems assms(5) by (intro isprime_correct) auto
  show ?case
  proof (cases "prime_nat nel")
    case True
    then show ?thesis
      using less.prems(3) ip by (subst next_prime.simps) simp
  next
    case False
    then have "nel \<noteq> p" using assms(4) by auto
    moreover have "odd p"
    proof (rule ccontr)
      assume "\<not> odd p"
      then have "2 dvd p" by simp
      with assms(4) have "2 = p" by (auto simp: prime_nat_def)
      with less.prems show False by simp
    qed
    ultimately have "nel + 2 \<le> p" using less.prems(1,3) by (auto elim!: oddE)
    moreover from this have "p - (nel + 2) < p - nel" by linarith
    ultimately obtain q where "next_prime (nel + 2) = Some q" "prime_nat q" "nel + 2 \<le> q" "q \<le> p"
      using less.hyps [of "nel + 2"] less.prems by auto
    moreover have "(nel + 2) mod 2 ^ 32 = nel + 2" using \<open>nel + 2 \<le> p\<close> assms(5) by simp
    ultimately show ?thesis
      using False ip by (subst next_prime.simps) (simp only: bind.simps if_False, auto)
  qed
qed

lemma nat_or_1: "n OR 1 = (if odd n then n else n + (1::nat))"
  unfolding or_one_eq by simp

lemma fresh_table_ok:
  assumes "prime_nat n" "3 \<le> n" "ht_size htab = n" "ht_filled htab = 0"
    "ht_table htab = Some (replicate (n + 1) empty_slot)"
  shows "ht_ok htab" "ht_map htab = Map.empty" "free_slots htab = n"
proof -
  have nth: "replicate (n + 1) empty_slot ! j = empty_slot" if "j \<in> {1..n}" for j
    using that by (subst nth_replicate) auto
  have ok: "table_ok n (replicate (n + 1) empty_slot)"
    unfolding table_ok_def using assms(1,2) by (auto simp del: replicate_Suc simp: nth empty_slot_def)
  have "live n (replicate (n + 1) empty_slot) = {}"
    unfolding live_def using nth by (auto simp del: replicate_Suc simp: empty_slot_def)
  with ok show "ht_ok htab" using assms(3-5) by (intro ht_okI) simp_all
  show "ht_map htab = Map.empty"
  proof
    fix k
    have "slot_map (replicate (n + 1) empty_slot) k = None"
      unfolding slot_map_None [OF ok] by (auto simp del: replicate_Suc simp: nth empty_slot_def)
    then show "ht_map htab k = None" by (simp only: ht_map_def assms(5) option.case)
  qed
  show "free_slots htab = n" by (simp add: free_slots_def assms(5) empty_slot_def)
qed

lemma hcreate_ok:
  assumes "ht_table htab = None" "5 \<le> nel" "nel \<le> p" "prime_nat p" "p < 2 ^ 31" "\<And>n. malloc n"
  obtains htab' where "hcreate_r malloc nel htab = Some (1, htab')" "ht_ok htab'" "ht_map htab' = Map.empty"
    "nel \<le> free_slots htab'"
proof -
  have "odd p" using assms(2,3,4) by (auto simp: prime_nat_def)
  then have "nel OR 1 \<le> p" "odd (nel OR 1)" "5 \<le> nel OR 1" "nel \<le> nel OR 1"
    unfolding nat_or_1 using assms(2,3) by (auto elim!: oddE)
  then obtain q where q: "next_prime (nel OR 1) = Some q" "prime_nat q" "nel \<le> q" "5 \<le> q"
    using next_prime_correct [OF _ _ _ assms(4,5), of "nel OR 1"] by (meson le_trans)
  let ?htab = "htab\<lparr>ht_size := q, ht_filled := 0, ht_table := Some (replicate (q + 1) empty_slot)\<rparr>"
  have "hcreate_r malloc nel htab = Some (1, ?htab)"
    unfolding hcreate_r_def q(1) by (simp add: assms(1,6) Let_def)
  then show thesis
    using that [of ?htab] fresh_table_ok [of q ?htab] q by simp
qed

subsection \<open>Properties\<close>

definition demo_ht :: hsearch_data where
  "demo_ht = \<lparr>ht_table = Some (replicate 6 empty_slot), ht_size = 5, ht_filled = 0\<rparr>"

lemma prime_5: "prime_nat 5"
proof -
  have "isprime 5 = Some True" by (simp add: isprime_def isprime_loop.simps)
  then show ?thesis using isprime_correct [of 5] by simp
qed

lemma demo_ht_ok: "ht_ok demo_ht" "ht_map demo_ht = Map.empty" "free_slots demo_ht = 5"
  using fresh_table_ok [OF prime_5, of demo_ht] by (simp_all add: demo_ht_def numeral_eq_Suc)

text \<open>The same table with one entry.\<close>

definition demo_ht1 :: hsearch_data where
  "demo_ht1 = snd (the (hsearch_r (\<lambda>_. True) (bs ''x'') (Some (bs ''7'')) ENTER demo_ht))"

lemma demo_ht1_ok: "ht_ok demo_ht1" "ht_map demo_ht1 = [bs ''x'' \<mapsto> bs ''7'']"
proof -
  have n: "0 \<notin> set (bs ''x'')" "ht_map demo_ht (bs ''x'') \<noteq> None \<or> 0 < free_slots demo_ht" by (simp_all add: demo_ht_ok)
  obtain r h where "hsearch_r (\<lambda>_. True) (bs ''x'') (Some (bs ''7'')) ENTER demo_ht = Some (r, h)" "ht_ok h"
    "ht_map h = (ht_map demo_ht)(bs ''x'' \<mapsto> bs ''7'')"
    using enter_ok [OF demo_ht_ok(1) n, where malloc = "\<lambda>_. True" and d = "bs ''7''"] by metis
  then show "ht_ok demo_ht1" "ht_map demo_ht1 = [bs ''x'' \<mapsto> bs ''7'']"
    by (simp_all add: demo_ht1_def demo_ht_ok(2) del: bs_simps)
qed

text \<open>
  C10: A search in a well-formed table is a lookup in the map the table stands for: a name that is bound
  is found in a slot that holds the name and its value, any other name gives \<open>ESRCH\<close>; the probe ends,
  no access leaves the table, and the table does not change.
\<close>

theorem hsearch_find_refines:
  assumes "ht_ok htab" "0 \<notin> set k"
  shows "case ht_map htab k of
      None \<Rightarrow> hsearch_r malloc k dat FIND htab = Some (hfail ESRCH, htab)
    | Some d \<Rightarrow> \<exists>t j. hsearch_r malloc k dat FIND htab = Some (hfound j j, htab) \<and> ht_table htab = Some t \<and>
        0 < j \<and> j < length t \<and> key (t ! j) = Some k \<and> data (t ! j) = Some d"
proof (cases "ht_map htab k")
  case None
  then show ?thesis using find_absent [OF assms] by simp
next
  case (Some d)
  then obtain t j where "hsearch_r malloc k dat FIND htab = Some (hfound j j, htab)" "0 < j"
    "ht_table htab = Some t" "j < length t" "key (t ! j) = Some k" "data (t ! j) = Some d"
    using find_present [OF assms, of d malloc dat] by metis
  with Some show ?thesis by auto
qed

theorem hsearch_find_refines_witness: "hsearch_r (\<lambda>_. True) (bs ''x'') None FIND demo_ht = Some (hfail ESRCH, demo_ht)"
  using hsearch_find_refines [OF demo_ht_ok(1), of "bs ''x''" "\<lambda>_. True" None]
  by (simp add: demo_ht_ok(2) of_char_def)

text \<open>
  C9: Entering a name in a well-formed table succeeds when the name is bound already or some slot was
  never used and memory can be had; the table stays well-formed and its map is the old one with the
  name bound to the new value, every other name unchanged.
\<close>

theorem hsearch_enter_refines:
  assumes "ht_ok htab" "0 \<notin> set k" "ht_map htab k \<noteq> None \<or> 0 < free_slots htab"
    and "malloc (length k + 1)" "malloc (length d + 1)"
  shows "\<exists>r htab'. hsearch_r malloc k (Some d) ENTER htab = Some (r, htab') \<and> ret r \<noteq> 0 \<and> retval r \<noteq> None \<and>
    ht_ok htab' \<and> ht_map htab' = (ht_map htab)(k \<mapsto> d)"
  using enter_ok [OF assms] by metis

theorem hsearch_enter_refines_witness:
  "\<exists>r htab'. hsearch_r (\<lambda>_. True) (bs ''x'') (Some (bs ''1'')) ENTER demo_ht = Some (r, htab') \<and> ht_ok htab' \<and>
     ht_map htab' = [bs ''x'' \<mapsto> bs ''1'']"
  using hsearch_enter_refines [OF demo_ht_ok(1), of "bs ''x''" "\<lambda>_. True" "bs ''1''"]
  by (auto simp: demo_ht_ok of_char_def)

text \<open>
  C11: Deleting a name from a well-formed table removes exactly that name from the map and keeps the
  table well-formed; deleting a name that is not bound changes nothing and reports \<open>ESRCH\<close>.
\<close>

theorem hdelete_refines:
  assumes "ht_ok htab" "0 \<notin> set k"
  shows "\<exists>r htab'. hdelete_r k htab = Some (r, htab') \<and> ht_ok htab' \<and> ht_map htab' = (ht_map htab)(k := None) \<and>
    (if ht_map htab k = None then r = hfail ESRCH \<and> htab' = htab else ret r = 1 \<and> errno r = None)"
proof (cases "ht_map htab k")
  case None
  then have "ht_map htab = (ht_map htab)(k := None)" by (auto simp: fun_eq_iff)
  then show ?thesis using None delete_absent [OF assms None] assms(1) by simp
next
  case (Some d)
  show ?thesis
    using delete_present [OF assms Some] Some
    by (metis (no_types, lifting) option.discI hres.select_convs(1) hres.select_convs(3))
qed

theorem hdelete_refines_witness: "\<exists>r htab'. hdelete_r (bs ''x'') demo_ht = Some (r, htab') \<and> r = hfail ESRCH \<and> htab' = demo_ht"
  using hdelete_refines [OF demo_ht_ok(1), of "bs ''x''"] by (auto simp: demo_ht_ok of_char_def)

text \<open>
  C38: \<open>hcreate_r\<close> with at least five entries ends with a well-formed, empty table that has room for
  the entries asked for, as long as there is a prime below \<open>2 ^ 31\<close> to be found.
\<close>

theorem hcreate_makes_table:
  assumes "ht_table htab = None" "5 \<le> nel" "nel \<le> p" "prime_nat p" "p < 2 ^ 31"
  shows "\<exists>htab'. hcreate_r (\<lambda>_. True) nel htab = Some (1, htab') \<and> ht_ok htab' \<and> ht_map htab' = Map.empty \<and>
    nel \<le> free_slots htab'"
  by (rule hcreate_ok [OF assms, of "\<lambda>_. True"]) auto

theorem hcreate_makes_table_witness:
  "\<exists>htab'. hcreate_r (\<lambda>_. True) 5 \<lparr>ht_table = None, ht_size = 0, ht_filled = 0\<rparr> = Some (1, htab') \<and> ht_ok htab'"
proof -
  have "ht_table \<lparr>ht_table = None, ht_size = 0, ht_filled = 0\<rparr> = None" by simp
  from hcreate_makes_table [OF this _ _ prime_5, of 5] show ?thesis by simp blast
qed

text \<open>
  The divisors tried by \<open>isprime\<close> start at 3 and include the number itself: three is not prime to it,
  and a table of three entries gets the size five.
\<close>

theorem isprime_three: "isprime 3 = Some False \<and> next_prime 3 = Some 5"
proof -
  have "isprime 3 = Some False" "isprime 5 = Some True"
    by (simp_all add: isprime_def isprime_loop.simps)
  then show ?thesis by (simp add: next_prime.simps [of 3] next_prime.simps [of 5])
qed

end
