(* ===== verification/Env_Text.thy ===== *)
theory Env_Text
  imports Hashtable_Ops
begin

text \<open>
  The environment as a store of named strings: the contract of the hash table towards its
  clients (locale \<open>env_store\<close>, interpreted on \<open>hsearch_r\<close> and \<open>hdelete_r\<close>), and the text form of
  the environment: what \<open>himport_r\<close> makes of a text, and that importing what \<open>hexport_r\<close> wrote
  gives back the map.
\<close>

subsection \<open>The store and a sequence of assignments\<close>

text \<open>What a list of parsed items does to a map, and to a store with operations \<open>put\<close> and \<open>del\<close>.\<close>

fun env_apply :: "himport_item list \<Rightarrow> (bytes \<Rightarrow> bytes option) \<Rightarrow> bytes \<Rightarrow> bytes option" where
  "env_apply [] m = m"
| "env_apply (Comment # is) m = env_apply is m"
| "env_apply (Delete k # is) m = env_apply is (m(k := None))"
| "env_apply (Assign k v # is) m = env_apply is (m(k \<mapsto> v))"

fun env_run ::
  "(bytes \<Rightarrow> bytes \<Rightarrow> 's \<Rightarrow> 's option) \<Rightarrow> (bytes \<Rightarrow> 's \<Rightarrow> 's option) \<Rightarrow> himport_item list \<Rightarrow> 's \<Rightarrow> 's option" where
  "env_run put del [] s = Some s"
| "env_run put del (Comment # is) s = env_run put del is s"
| "env_run put del (Delete k # is) s = Option.bind (del k s) (env_run put del is)"
| "env_run put del (Assign k v # is) s = Option.bind (put k v s) (env_run put del is)"

fun item_name :: "himport_item \<Rightarrow> bytes" where
  "item_name Comment = []"
| "item_name (Delete k) = k"
| "item_name (Assign k v) = k"

fun is_assign :: "himport_item \<Rightarrow> bool" where
  "is_assign (Assign k v) = True"
| "is_assign _ = False"

locale env_store =
  fixes ok :: "'s \<Rightarrow> bool"
    and look :: "'s \<Rightarrow> bytes \<Rightarrow> bytes option"
    and room :: "'s \<Rightarrow> nat"
    and put :: "bytes \<Rightarrow> bytes \<Rightarrow> 's \<Rightarrow> 's option"
    and del :: "bytes \<Rightarrow> 's \<Rightarrow> 's option"
  assumes put_law: "ok s \<Longrightarrow> 0 \<notin> set k \<Longrightarrow> look s k \<noteq> None \<or> 0 < room s \<Longrightarrow>
      \<exists>s'. put k v s = Some s' \<and> ok s' \<and> look s' = (look s)(k \<mapsto> v) \<and> room s \<le> room s' + 1"
    and del_law: "ok s \<Longrightarrow> 0 \<notin> set k \<Longrightarrow>
      \<exists>s'. del k s = Some s' \<and> ok s' \<and> look s' = (look s)(k := None) \<and> room s' = room s"
begin

text \<open>A store with room for every assignment performs them all.\<close>

lemma run_items:
  assumes "ok s" "\<forall>i \<in> set is. 0 \<notin> set (item_name i)" "length (filter is_assign is) \<le> room s"
  shows "\<exists>s'. env_run put del is s = Some s' \<and> ok s' \<and> look s' = env_apply is (look s)"
  using assms
proof (induction "is" arbitrary: s)
  case (Cons i "is")
  show ?case
  proof (cases i)
    case Comment
    then show ?thesis using Cons by simp
  next
    case (Delete k)
    then obtain s' where "del k s = Some s'" "ok s'" "look s' = (look s)(k := None)" "room s' = room s"
      using del_law [of s k] Cons.prems by auto
    then show ?thesis using Cons.IH [of s'] Delete Cons.prems by (simp add: fun_upd_def)
  next
    case (Assign k v)
    then obtain s' where "put k v s = Some s'" "ok s'" "look s' = (look s)(k \<mapsto> v)" "room s \<le> room s' + 1"
      using put_law [of s k v] Cons.prems by auto
    then show ?thesis using Cons.IH [of s'] Assign Cons.prems by (simp add: fun_upd_def)
  qed
qed simp

text \<open>A store remembers the last assignment and forgets a deleted name.\<close>

lemma put_del:
  assumes "ok s" "0 \<notin> set k" "0 < room s"
  shows "\<exists>s' s''. put k v s = Some s' \<and> look s' k = Some v \<and> del k s' = Some s'' \<and> look s'' = (look s)(k := None)"
  using put_law [of s k v] del_law [of _ k] assms by fastforce

end

definition ht_put :: "(nat \<Rightarrow> bool) \<Rightarrow> bytes \<Rightarrow> bytes \<Rightarrow> hsearch_data \<Rightarrow> hsearch_data option" where
  "ht_put malloc k v htab =
     (case hsearch_r malloc k (Some v) ENTER htab of
        None \<Rightarrow> None
      | Some (r, htab') \<Rightarrow> if retval r = None then None else Some htab')"

definition ht_del :: "bytes \<Rightarrow> hsearch_data \<Rightarrow> hsearch_data option" where
  "ht_del k htab = map_option snd (hdelete_r k htab)"

interpretation hstore: env_store ht_ok ht_map free_slots "ht_put (\<lambda>_. True)" ht_del
proof
  fix s and k v :: bytes
  assume "ht_ok s" "0 \<notin> set k" "ht_map s k \<noteq> None \<or> 0 < free_slots s"
  then show "\<exists>s'. ht_put (\<lambda>_. True) k v s = Some s' \<and> ht_ok s' \<and> ht_map s' = (ht_map s)(k \<mapsto> v) \<and>
      free_slots s \<le> free_slots s' + 1"
    by (rule enter_ok [where malloc = "\<lambda>_. True" and d = v]) (auto simp: ht_put_def)
next
  fix s and k :: bytes
  assume a: "ht_ok s" "0 \<notin> set k"
  show "\<exists>s'. ht_del k s = Some s' \<and> ht_ok s' \<and> ht_map s' = (ht_map s)(k := None) \<and> free_slots s' = free_slots s"
  proof (cases "ht_map s k")
    case None
    then show ?thesis using a delete_absent [of s k] by (auto simp: ht_del_def)
  next
    case (Some d)
    with a obtain s' where "hdelete_r k s = Some (\<lparr>ret = 1, retval = None, errno = None\<rparr>, s')" "ht_ok s'"
      "ht_map s' = (ht_map s)(k := None)" "free_slots s' = free_slots s"
      using delete_present by metis
    then show ?thesis by (intro exI [of _ s']) (simp add: ht_del_def)
  qed
qed

subsection \<open>The text as a list of items\<close>

function himport_items :: "u8 \<Rightarrow> bytes \<Rightarrow> himport_item list option" where
  "himport_items sep dp =
     (case himport_parse sep dp of
        None \<Rightarrow> None
      | Some (i, r) \<Rightarrow>
          if r \<noteq> [] \<and> hd r \<noteq> 0 then map_option ((#) i) (himport_items sep r) else Some [i])"
  by pat_completeness auto
termination by (relation "measure (\<lambda>(sep, dp). length dp)") (auto dest: himport_parse_length)

declare himport_items.simps [simp del]

lemma himport_loop_run:
  assumes "himport_items sep dp = Some is" "env_run (ht_put malloc) ht_del is htab = Some htab'"
  shows "himport_loop malloc sep dp htab = Some (1, htab')"
  using assms
proof (induction sep dp arbitrary: "is" htab rule: himport_items.induct)
  case (1 sep dp)
  obtain i r where p: "himport_parse sep dp = Some (i, r)"
    using "1.prems"(1) by (subst (asm) himport_items.simps) (auto split: option.splits)
  define rest where "rest = (if r \<noteq> [] \<and> hd r \<noteq> 0 then himport_items sep r else Some [])"
  have "is": "map_option ((#) i) rest = Some is"
    using "1.prems"(1) by (subst (asm) himport_items.simps) (auto simp: p rest_def split: if_splits)
  then obtain is' where is': "rest = Some is'" "is = i # is'" by auto
  have nxt: "(if r \<noteq> [] \<and> hd r \<noteq> 0 then himport_loop malloc sep r h else Some (1, h)) = Some (1, htab')"
    if "env_run (ht_put malloc) ht_del is' h = Some htab'" for h
    using that "1.IH" [OF p refl] is'(1) by (auto simp: rest_def split: if_splits)
  show ?case
  proof (cases i)
    case Comment
    then show ?thesis
      using nxt "1.prems"(2) is'(2) by (subst himport_loop.simps) (simp add: p)
  next
    case (Delete k)
    then obtain h where "ht_del k htab = Some h" and h: "env_run (ht_put malloc) ht_del is' h = Some htab'"
      using "1.prems"(2) is'(2) by (auto split: bind_splits)
    then obtain rv where "hdelete_r k htab = Some (rv, h)" by (auto simp: ht_del_def)
    with h show ?thesis
      using nxt [of h] Delete by (subst himport_loop.simps) (simp add: p)
  next
    case (Assign k v)
    then obtain h where "ht_put malloc k v htab = Some h" and h: "env_run (ht_put malloc) ht_del is' h = Some htab'"
      using "1.prems"(2) is'(2) by (auto split: bind_splits)
    then obtain rv where "hsearch_r malloc k (Some v) ENTER htab = Some (rv, h)" "retval rv \<noteq> None"
      by (auto simp: ht_put_def split: option.splits if_splits)
    with h show ?thesis
      using nxt [of h] Assign by (subst himport_loop.simps) (simp add: p)
  qed
qed

lemma parse_name_no_nul: "parse_name sep cs = Some (n, r) \<Longrightarrow> 0 \<notin> set n"
  by (induction cs arbitrary: n r) (auto split: if_splits)

lemma himport_parse_name: "himport_parse sep dp = Some (i, r) \<Longrightarrow> 0 \<notin> set (item_name i)"
  unfolding himport_parse_def
  by (auto split: option.splits if_splits list.splits dest!: parse_name_no_nul)

lemma himport_items_names:
  "himport_items sep dp = Some is \<Longrightarrow> \<forall>i \<in> set is. 0 \<notin> set (item_name i)"
proof (induction sep dp arbitrary: "is" rule: himport_items.induct)
  case (1 sep dp)
  obtain i r where p: "himport_parse sep dp = Some (i, r)"
    using "1.prems" by (subst (asm) himport_items.simps) (auto split: option.splits)
  note n = himport_parse_name [OF p]
  show ?case
  proof (cases "r \<noteq> [] \<and> hd r \<noteq> 0")
    case True
    then obtain is' where "himport_items sep r = Some is'" "is = i # is'"
      using "1.prems" by (subst (asm) himport_items.simps) (auto simp: p)
    with "1.IH" [OF p refl True] n show ?thesis by simp
  next
    case False
    then have "is = [i]"
      using "1.prems" by (subst (asm) himport_items.simps) (auto simp: p)
    with n show ?thesis by simp
  qed
qed

lemma prime_521: "prime_nat 521"
proof -
  have "isprime 521 = Some True" by (simp add: isprime_def isprime_loop.simps)
  then show ?thesis using isprime_correct [of 521] by simp
qed

lemma himport_clear:
  assumes "himport_items sep env = Some is" "length (filter is_assign is) \<le> himport_entries (length env)"
  shows "\<exists>htab'. himport_r (\<lambda>_. True) htab env sep False = Some (1, htab') \<and> ht_ok htab' \<and>
    ht_map htab' = env_apply is Map.empty"
proof -
  define htab1 where "htab1 = (if ht_table htab \<noteq> None then hdestroy_r htab else htab)"
  have t: "ht_table htab1 = None" by (simp add: htab1_def hdestroy_r_def)
  have "5 \<le> himport_entries (length env)" "himport_entries (length env) \<le> 521"
    by (simp_all add: himport_entries_def Let_def)
  then obtain htab2 where h2: "hcreate_r (\<lambda>_. True) (himport_entries (length env)) htab1 = Some (1, htab2)"
      "ht_ok htab2" "ht_map htab2 = Map.empty" "himport_entries (length env) \<le> free_slots htab2"
    by (rule hcreate_ok [OF t _ _ prime_521, where malloc = "\<lambda>_. True"]) simp_all
  then obtain htab' where "env_run (ht_put (\<lambda>_. True)) ht_del is htab2 = Some htab'" "ht_ok htab'"
      "ht_map htab' = env_apply is Map.empty"
    using hstore.run_items [OF h2(2) himport_items_names [OF assms(1)]] assms(2) by auto
  then show ?thesis
    using himport_loop_run [OF assms(1)] h2(1) t
    by (intro exI [of _ htab']) (cases "ht_table htab = None", simp_all add: himport_r_def htab1_def)
qed

text \<open>Importing into a table that is kept.\<close>

lemma himport_keep:
  assumes "ht_ok htab" "himport_items sep env = Some is" "length (filter is_assign is) \<le> free_slots htab"
  shows "\<exists>htab'. himport_r (\<lambda>_. True) htab env sep True = Some (1, htab') \<and> ht_ok htab' \<and>
    ht_map htab' = env_apply is (ht_map htab)"
proof -
  obtain htab' where "env_run (ht_put (\<lambda>_. True)) ht_del is htab = Some htab'" "ht_ok htab'"
      "ht_map htab' = env_apply is (ht_map htab)"
    using hstore.run_items [OF assms(1) himport_items_names [OF assms(2)] assms(3)] by auto
  moreover have "ht_table htab \<noteq> None" using assms(1) by (auto simp: ht_ok_def)
  ultimately show ?thesis
    using himport_loop_run [OF assms(2), where malloc = "\<lambda>_. True" and htab = htab]
    by (intro exI [of _ htab']) (cases "ht_table htab", simp_all add: himport_r_def)
qed

subsection \<open>Export, and import of an exported text\<close>

text \<open>The names and values that survive the text form with separator \<open>sep\<close>.\<close>

definition entry_ok :: "u8 \<Rightarrow> bytes \<times> bytes \<Rightarrow> bool" where
  "entry_ok sep e \<longleftrightarrow>
     61 \<notin> set (fst e) \<and> 0 \<notin> set (fst e) \<and> sep \<notin> set (fst e) \<and>
     (fst e = [] \<or> \<not> isblank (hd (fst e)) \<and> hd (fst e) \<noteq> 35) \<and> snd e \<noteq> [] \<and> 0 \<notin> set (snd e)"

lemma escape_Nil [simp]: "escape sep [] = []"
  by (simp add: escape_def)

lemma escape_Cons [simp]: "escape sep (c # v) = (if c = sep \<or> c = 92 then [92, c] else [c]) @ escape sep v"
  by (simp add: escape_def)

lemma parse_value_escape:
  "0 \<notin> set v \<Longrightarrow> sep \<noteq> 92 \<Longrightarrow> parse_value sep (escape sep v @ sep # r) = Some (v, r)"
  by (induction v) auto

lemma parse_name_entry:
  "61 \<notin> set k \<Longrightarrow> 0 \<notin> set k \<Longrightarrow> sep \<notin> set k \<Longrightarrow> parse_name sep (k @ 61 # r) = Some (k, 61 # r)"
  by (induction k) auto

lemma himport_parse_entry:
  assumes "entry_ok sep e" "sep \<noteq> 61" "sep \<noteq> 92"
  shows "himport_parse sep (hexport_entry sep e @ r) = Some (Assign (fst e) (snd e), r)"
proof -
  obtain k c v where e: "e = (k, c # v)"
    using assms(1) by (cases e) (auto simp: entry_ok_def neq_Nil_conv)
  let ?val = "escape sep (c # v) @ sep # r"
  have entry_txt: "hexport_entry sep e @ r = k @ 61 # ?val"
    by (simp add: hexport_entry_def e)
  have "hd (k @ 61 # ?val) \<noteq> 35 \<and> \<not> isblank (hd (k @ 61 # ?val))"
    using assms(1) by (cases k) (auto simp: entry_ok_def e isblank_def)
  moreover from this have "skip_blank (k @ 61 # ?val) = Some (k @ 61 # ?val)"
    by (cases k) auto
  moreover have "parse_name sep (k @ 61 # ?val) = Some (k, 61 # ?val)"
    using assms(1) by (intro parse_name_entry) (auto simp: entry_ok_def e)
  moreover obtain d ds where d: "?val = d # ds" "d \<noteq> 0" "d \<noteq> sep"
    using assms(1,3) by (cases "c = sep \<or> c = 92") (auto simp: entry_ok_def e)
  moreover have "parse_value sep ?val = Some (c # v, r)"
    using assms(1,3) by (intro parse_value_escape) (auto simp: entry_ok_def e)
  ultimately show ?thesis
    unfolding himport_parse_def entry_txt using assms(2) by (simp add: e)
qed

lemma himport_items_entries:
  assumes "\<forall>e \<in> set l. entry_ok sep e" "sep \<noteq> 61" "sep \<noteq> 92" "l \<noteq> []"
  shows "himport_items sep (concat (map (hexport_entry sep) l) @ 0 # pad)
    = Some (map (\<lambda>e. Assign (fst e) (snd e)) l)"
  using assms(1,4)
proof (induction l)
  case (Cons e l)
  let ?r = "concat (map (hexport_entry sep) l) @ 0 # pad"
  have p: "himport_parse sep (hexport_entry sep e @ ?r) = Some (Assign (fst e) (snd e), ?r)"
    using Cons.prems(1) by (intro himport_parse_entry assms(2,3)) simp
  show ?case
  proof (cases l)
    case Nil
    then show ?thesis using p by (subst himport_items.simps) simp
  next
    case (Cons e' l')
    then have "entry_ok sep e'" using Cons.prems(1) by simp
    then have "?r \<noteq> [] \<and> hd ?r \<noteq> 0"
      unfolding Cons by (cases e'; cases "fst e'") (auto simp: hexport_entry_def entry_ok_def)
    moreover have "himport_items sep ?r = Some (map (\<lambda>e. Assign (fst e) (snd e)) l)"
      using Cons.IH Cons.prems(1) Cons by simp
    ultimately show ?thesis
      using p by (subst himport_items.simps) simp
  qed
qed simp

lemma himport_items_empty: "himport_items sep (0 # replicate n 0) = Some [Delete []]"
proof -
  have "himport_parse sep (0 # replicate n 0) = Some (Delete [], replicate n 0)"
    by (simp add: himport_parse_def isblank_def)
  moreover have "\<not> (replicate n (0::u8) \<noteq> [] \<and> hd (replicate n (0::u8)) \<noteq> 0)"
    by (cases n) auto
  ultimately show ?thesis by (subst himport_items.simps) auto
qed

lemma env_apply_assigns:
  "distinct (map fst l) \<Longrightarrow> env_apply (map (\<lambda>e. Assign (fst e) (snd e)) l) m = m ++ map_of l"
proof (induction l arbitrary: m)
  case (Cons e l)
  then have "map_of l (fst e) = None" by (simp add: map_of_eq_None_iff)
  then have "m(fst e \<mapsto> snd e) ++ map_of l = (m ++ map_of l)(fst e \<mapsto> snd e)"
    by (auto simp: map_add_def fun_eq_iff split: option.splits)
  moreover have "env_apply (map (\<lambda>e. Assign (fst e) (snd e)) (e # l)) m = m(fst e \<mapsto> snd e) ++ map_of l"
    using Cons by simp
  ultimately show ?case by (simp only: map_of.simps map_add_upd)
qed simp

text \<open>Pass 1 collects the live entries, each key once.\<close>

definition entry_of :: "hslot \<Rightarrow> bytes \<times> bytes" where
  "entry_of e = (the (key e), the (data e))"

lemma hexport_list_all:
  assumes "\<forall>e \<in> set es. 0 < used e \<longrightarrow> key e \<noteq> None \<and> data e \<noteq> None"
  shows "hexport_list [] es = Some (map entry_of (filter (\<lambda>e. 0 < used e) es))"
    and "map_of (map entry_of (filter (\<lambda>e. 0 < used e) es)) k =
      (case find (\<lambda>e. 0 < used e \<and> key e = Some k) es of None \<Rightarrow> None | Some e \<Rightarrow> data e)"
  using assms by (induction es) (auto simp: entry_of_def)

lemma table_entries:
  assumes "table_ok sz t"
  defines "l \<equiv> map entry_of (filter (\<lambda>e. 0 < used e) (tl t))"
  shows "hexport_list [] (tl t) = Some l" "map_of l = slot_map t" "distinct (map fst l)"
proof -
  note okD = table_okD [OF assms(1)]
  have tl: "tl t = map ((!) t) [1..<Suc sz]"
    using okD(3) by (auto intro!: nth_equalityI simp: nth_tl simp del: upt_Suc)
  have "\<forall>e \<in> set (tl t). 0 < used e \<longrightarrow> key e \<noteq> None \<and> data e \<noteq> None"
    unfolding tl using okD(5) by (fastforce simp: slot_ok_def)
  note all = hexport_list_all [OF this]
  show "hexport_list [] (tl t) = Some l" unfolding l_def by (rule all(1))
  show "map_of l = slot_map t" unfolding l_def slot_map_def by (rule ext) (rule all(2))
  have "inj_on (\<lambda>j. the (key (t ! j))) {j \<in> {1..sz}. 0 < used (t ! j)}"
  proof (rule inj_onI)
    fix i j
    assume ij: "i \<in> {j \<in> {1..sz}. 0 < used (t ! j)}" "j \<in> {j \<in> {1..sz}. 0 < used (t ! j)}"
      "the (key (t ! i)) = the (key (t ! j))"
    then obtain ki kj where "key (t ! i) = Some ki" "key (t ! j) = Some kj"
      using okD(5) [of i] okD(5) [of j] by (auto simp: slot_ok_def)
    with ij show "i = j" by (intro okD(6)) auto
  qed
  moreover have "map fst l = map (\<lambda>j. the (key (t ! j))) (filter (\<lambda>j. 0 < used (t ! j)) [1..<Suc sz])"
    unfolding l_def tl by (simp add: filter_map o_def entry_of_def del: upt_Suc)
  moreover have "set (filter (\<lambda>j. 0 < used (t ! j)) [1..<Suc sz]) = {j \<in> {1..sz}. 0 < used (t ! j)}"
    by (auto simp del: upt_Suc)
  ultimately show "distinct (map fst l)" by (simp add: distinct_map del: upt_Suc)
qed

text \<open>Pass 2 writes at most what pass 1 counted, when the separator is not the null byte.\<close>

lemma hexport_fits:
  "sep \<noteq> 0 \<Longrightarrow> length (concat (map (hexport_entry sep) l)) \<le> sum_list (map (hexport_len sep) l)"
  by (induction l) (auto simp: hexport_entry_def hexport_len_def)

text \<open>The two results an export of a well-formed table can have when it does not fail for space.\<close>

lemma hexport_shape:
  assumes "ht_ok htab" "hexport_r malloc htab sep resp sz [] = Some (Inr out)"
  obtains l pad where "out = concat (map (hexport_entry sep) l) @ 0 # replicate pad 0"
    "map_of l = ht_map htab" "distinct (map fst l)"
proof -
  obtain t where t: "ht_table htab = Some t" "table_ok (ht_size htab) t" "ht_map htab = slot_map t"
    using assms(1) by (rule ht_okE)
  note ent = table_entries [OF t(2)]
  let ?l = "map entry_of (filter (\<lambda>e. 0 < used e) (tl t))"
  obtain l where l: "qsort cmpkey (length ?l) 4 ?l = Some l" "mset l = mset ?l"
    using qsort_mset [of 4 cmpkey ?l] by auto
  have s: "set l = set ?l" "distinct (map fst l)"
    using l(2) ent(3) by (metis set_mset_mset, metis mset_map mset_eq_imp_distinct_iff)
  have "map_of l = map_of ?l"
    using map_of_inject_set [OF s(2) ent(3)] s(1) by simp
  moreover obtain pad where "out = concat (map (hexport_entry sep) l) @ 0 # replicate pad 0"
    using assms(2) l(1) unfolding hexport_r_def
    by (auto simp: t(1) ent(1) Let_def split: if_splits)
  ultimately show thesis using that s(2) t(3) ent(2) by simp
qed

lemma sum_list_map_mset:
  fixes f :: "'a \<Rightarrow> nat"
  assumes "mset xs = mset ys"
  shows "sum_list (map f xs) = sum_list (map f ys)"
proof -
  have "sum_mset (mset (map f xs)) = sum_mset (mset (map f ys))"
    using assms by simp
  then show ?thesis by (simp only: sum_mset_sum_list)
qed

lemma hexport_total:
  assumes "ht_ok htab" "sep \<noteq> 0"
  shows "\<exists>out. hexport_r (\<lambda>_. True) htab sep resp 0 [] = Some (Inr out)"
proof -
  obtain t where t: "ht_table htab = Some t" "table_ok (ht_size htab) t"
    using assms(1) by (rule ht_okE)
  let ?l = "map entry_of (filter (\<lambda>e. 0 < used e) (tl t))"
  obtain l where l: "qsort cmpkey (length ?l) 4 ?l = Some l" "mset l = mset ?l"
    using qsort_mset [of 4 cmpkey ?l] by auto
  have "sum_list (map (hexport_len sep) l) = sum_list (map (hexport_len sep) ?l)"
    by (rule sum_list_map_mset [OF l(2)])
  then have "\<not> sum_list (map (hexport_len sep) ?l) + 1 < length (concat (map (hexport_entry sep) l) @ [0])"
    using hexport_fits [OF assms(2), of l] by simp
  then show ?thesis
    unfolding hexport_r_def t(1) option.case table_entries(1) [OF t(2)] Let_def l(1)
    by (simp only: simp_thms if_False) blast
qed

lemma roundtrip_import:
  assumes "ht_ok htab" "hexport_r malloc htab sep resp sz [] = Some (Inr out)"
    and "sep \<noteq> 61" "sep \<noteq> 92" "\<forall>k v. ht_map htab k = Some v \<longrightarrow> entry_ok sep (k, v)"
    and "card (dom (ht_map htab)) \<le> himport_entries (length out)"
  shows "\<exists>htab'. himport_r (\<lambda>_. True) htab0 out sep False = Some (1, htab') \<and> ht_ok htab' \<and> ht_map htab' = ht_map htab"
proof -
  obtain l pad where l: "out = concat (map (hexport_entry sep) l) @ 0 # replicate pad 0"
    "map_of l = ht_map htab" "distinct (map fst l)"
    using hexport_shape [OF assms(1,2)] .
  have ok: "\<forall>e \<in> set l. entry_ok sep e"
  proof
    fix e assume "e \<in> set l"
    then have "map_of l (fst e) = Some (snd e)" using l(3) by simp
    then have "entry_ok sep (fst e, snd e)" using assms(5) unfolding l(2) by blast
    then show "entry_ok sep e" by simp
  qed
  have "length l = card (dom (ht_map htab))"
    using l(3) distinct_card [of "map fst l"] by (simp add: l(2) [symmetric] dom_map_of_conv_image_fst)
  with assms(6) have room: "length l \<le> himport_entries (length out)" by simp
  show ?thesis
  proof (cases "l = []")
    case True
    then have "himport_items sep out = Some [Delete []]"
      using himport_items_empty [of sep pad] by (simp add: l(1))
    then show ?thesis
      using himport_clear [of sep out "[Delete []]" htab0] True l(2) by simp
  next
    case False
    then have "himport_items sep out = Some (map (\<lambda>e. Assign (fst e) (snd e)) l)"
      unfolding l(1) by (intro himport_items_entries ok assms(3,4))
    moreover have "filter is_assign (map (\<lambda>e. Assign (fst e) (snd e)) l) = map (\<lambda>e. Assign (fst e) (snd e)) l"
      by (auto simp: filter_id_conv)
    ultimately show ?thesis
      using himport_clear [of sep out _ htab0] room env_apply_assigns [OF l(3), of Map.empty] l(2) by simp
  qed
qed

subsection \<open>Properties\<close>

text \<open>
  C8: Importing the text that an export of a well-formed table produced gives a table with the same map, when
  the separator is neither \<open>=\<close> nor the backslash, every entry survives the text form (no null byte, no \<open>=\<close> and no
  separator in the name, which does not start with \<open>#\<close> or a blank, and a value that is not empty), and the
  table that the import sizes from the text has room for the entries. This is what \<open>saveenv\<close> followed by a boot
  relies on.
\<close>

theorem env_export_import:
  assumes "ht_ok htab" "hexport_r malloc htab sep resp sz [] = Some (Inr out)"
    and "sep \<noteq> 61" "sep \<noteq> 92" "\<forall>k v. ht_map htab k = Some v \<longrightarrow> entry_ok sep (k, v)"
    and "card (dom (ht_map htab)) \<le> himport_entries (length out)"
  shows "\<exists>htab'. himport_r (\<lambda>_. True) htab0 out sep False = Some (1, htab') \<and> ht_ok htab' \<and> ht_map htab' = ht_map htab"
  using assms by (rule roundtrip_import)

theorem env_export_import_witness:
  "\<exists>out htab'. hexport_r (\<lambda>_. True) demo_ht1 10 False 0 [] = Some (Inr out) \<and>
     himport_r (\<lambda>_. True) demo_ht out 10 False = Some (1, htab') \<and> ht_map htab' = [bs ''x'' \<mapsto> bs ''7'']"
proof -
  obtain out where out: "hexport_r (\<lambda>_. True) demo_ht1 10 False 0 [] = Some (Inr out)"
    using hexport_total [OF demo_ht1_ok(1), of 10] by auto
  have "entry_ok 10 (bs ''x'', bs ''7'')" by (simp add: entry_ok_def isblank_def)
  then have "\<forall>k v. ht_map demo_ht1 k = Some v \<longrightarrow> entry_ok 10 (k, v)" by (simp add: demo_ht1_ok(2) del: bs_simps)
  moreover have "card (dom (ht_map demo_ht1)) \<le> himport_entries (length out)" by (simp add: demo_ht1_ok(2) himport_entries_def)
  ultimately show ?thesis
    using env_export_import [OF demo_ht1_ok(1) out, of demo_ht] out by (auto simp: demo_ht1_ok(2) simp del: bs_simps)
qed

text \<open>
  C37: The export of a well-formed table with a separator other than the null byte succeeds when the size
  of the buffer is left open and memory can be had, and its second pass never writes past the buffer
  that the first pass sized, whatever size is asked for.
\<close>

theorem hexport_safe:
  assumes "ht_ok htab" "sep \<noteq> 0"
  shows "(\<exists>out. hexport_r (\<lambda>_. True) htab sep resp 0 [] = Some (Inr out)) \<and>
    hexport_r malloc htab sep resp sz [] \<noteq> Some (Inl Overflow)"
proof
  show "\<exists>out. hexport_r (\<lambda>_. True) htab sep resp 0 [] = Some (Inr out)"
    using assms by (rule hexport_total)
  obtain t where t: "ht_table htab = Some t" "table_ok (ht_size htab) t"
    using assms(1) by (rule ht_okE)
  let ?l = "map entry_of (filter (\<lambda>e. 0 < used e) (tl t))"
  obtain l where l: "qsort cmpkey (length ?l) 4 ?l = Some l" "mset l = mset ?l"
    using qsort_mset [of 4 cmpkey ?l] by auto
  have "sum_list (map (hexport_len sep) l) = sum_list (map (hexport_len sep) ?l)"
    by (rule sum_list_map_mset [OF l(2)])
  then have "length (concat (map (hexport_entry sep) l)) \<le> sum_list (map (hexport_len sep) ?l)"
    using hexport_fits [OF assms(2), of l] by simp
  then show "hexport_r malloc htab sep resp sz [] \<noteq> Some (Inl Overflow)"
    unfolding hexport_r_def t(1) option.case table_entries(1) [OF t(2)] Let_def l(1) by auto
qed

theorem hexport_safe_witness: "hexport_r (\<lambda>_. True) demo_ht 10 False 4 [] \<noteq> Some (Inl Overflow)"
  using hexport_safe [OF demo_ht_ok(1), of 10 False "\<lambda>_. True" 4] by simp

lemma full_live:
  assumes "table_ok sz t" "card (live sz t) = sz" "j \<in> {1..sz}"
  shows "0 < used (t ! j)"
proof -
  have "live sz t \<subseteq> {1..sz}" by (auto simp: live_def)
  then have "live sz t = {1..sz}" using assms(2) by (intro card_subset_eq [of "{1..sz}"]) simp_all
  then have "j \<in> live sz t" using assms(3) by (simp only:)
  then show ?thesis unfolding live_def by blast
qed

text \<open>
  A full table refuses a new name: when every slot is live, \<open>ENTER\<close> with a name that is not bound
  fails with \<open>ENOMEM\<close> and changes nothing.
\<close>

theorem hsearch_enter_full:
  assumes "ht_ok htab" "0 \<notin> set k" "ht_map htab k = None" "ht_filled htab = ht_size htab"
  shows "hsearch_r malloc k dat ENTER htab = Some (hfail ENOMEM, htab)"
proof -
  obtain t where t: "ht_table htab = Some t" "table_ok (ht_size htab) t"
    "ht_filled htab = card (live (ht_size htab) t)" "ht_map htab = slot_map t"
    using assms(1) by (rule ht_okE)
  then have "\<forall>j \<in> {1..ht_size htab}. used (t ! j) \<noteq> 0"
    using full_live [OF t(2)] assms(4) by fastforce
  then show ?thesis
    using hsearch_r_absent_full [OF t(2,1) assms(2)] assms(3,4) t(4) by (simp add: henter_def)
qed

theorem hsearch_enter_full_witness:
  "\<exists>h. env_run (ht_put (\<lambda>_. True)) ht_del
       [Assign [97] [1], Assign [98] [2], Assign [99] [3], Assign [100] [4], Assign [101] [5]] demo_ht = Some h \<and>
     hsearch_r (\<lambda>_. True) [102] (Some [6]) ENTER h = Some (hfail ENOMEM, h)"
proof -
  let ?is = "[Assign [97] [1], Assign [98] [2], Assign [99] [3], Assign [100] [4], Assign [101] [5]]"
  obtain h where h: "env_run (ht_put (\<lambda>_. True)) ht_del ?is demo_ht = Some h" "ht_ok h"
    "ht_map h = env_apply ?is (ht_map demo_ht)"
    using hstore.run_items [OF demo_ht_ok(1), of ?is] by (auto simp: demo_ht_ok)
  have "(case env_run (ht_put (\<lambda>_. True)) ht_del ?is demo_ht of None \<Rightarrow> False | Some h \<Rightarrow> ht_filled h = ht_size h)"
    by code_simp
  then have "ht_filled h = ht_size h" by (simp only: h(1) option.case)
  then show ?thesis
    using hsearch_enter_full [OF h(2), of "[102]" "\<lambda>_. True" "Some [6]"] h(1,3) by (simp add: demo_ht_ok)
qed

text \<open>
  Importing a text into a table that is kept performs the assignments and deletions that the text
  spells out, in order, on the map; it succeeds whenever the parser does and the table has room for the
  assignments.
\<close>

theorem himport_applies:
  assumes "ht_ok htab" "himport_items sep env = Some is" "length (filter is_assign is) \<le> free_slots htab"
  shows "\<exists>htab'. himport_r (\<lambda>_. True) htab env sep True = Some (1, htab') \<and> ht_ok htab' \<and>
    ht_map htab' = env_apply is (ht_map htab)"
  using assms by (rule himport_keep)

lemma demo_items: "himport_items 10 (bs ''a=1'' @ [10] @ bs ''b='' @ [10, 0]) = Some [Assign (bs ''a'') (bs ''1''), Delete (bs ''b'')]"
  by (simp add: himport_items.simps himport_parse_def isblank_def of_char_def)

theorem himport_applies_witness:
  "\<exists>htab'. himport_r (\<lambda>_. True) demo_ht (bs ''a=1'' @ [10] @ bs ''b='' @ [10, 0]) 10 True = Some (1, htab') \<and>
     ht_map htab' (bs ''a'') = Some (bs ''1'')"
  using himport_applies [OF demo_ht_ok(1) demo_items] by (auto simp: demo_ht_ok of_char_def)

subsection \<open>Where the table loses entries\<close>

text \<open>
  When no slot is free but one is deleted, the probe for a new name comes back to its first slot, and
  \<open>ENTER\<close> puts the new entry there, over a live one: the only deleted slot that is remembered is the
  first. Here a table of five entries loses the name \<open>b\<close> when \<open>g\<close> is entered after \<open>a\<close> was deleted.
\<close>

theorem enter_overwrites_live:
  "\<exists>h h'. env_run (ht_put (\<lambda>_. True)) ht_del
       [Assign [97] [1], Assign [98] [2], Assign [99] [3], Assign [100] [4], Assign [101] [5], Delete [97]] demo_ht = Some h \<and>
     ht_map h [98] = Some [2] \<and> ht_filled h < ht_size h \<and>
     ht_put (\<lambda>_. True) [103] [9] h = Some h' \<and> ht_map h' [98] = None"
proof -
  let ?h = "the (env_run (ht_put (\<lambda>_. True)) ht_del
       [Assign [97] [1], Assign [98] [2], Assign [99] [3], Assign [100] [4], Assign [101] [5], Delete [97]] demo_ht)"
  have "env_run (ht_put (\<lambda>_. True)) ht_del
       [Assign [97] [1], Assign [98] [2], Assign [99] [3], Assign [100] [4], Assign [101] [5], Delete [97]] demo_ht = Some ?h"
    by code_simp
  moreover have "ht_map ?h [98] = Some [2]" by code_simp
  moreover have "ht_filled ?h < ht_size ?h" by code_simp
  moreover have "ht_put (\<lambda>_. True) [103] [9] ?h = Some (the (ht_put (\<lambda>_. True) [103] [9] ?h))" by code_simp
  moreover have "ht_map (the (ht_put (\<lambda>_. True) [103] [9] ?h)) [98] = None" by code_simp
  ultimately show ?thesis by blast
qed

text \<open>
  With the null byte as separator the first pass of the export does not count the backslashes that the
  second pass writes: the buffer it allocates is too small.
\<close>

theorem hexport_nul_overflow:
  "\<exists>h. ht_put (\<lambda>_. True) [97] (replicate 5 92) demo_ht = Some h \<and>
     hexport_r (\<lambda>_. True) h 0 False 0 [] = Some (Inl Overflow)"
proof -
  let ?h = "the (ht_put (\<lambda>_. True) [97] (replicate 5 92) demo_ht)"
  have "ht_put (\<lambda>_. True) [97] (replicate 5 92) demo_ht = Some ?h" by code_simp
  moreover have "hexport_r (\<lambda>_. True) ?h 0 False 0 [] = Some (Inl Overflow)" by code_simp
  ultimately show ?thesis by blast
qed

text \<open>The searches by pattern stop before the last slot of the table.\<close>

theorem hmatch_misses_last:
  "\<exists>h. env_run (ht_put (\<lambda>_. True)) ht_del [Assign [98] [1], Assign [101] [2], Assign [103] [3]] demo_ht = Some h \<and>
     ht_map h [103] = Some [3] \<and> hmatch_r [103] 0 h = Some (hfail ESRCH)"
proof -
  let ?h = "the (env_run (ht_put (\<lambda>_. True)) ht_del [Assign [98] [1], Assign [101] [2], Assign [103] [3]] demo_ht)"
  have "env_run (ht_put (\<lambda>_. True)) ht_del [Assign [98] [1], Assign [101] [2], Assign [103] [3]] demo_ht = Some ?h"
    by code_simp
  moreover have "ht_map ?h [103] = Some [3]" by code_simp
  moreover have "hmatch_r [103] 0 ?h = Some (hfail ESRCH)" by code_simp
  ultimately show ?thesis by blast
qed

end
