(* ===== verification/Crc.thy ===== *)
theory Crc
  imports Prelude
begin

text \<open>
  The CRC-32 of \<open>lib/crc32.c\<close>, on the little-endian target (\<open>cpu_to_le32\<close> and \<open>le32_to_cpu\<close> are
  the identity). The source consumes single bytes up to a word boundary, then words, then the
  rest; \<open>crc32_no_comp\<close> has the same three loops, over the list of the bytes and the address of
  the first. Shown here: it is the byte-wise CRC whatever the alignment, the table is the one of
  the reflected polynomial 0xEDB88320, checksums of parts compose, and a change confined to
  four consecutive bytes always changes the checksum.
\<close>

definition crc_table :: "u32 list" where
  "crc_table = [
     0x00000000, 0x77073096, 0xee0e612c, 0x990951ba,
     0x076dc419, 0x706af48f, 0xe963a535, 0x9e6495a3,
     0x0edb8832, 0x79dcb8a4, 0xe0d5e91e, 0x97d2d988,
     0x09b64c2b, 0x7eb17cbd, 0xe7b82d07, 0x90bf1d91,
     0x1db71064, 0x6ab020f2, 0xf3b97148, 0x84be41de,
     0x1adad47d, 0x6ddde4eb, 0xf4d4b551, 0x83d385c7,
     0x136c9856, 0x646ba8c0, 0xfd62f97a, 0x8a65c9ec,
     0x14015c4f, 0x63066cd9, 0xfa0f3d63, 0x8d080df5,
     0x3b6e20c8, 0x4c69105e, 0xd56041e4, 0xa2677172,
     0x3c03e4d1, 0x4b04d447, 0xd20d85fd, 0xa50ab56b,
     0x35b5a8fa, 0x42b2986c, 0xdbbbc9d6, 0xacbcf940,
     0x32d86ce3, 0x45df5c75, 0xdcd60dcf, 0xabd13d59,
     0x26d930ac, 0x51de003a, 0xc8d75180, 0xbfd06116,
     0x21b4f4b5, 0x56b3c423, 0xcfba9599, 0xb8bda50f,
     0x2802b89e, 0x5f058808, 0xc60cd9b2, 0xb10be924,
     0x2f6f7c87, 0x58684c11, 0xc1611dab, 0xb6662d3d,
     0x76dc4190, 0x01db7106, 0x98d220bc, 0xefd5102a,
     0x71b18589, 0x06b6b51f, 0x9fbfe4a5, 0xe8b8d433,
     0x7807c9a2, 0x0f00f934, 0x9609a88e, 0xe10e9818,
     0x7f6a0dbb, 0x086d3d2d, 0x91646c97, 0xe6635c01,
     0x6b6b51f4, 0x1c6c6162, 0x856530d8, 0xf262004e,
     0x6c0695ed, 0x1b01a57b, 0x8208f4c1, 0xf50fc457,
     0x65b0d9c6, 0x12b7e950, 0x8bbeb8ea, 0xfcb9887c,
     0x62dd1ddf, 0x15da2d49, 0x8cd37cf3, 0xfbd44c65,
     0x4db26158, 0x3ab551ce, 0xa3bc0074, 0xd4bb30e2,
     0x4adfa541, 0x3dd895d7, 0xa4d1c46d, 0xd3d6f4fb,
     0x4369e96a, 0x346ed9fc, 0xad678846, 0xda60b8d0,
     0x44042d73, 0x33031de5, 0xaa0a4c5f, 0xdd0d7cc9,
     0x5005713c, 0x270241aa, 0xbe0b1010, 0xc90c2086,
     0x5768b525, 0x206f85b3, 0xb966d409, 0xce61e49f,
     0x5edef90e, 0x29d9c998, 0xb0d09822, 0xc7d7a8b4,
     0x59b33d17, 0x2eb40d81, 0xb7bd5c3b, 0xc0ba6cad,
     0xedb88320, 0x9abfb3b6, 0x03b6e20c, 0x74b1d29a,
     0xead54739, 0x9dd277af, 0x04db2615, 0x73dc1683,
     0xe3630b12, 0x94643b84, 0x0d6d6a3e, 0x7a6a5aa8,
     0xe40ecf0b, 0x9309ff9d, 0x0a00ae27, 0x7d079eb1,
     0xf00f9344, 0x8708a3d2, 0x1e01f268, 0x6906c2fe,
     0xf762575d, 0x806567cb, 0x196c3671, 0x6e6b06e7,
     0xfed41b76, 0x89d32be0, 0x10da7a5a, 0x67dd4acc,
     0xf9b9df6f, 0x8ebeeff9, 0x17b7be43, 0x60b08ed5,
     0xd6d6a3e8, 0xa1d1937e, 0x38d8c2c4, 0x4fdff252,
     0xd1bb67f1, 0xa6bc5767, 0x3fb506dd, 0x48b2364b,
     0xd80d2bda, 0xaf0a1b4c, 0x36034af6, 0x41047a60,
     0xdf60efc3, 0xa867df55, 0x316e8eef, 0x4669be79,
     0xcb61b38c, 0xbc66831a, 0x256fd2a0, 0x5268e236,
     0xcc0c7795, 0xbb0b4703, 0x220216b9, 0x5505262f,
     0xc5ba3bbe, 0xb2bd0b28, 0x2bb45a92, 0x5cb36a04,
     0xc2d7ffa7, 0xb5d0cf31, 0x2cd99e8b, 0x5bdeae1d,
     0x9b64c2b0, 0xec63f226, 0x756aa39c, 0x026d930a,
     0x9c0906a9, 0xeb0e363f, 0x72076785, 0x05005713,
     0x95bf4a82, 0xe2b87a14, 0x7bb12bae, 0x0cb61b38,
     0x92d28e9b, 0xe5d5be0d, 0x7cdcefb7, 0x0bdbdf21,
     0x86d3d2d4, 0xf1d4e242, 0x68ddb3f8, 0x1fda836e,
     0x81be16cd, 0xf6b9265b, 0x6fb077e1, 0x18b74777,
     0x88085ae6, 0xff0f6a70, 0x66063bca, 0x11010b5c,
     0x8f659eff, 0xf862ae69, 0x616bffd3, 0x166ccf45,
     0xa00ae278, 0xd70dd2ee, 0x4e048354, 0x3903b3c2,
     0xa7672661, 0xd06016f7, 0x4969474d, 0x3e6e77db,
     0xaed16a4a, 0xd9d65adc, 0x40df0b66, 0x37d83bf0,
     0xa9bcae53, 0xdebb9ec5, 0x47b2cf7f, 0x30b5ffe9,
     0xbdbdf21c, 0xcabac28a, 0x53b39330, 0x24b4a3a6,
     0xbad03605, 0xcdd70693, 0x54de5729, 0x23d967bf,
     0xb3667a2e, 0xc4614ab8, 0x5d681b02, 0x2a6f2b94,
     0xb40bbe37, 0xc30c8ea1, 0x5a05df1b, 0x2d02ef8d]"

definition DO_CRC :: "u32 \<Rightarrow> u32 \<Rightarrow> u32" where
  "DO_CRC crc x = crc_table ! unat ((crc XOR x) AND 255) XOR drop_bit 8 crc"

fun crc_align :: "nat \<Rightarrow> u32 \<Rightarrow> bytes \<Rightarrow> u32 \<times> bytes" where
  "crc_align addr crc [] = (crc, [])"
| "crc_align addr crc (b # bl) =
     (if addr mod 4 \<noteq> 0 then crc_align (addr + 1) (DO_CRC crc (ucast b)) bl else (crc, b # bl))"

fun crc_words :: "u32 \<Rightarrow> bytes \<Rightarrow> u32 \<times> bytes" where
  "crc_words crc (b0 # b1 # b2 # b3 # bl) =
     crc_words (DO_CRC (DO_CRC (DO_CRC (DO_CRC (crc XOR le32 b0 b1 b2 b3) 0) 0) 0) 0) bl"
| "crc_words crc bl = (crc, bl)"

definition crc_bytes :: "u32 \<Rightarrow> bytes \<Rightarrow> u32" where
  "crc_bytes crc bl = foldl (\<lambda>c b. DO_CRC c (ucast b)) crc bl"

definition crc32_no_comp :: "nat \<Rightarrow> u32 \<Rightarrow> bytes \<Rightarrow> u32" where
  "crc32_no_comp addr crc buf =
     (let (crc1, buf1) = crc_align addr crc buf;
          (crc2, buf2) = crc_words crc1 buf1
      in crc_bytes crc2 buf2)"

definition crc32 :: "nat \<Rightarrow> u32 \<Rightarrow> bytes \<Rightarrow> u32" where
  "crc32 addr crc p = crc32_no_comp addr (crc XOR 0xffffffff) p XOR 0xffffffff"

text \<open>
  \<open>crc32_wd\<close> has two bodies; the first argument says whether a watchdog is configured. With one,
  the buffer is consumed in chunks, and a chunk size of zero never ends.
\<close>

partial_function (option) crc32_chunks :: "nat \<Rightarrow> u32 \<Rightarrow> bytes \<Rightarrow> nat \<Rightarrow> u32 option" where
  "crc32_chunks addr crc buf chunk_sz =
     (if buf = [] then Some crc
      else let chunk = min (length buf) chunk_sz in
           crc32_chunks (addr + chunk) (crc32 addr crc (take chunk buf)) (drop chunk buf) chunk_sz)"

definition crc32_wd :: "bool \<Rightarrow> nat \<Rightarrow> u32 \<Rightarrow> bytes \<Rightarrow> nat \<Rightarrow> u32 option" where
  "crc32_wd watchdog addr crc buf chunk_sz =
     (if watchdog then crc32_chunks addr crc buf chunk_sz else Some (crc32 addr crc buf))"

subsection \<open>Words and bytes\<close>

lemma crc_table_length [simp]: "length crc_table = 256"
  by (simp add: crc_table_def)

lemma and_255_lt: "unat ((w :: u32) AND 255) < 256"
proof -
  have "w AND 255 \<le> 255" by (rule word_and_le1)
  then show ?thesis by (simp add: word_le_nat_alt)
qed

text \<open>Moving the data into the register: the low byte is consumed, the rest waits.\<close>

lemma DO_CRC_feed: "DO_CRC (crc XOR w) 0 = DO_CRC crc (w AND 255) XOR drop_bit 8 w"
proof -
  have "(crc XOR (w AND 255)) AND 255 = (crc XOR w) AND 255"
    unfolding mask_255 by (rule bit_word_eqI) (auto simp: bit_simps)
  then show ?thesis by (simp add: DO_CRC_def drop_bit_xor xor.assoc)
qed

lemma word_step:
  "DO_CRC (DO_CRC (DO_CRC (DO_CRC (crc XOR le32 b0 b1 b2 b3) 0) 0) 0) 0 =
   DO_CRC (DO_CRC (DO_CRC (DO_CRC crc (ucast b0)) (ucast b1)) (ucast b2)) (ucast b3)"
  by (simp only: DO_CRC_feed le32_bytes xor.right_neutral)

lemma crc_bytes_append: "crc_bytes crc (xs @ ys) = crc_bytes (crc_bytes crc xs) ys"
  by (simp add: crc_bytes_def)

lemma crc_align_bytes: "crc_align addr crc bl = (c, r) \<Longrightarrow> crc_bytes c r = crc_bytes crc bl"
  by (induction addr crc bl rule: crc_align.induct) (auto simp: crc_bytes_def split: if_splits)

lemma crc_words_bytes: "crc_words crc bl = (c, r) \<Longrightarrow> crc_bytes c r = crc_bytes crc bl"
  by (induction crc bl rule: crc_words.induct) (auto simp: crc_bytes_def word_step)

lemma crc32_no_comp_bytes: "crc32_no_comp addr crc buf = crc_bytes crc buf"
  by (auto simp: crc32_no_comp_def dest!: crc_align_bytes crc_words_bytes split: prod.split)

subsection \<open>The table and the polynomial\<close>

text \<open>One bit of the division by the reflected polynomial.\<close>

definition crc_bit :: "u32 \<Rightarrow> u32" where
  "crc_bit c = (if bit c 0 then drop_bit 1 c XOR 0xEDB88320 else drop_bit 1 c)"

lemma crc_bit_xor: "crc_bit (a XOR b) = crc_bit a XOR crc_bit b"
  by (simp add: crc_bit_def drop_bit_xor bit_xor_iff xor.assoc xor.left_commute xor.commute)

lemma crc_bits_xor: "(crc_bit ^^ n) (a XOR b) = (crc_bit ^^ n) a XOR (crc_bit ^^ n) b"
  by (induction n) (simp_all add: crc_bit_xor)

lemma crc_bits_shift: "(\<And>i. i < n \<Longrightarrow> \<not> bit h i) \<Longrightarrow> (crc_bit ^^ n) h = drop_bit n h"
  by (induction n) (simp_all add: crc_bit_def bit_drop_bit_eq drop_bit_drop_bit)

text \<open>All combinations of a list of words, in the order of the binary numerals.\<close>

fun span :: "u32 list \<Rightarrow> u32 list" where
  "span [] = [0]"
| "span (t # ts) = (let r = span ts in r @ map ((XOR) t) r)"

lemma word_of_nat_top:
  assumes "n < 2 ^ k"
  shows "(2 ^ k :: u32) + word_of_nat n = 2 ^ k XOR word_of_nat n"
proof -
  have "take_bit k n = n" using assms by (simp add: take_bit_nat_eq_self)
  then have "bit n i \<Longrightarrow> i < k" for i by (metis bit_take_bit_iff)
  then have "(2 ^ k :: u32) AND word_of_nat n = 0"
    by (intro bit_word_eqI) (auto simp: bit_simps)
  then show ?thesis by (simp add: disjunctive_add_eq_xor)
qed

lemma span_linear:
  fixes f :: "u32 \<Rightarrow> u32"
  assumes "\<And>a b. f (a XOR b) = f a XOR f b"
  shows "span (map (\<lambda>i. f (2 ^ i)) (rev [0..<k])) = map (\<lambda>n. f (word_of_nat n)) [0..<2 ^ k]"
proof (induction k)
  case 0
  have "f 0 = 0" using assms [of 0 0] by simp
  then show ?case by simp
next
  case (Suc k)
  have "map (\<lambda>n. f (word_of_nat n)) [2 ^ k..<2 ^ k + 2 ^ k] = map ((XOR) (f (2 ^ k))) (map (\<lambda>n. f (word_of_nat n)) [0..<2 ^ k])"
  proof -
    have "[2 ^ k..<2 ^ k + 2 ^ k] = map ((+) (2 ^ k)) [0..<2 ^ k]"
      by (simp add: map_add_upt [symmetric] add.commute)
    then show ?thesis
      by (auto simp: o_def word_of_nat_top assms [symmetric])
  qed
  moreover have "[0..<2 ^ Suc k] = [0..<2 ^ k] @ [2 ^ k..<2 ^ k + 2 ^ k]"
    by (simp add: mult_2 upt_add_eq_append [of 0])
  ultimately show ?case using Suc by simp
qed

lemma crc_table_span:
  "crc_table = span [0xedb88320, 0x76dc4190, 0x3b6e20c8, 0x1db71064, 0x0edb8832, 0x076dc419, 0xee0e612c, 0x77073096]"
  by (simp add: crc_table_def)

lemma crc_bit_poly: "crc_bit 1 = 0xedb88320"
  by (simp add: crc_bit_def)

lemma crc_bit_steps:
  "crc_bit 128 = 64" "crc_bit 64 = 32" "crc_bit 32 = 16" "crc_bit 16 = 8" "crc_bit 8 = 4" "crc_bit 4 = 2" "crc_bit 2 = 1"
  "crc_bit 0xedb88320 = 0x76dc4190"
  "crc_bit 0x76dc4190 = 0x3b6e20c8"
  "crc_bit 0x3b6e20c8 = 0x1db71064"
  "crc_bit 0x1db71064 = 0x0edb8832"
  "crc_bit 0x0edb8832 = 0x076dc419"
  "crc_bit 0x076dc419 = 0xee0e612c"
  "crc_bit 0xee0e612c = 0x77073096"
  by (simp_all add: crc_bit_def)

lemma crc_bits_basis: "map (\<lambda>i. (crc_bit ^^ 8) (2 ^ i)) (rev [0..<8])
    = [0xedb88320, 0x76dc4190, 0x3b6e20c8, 0x1db71064, 0x0edb8832, 0x076dc419, 0xee0e612c, 0x77073096]"
proof -
  have bits: "(crc_bit ^^ 8) c = crc_bit (crc_bit (crc_bit (crc_bit (crc_bit (crc_bit (crc_bit (crc_bit c)))))))" for c
    by (simp add: numeral_eq_Suc)
  have "[0..<8] = [0, 1, 2, 3, 4, 5, 6, 7 :: nat]" by (simp add: upt_rec)
  then show ?thesis
    by (simp add: bits crc_bit_poly crc_bit_steps)
qed

lemma crc_table_bits: "n < 256 \<Longrightarrow> crc_table ! n = (crc_bit ^^ 8) (word_of_nat n)"
  using span_linear [of "crc_bit ^^ 8" 8, OF crc_bits_xor]
  unfolding crc_bits_basis crc_table_span by simp

text \<open>A table step is eight steps of the division.\<close>

lemma DO_CRC_bits: "DO_CRC c 0 = (crc_bit ^^ 8) c"
proof -
  have "c = (c AND 255) XOR (c AND NOT 255)"
    by (rule bit_word_eqI) (auto simp: bit_simps)
  then have "(crc_bit ^^ 8) c = (crc_bit ^^ 8) (c AND 255) XOR (crc_bit ^^ 8) (c AND NOT 255)"
    using crc_bits_xor by metis
  moreover have "(crc_bit ^^ 8) (c AND NOT 255) = drop_bit 8 (c AND NOT 255)"
    unfolding mask_255 by (rule crc_bits_shift) (simp add: bit_simps)
  moreover have "drop_bit 8 (c AND NOT 255) = drop_bit 8 c"
    unfolding mask_255 by (rule bit_word_eqI) (auto simp: bit_simps dest: bit_u32_lt)
  moreover have "crc_table ! unat (c AND 255) = (crc_bit ^^ 8) (c AND 255)"
    using crc_table_bits [OF and_255_lt, of c] by simp
  ultimately show ?thesis by (simp add: DO_CRC_def)
qed

lemma DO_CRC_byte: "DO_CRC c (ucast (b :: u8)) = DO_CRC (c XOR ucast b) 0"
proof -
  have "(ucast b :: u32) AND 255 = ucast b" "drop_bit 8 (ucast b :: u32) = 0"
    unfolding mask_255 by (rule bit_word_eqI; auto simp: bit_simps dest: bit_u8_lt)+
  then show ?thesis using DO_CRC_feed [of c "ucast b"] by simp
qed

subsection \<open>Error detection\<close>

lemma xor_cancel: "(c XOR x = c XOR y) = (x = y)" "(x XOR c = y XOR c) = (x = y)" for c x y :: u32
  by (auto simp: bit_eq_iff bit_xor_iff)

lemma crc_bit_inj: "inj crc_bit"
proof (rule injI)
  fix a b assume eq: "crc_bit a = crc_bit b"
  have top: "bit (crc_bit c) 31 \<longleftrightarrow> bit c 0" for c
    by (auto simp: crc_bit_def bit_simps dest: bit_u32_lt)
  with eq have "bit a 0 \<longleftrightarrow> bit b 0" by metis
  moreover from this eq have "drop_bit 1 a = drop_bit 1 b"
    by (auto simp: crc_bit_def xor_cancel split: if_splits)
  then have "bit a (Suc i) \<longleftrightarrow> bit b (Suc i)" for i
    by (metis bit_drop_bit_eq comp_apply plus_1_eq_Suc)
  ultimately have "bit a i \<longleftrightarrow> bit b i" for i by (cases i) auto
  then show "a = b" by (simp add: bit_eq_iff)
qed

lemma DO_CRC_inj: "DO_CRC c 0 = DO_CRC c' 0 \<longleftrightarrow> c = c'"
  unfolding DO_CRC_bits using inj_fn [OF crc_bit_inj, of 8] by (simp add: inj_eq)

lemma crc_bytes_inj: "crc_bytes c bl = crc_bytes c' bl \<longleftrightarrow> c = c'"
proof (induction bl arbitrary: c c')
  case (Cons b bl)
  have "DO_CRC c (ucast b) = DO_CRC c' (ucast b) \<longleftrightarrow> c = c'"
    unfolding DO_CRC_byte DO_CRC_inj by (rule xor_cancel)
  with Cons show ?case by (simp add: crc_bytes_def)
qed (simp add: crc_bytes_def)

lemma le32_inj: "le32 a0 a1 a2 a3 = le32 b0 b1 b2 b3 \<longleftrightarrow> a0 = b0 \<and> a1 = b1 \<and> a2 = b2 \<and> a3 = b3"
proof
  have inj: "(ucast a :: u32) = ucast b \<Longrightarrow> a = b" for a b :: u8
    by (auto simp: bit_eq_iff bit_simps dest: bit_u8_lt)
  assume "le32 a0 a1 a2 a3 = le32 b0 b1 b2 b3"
  then show "a0 = b0 \<and> a1 = b1 \<and> a2 = b2 \<and> a3 = b3"
    using le32_bytes [of a0 a1 a2 a3] le32_bytes [of b0 b1 b2 b3] by (auto intro!: inj)
qed simp

lemma crc_four_bytes:
  "crc_bytes c [a0, a1, a2, a3] = crc_bytes c [b0, b1, b2, b3] \<longleftrightarrow> [a0, a1, a2, a3] = [b0, b1, b2, b3]"
proof -
  have "crc_bytes c [x0, x1, x2, x3] = DO_CRC (DO_CRC (DO_CRC (DO_CRC (c XOR le32 x0 x1 x2 x3) 0) 0) 0) 0" for x0 x1 x2 x3
    by (simp add: crc_bytes_def word_step)
  then show ?thesis by (simp add: DO_CRC_inj le32_inj xor_cancel)
qed

subsection \<open>The interface functions\<close>

lemma crc32_eq: "crc32 addr crc p = crc_bytes (crc XOR 0xffffffff) p XOR 0xffffffff"
  by (simp add: crc32_def crc32_no_comp_bytes)

lemma crc32_append: "crc32 addr' (crc32 addr crc xs) ys = crc32 addr'' crc (xs @ ys)"
  by (simp add: crc32_eq crc_bytes_append xor.assoc)

lemma crc32_chunks_eq:
  assumes "0 < chunk_sz"
  shows "crc32_chunks addr crc buf chunk_sz = Some (crc32 addr crc buf)"
proof (induction "length buf" arbitrary: addr crc buf rule: less_induct)
  case less
  show ?case
  proof (cases "buf = []")
    case True
    then show ?thesis
      by (subst crc32_chunks.simps) (simp add: crc32_eq crc_bytes_def xor.assoc)
  next
    case False
    let ?n = "min (length buf) chunk_sz"
    have "length (drop ?n buf) < length buf" using False assms by simp
    then have "crc32_chunks (addr + ?n) (crc32 addr crc (take ?n buf)) (drop ?n buf) chunk_sz
        = Some (crc32 (addr + ?n) (crc32 addr crc (take ?n buf)) (drop ?n buf))"
      by (rule less)
    also have "crc32 (addr + ?n) (crc32 addr crc (take ?n buf)) (drop ?n buf) = crc32 addr crc buf"
      using crc32_append [of "addr + ?n" addr crc "take ?n buf" "drop ?n buf" addr] append_take_drop_id [of ?n buf]
      by (simp only:)
    finally show ?thesis using False by (subst crc32_chunks.simps) (simp add: Let_def)
  qed
qed

lemma crc32_burst:
  assumes "length d = 4" "length d' = 4" "d \<noteq> d'"
  shows "crc32 addr crc (xs @ d @ ys) \<noteq> crc32 addr' crc (xs @ d' @ ys)"
proof -
  have four: "\<exists>x0 x1 x2 x3. x = [x0, x1, x2, x3]" if "length x = 4" for x :: bytes
    using that by (auto simp: numeral_eq_Suc length_Suc_conv)
  obtain a0 a1 a2 a3 b0 b1 b2 b3 where d: "d = [a0, a1, a2, a3]" and d': "d' = [b0, b1, b2, b3]"
    using four [OF assms(1)] four [OF assms(2)] by blast
  show ?thesis
    unfolding crc32_eq xor_cancel crc_bytes_append crc_bytes_inj
    using assms(3) crc_four_bytes [of _ a0 a1 a2 a3 b0 b1 b2 b3] d d' by simp
qed

subsection \<open>Properties\<close>

text \<open>
  C32: The table-driven checksum, which handles unaligned bytes, whole words and the rest in three loops,
  is the bit-serial division by the reflected polynomial \<open>0xEDB88320\<close>: every byte is added to the
  remainder and eight bits are divided out, between two complements.
\<close>

theorem crc32_bit_serial:
  "crc32 addr crc p = foldl (\<lambda>c b. (crc_bit ^^ 8) (c XOR ucast b)) (crc XOR 0xffffffff) p XOR 0xffffffff"
  by (simp only: crc32_eq crc_bytes_def DO_CRC_byte DO_CRC_bits)

text \<open>
  The checksum in chunks with a watchdog reset between them is the checksum of the whole buffer, for
  every chunk size but zero, with or without a watchdog; the loop ends.
\<close>

theorem crc32_wd_correct:
  assumes "0 < chunk_sz"
  shows "crc32_wd watchdog addr crc buf chunk_sz = Some (crc32 addr crc buf)"
  using crc32_chunks_eq [OF assms] by (simp add: crc32_wd_def)

theorem crc32_wd_correct_witness: "crc32_wd True 0 0 [1, 2, 3, 4, 5] 2 = Some (crc32 0 0 [1, 2, 3, 4, 5])"
  by (rule crc32_wd_correct) simp

text \<open>
  A change that is confined to four consecutive bytes of a buffer always changes the checksum.
\<close>

theorem crc32_detects_burst:
  assumes "length d = 4" "length d' = 4" "d \<noteq> d'"
  shows "crc32 addr crc (xs @ d @ ys) \<noteq> crc32 addr' crc (xs @ d' @ ys)"
  using assms by (rule crc32_burst)

theorem crc32_detects_burst_witness: "crc32 0 0 ([9] @ [1, 2, 3, 4] @ [7]) \<noteq> crc32 0 0 ([9] @ [1, 0, 3, 4] @ [7])"
  by (rule crc32_detects_burst) simp_all

end
