(* ===== verification/Strtoul.thy ===== *)
theory Strtoul
  imports Cstring
begin

text \<open>
  The number parsers and the decimal digit generators of \<open>lib/vsprintf.c\<close>.

  A string that is only read is the list of the bytes before its terminator: \<open>peek\<close> is \<open>*cp\<close> (the
  terminator when the list is empty), \<open>tl\<close> is \<open>cp + 1\<close>, and the tail a parser stores through
  \<open>endp\<close> is the list that is left. \<open>unsigned long\<close> is 32 bits wide and \<open>unsigned long long\<close> 64;
  the loop of the two parsers is one definition at either width. The digit generators return the
  characters they store, in the order of the stores (the least significant digit first).

  \<open>rdigits\<close> is the reference: the digits of a number in a base, the least significant first. The
  lemmas show that the shift-and-multiply code of \<open>put_dec_trunc\<close> and \<open>put_dec_full\<close> computes them,
  and that the parsers invert them.
\<close>

type_synonym u64 = "64 word"

definition peek :: "bytes \<Rightarrow> u8" where
  "peek s = (case s of [] \<Rightarrow> 0 | c # _ \<Rightarrow> c)"

lemma peek_simps [simp]: "peek [] = 0" "peek (c # s) = c"
  by (simp_all add: peek_def)

subsection \<open>Parsing\<close>

definition digit_value :: "u8 \<Rightarrow> 'a::len word" where
  "digit_value c =
     (if isdigit c then ucast c - 48
      else ucast (if islower c then toupper c else c) - 65 + 10)"

text \<open>The treatment of a leading \<open>0\<close> or \<open>0x\<close>, which fixes the base.\<close>

definition strto_prefix :: "bytes \<Rightarrow> u32 \<Rightarrow> u32 \<times> bytes" where
  "strto_prefix cp base =
     (let (base, cp) =
        (if peek cp = 48
         then let cp = tl cp;
                  (base, cp) = (if peek cp = 120 \<and> isxdigit (peek (tl cp)) then (16, tl cp) else (base, cp))
              in (if base = 0 then 8 else base, cp)
         else (base, cp))
      in (if base = 0 then 10 else base, cp))"

fun strto_loop :: "bytes \<Rightarrow> 'a::len word \<Rightarrow> 'a word \<Rightarrow> 'a word \<times> bytes" where
  "strto_loop [] base result = (result, [])"
| "strto_loop (c # cp) base result =
     (if isxdigit c \<and> (digit_value c :: 'a word) < base
      then strto_loop cp base (result * base + digit_value c)
      else (result, c # cp))"

definition simple_strtoul :: "bytes \<Rightarrow> u32 \<Rightarrow> u32 \<times> bytes" where
  "simple_strtoul cp base = (let (base, cp) = strto_prefix cp base in strto_loop cp base 0)"

definition simple_strtoull :: "bytes \<Rightarrow> u32 \<Rightarrow> u64 \<times> bytes" where
  "simple_strtoull cp base = (let (base, cp) = strto_prefix cp base in strto_loop cp (ucast base) 0)"

text \<open>\<open>strict_strtoul\<close> returns the error code and the value stored in \<open>*res\<close>; \<open>EINVAL\<close> is 22.\<close>

definition strict_strtoul :: "bytes \<Rightarrow> u32 \<Rightarrow> int \<times> u32" where
  "strict_strtoul cp base =
     (let len = length cp
      in if len = 0 then (- 22, 0)
         else let (val, tail) = simple_strtoul cp base
              in if length tail = length cp then (- 22, 0)
                 else if peek tail = 0 \<or> len = (length cp - length tail) + 1 \<and> peek tail = 10
                 then (0, val)
                 else (- 22, 0))"

definition simple_strtol :: "bytes \<Rightarrow> u32 \<Rightarrow> u32 \<times> bytes" where
  "simple_strtol cp base =
     (if peek cp = 45 then (case simple_strtoul (tl cp) base of (v, e) \<Rightarrow> (- v, e))
      else simple_strtoul cp base)"

text \<open>The suffix of a size: \<open>G\<close> falls through to \<open>M\<close>, and \<open>M\<close> to \<open>K\<close>. The value is returned as an
  \<open>int\<close>, the same 32 bits.\<close>

definition ustrtoul :: "bytes \<Rightarrow> u32 \<Rightarrow> u32 \<times> bytes" where
  "ustrtoul cp base =
     (let (result, endp) = simple_strtoul cp base;
          c = peek endp;
          result = (if c = 71 then result * 1024 else result);
          result = (if c = 71 \<or> c = 77 then result * 1024 else result)
      in if c = 71 \<or> c = 77 \<or> c = 75 \<or> c = 107
         then (result * 1024,
               if peek (tl endp) = 105
               then (if peek (tl (tl endp)) = 66 then drop 3 endp else drop 2 endp)
               else endp)
         else (result, endp))"

subsection \<open>Decimal digits\<close>

definition put_dec_trunc :: "u32 \<Rightarrow> bytes" where
  "put_dec_trunc q =
     (let d1 = drop_bit 4 q AND 15;
          d2 = drop_bit 8 q AND 15;
          d3 = drop_bit 12 q;
          d0 = 6 * (d3 + d2 + d1) + (q AND 15);
          q = drop_bit 11 (d0 * 205);
          d0 = d0 - 10 * q;
          d1 = q + 9 * d3 + 5 * d2 + d1
      in ucast (d0 + 48) #
         (if d1 \<noteq> 0
          then let q = drop_bit 11 (d1 * 205);
                   d1 = d1 - 10 * q;
                   d2 = q + 2 * d2
               in ucast (d1 + 48) #
                  (if d2 \<noteq> 0 \<or> d3 \<noteq> 0
                   then let q = drop_bit 7 (d2 * 13);
                            d2 = d2 - 10 * q;
                            d3 = q + 4 * d3
                        in ucast (d2 + 48) #
                           (if d3 \<noteq> 0
                            then let q = drop_bit 11 (d3 * 205);
                                     d3 = d3 - 10 * q
                                 in ucast (d3 + 48) # (if q \<noteq> 0 then [ucast (q + 48)] else [])
                            else [])
                   else [])
          else []))"

definition put_dec_full :: "u32 \<Rightarrow> bytes" where
  "put_dec_full q =
     (let d1 = drop_bit 4 q AND 15;
          d2 = drop_bit 8 q AND 15;
          d3 = drop_bit 12 q;
          d0 = 6 * (d3 + d2 + d1) + (q AND 15);
          q = drop_bit 11 (d0 * 205);
          d0 = d0 - 10 * q;
          d1 = q + 9 * d3 + 5 * d2 + d1;
          q = drop_bit 11 (d1 * 205);
          d1 = d1 - 10 * q;
          d2 = q + 2 * d2;
          q = drop_bit 7 (d2 * 13);
          d2 = d2 - 10 * q;
          d3 = q + 4 * d3;
          q = drop_bit 11 (d3 * 205);
          d3 = d3 - 10 * q
      in [ucast (d0 + 48), ucast (d1 + 48), ucast (d2 + 48), ucast (d3 + 48), ucast (q + 48)])"

function put_dec :: "u64 \<Rightarrow> bytes" where
  "put_dec num =
     (if num < 100000 then put_dec_trunc (ucast num)
      else put_dec_full (ucast (num mod 100000)) @ put_dec (num div 100000))"
  by auto
termination
proof (relation "measure unat")
  fix num :: u64
  assume "\<not> num < 100000"
  then have "100000 \<le> unat num" by (simp add: not_less word_le_nat_alt)
  then show "(num div 100000, num) \<in> measure unat" by (simp add: unat_div)
qed simp

declare put_dec.simps [simp del]

text \<open>\<open>simple_itoa\<close> fills its static array from the end; the result is the string it returns.\<close>

function simple_itoa_loop :: "u32 \<Rightarrow> bytes \<Rightarrow> bytes" where
  "simple_itoa_loop i p =
     (let p = ucast (48 + i mod 10) # p; i = i div 10
      in if i > 0 then simple_itoa_loop i p else p)"
  by auto
termination
proof (relation "measure (unat \<circ> fst)")
  fix i j :: u32 and p q :: bytes
  assume "j = i div 10" "j > 0"
  then have "0 < unat i div 10" by (simp add: word_less_nat_alt unat_div)
  with \<open>j = i div 10\<close> show "((j, q), i, p) \<in> measure (unat \<circ> fst)" by (simp add: unat_div)
qed simp

declare simple_itoa_loop.simps [simp del]

definition simple_itoa :: "u32 \<Rightarrow> bytes" where
  "simple_itoa i = simple_itoa_loop i []"

subsection \<open>The reference: digits of a number\<close>

fun rdigits :: "nat \<Rightarrow> nat \<Rightarrow> nat list" where
  "rdigits b n = (if b < 2 \<or> n < b then [n] else n mod b # rdigits b (n div b))"

declare rdigits.simps [simp del]

definition dec_char :: "nat \<Rightarrow> u8" where
  "dec_char d = word_of_nat (d + 48)"

definition decimal :: "nat \<Rightarrow> bytes" where
  "decimal n = map dec_char (rev (rdigits 10 n))"

lemma rdigits_small: "n < b \<Longrightarrow> rdigits b n = [n]"
  by (simp add: rdigits.simps)

lemma rdigits_step: "2 \<le> b \<Longrightarrow> b \<le> n \<Longrightarrow> rdigits b n = n mod b # rdigits b (n div b)"
  by (subst rdigits.simps) simp

lemma rdigits_lt: "2 \<le> b \<Longrightarrow> d \<in> set (rdigits b n) \<Longrightarrow> d < b"
proof (induction b n rule: rdigits.induct)
  case (1 b n)
  then show ?case by (cases "n < b") (auto simp: rdigits_small rdigits_step)
qed

lemma rdigits_nonempty [simp]: "rdigits b n \<noteq> []"
  by (subst rdigits.simps) simp

lemma rdigits_value:
  "2 \<le> b \<Longrightarrow> foldr (\<lambda>d r. r * b + d) (rdigits b n) 0 = n"
proof (induction b n rule: rdigits.induct)
  case (1 b n)
  then show ?case by (cases "n < b") (simp_all add: rdigits_small rdigits_step)
qed

lemma rdigits_last: "2 \<le> b \<Longrightarrow> 0 < n \<Longrightarrow> 0 < List.last (rdigits b n)"
proof (induction b n rule: rdigits.induct)
  case (1 b n)
  then show ?case by (cases "n < b") (simp_all add: rdigits_small rdigits_step div_greater_zero_iff)
qed

lemma length_rdigits: "2 \<le> b \<Longrightarrow> n < b ^ k \<Longrightarrow> 0 < k \<Longrightarrow> length (rdigits b n) \<le> k"
proof (induction k arbitrary: n)
  case 0
  then show ?case by simp
next
  case (Suc k)
  show ?case
  proof (cases "n < b")
    case False
    then have "k \<noteq> 0" using Suc.prems by (cases k) auto
    moreover have "n div b < b ^ k" using Suc.prems by (simp add: less_mult_imp_div_less mult.commute)
    ultimately show ?thesis using Suc False by (simp add: rdigits_step)
  qed (simp add: rdigits_small)
qed

lemma rdigits_cons: "d < 10 \<Longrightarrow> rdigits 10 (d + 10 * r) = d # (if r = 0 then [] else rdigits 10 r)"
  by (cases "r = 0") (auto simp: rdigits_small rdigits_step)

subsection \<open>The digit generators compute the digits\<close>

lemma word_of_nat_minus: "b \<le> a \<Longrightarrow> (word_of_nat a :: 'a::len word) - word_of_nat b = word_of_nat (a - b)"
  by (simp add: of_nat_diff)

lemma word_of_nat_u32_0: "n < 4294967296 \<Longrightarrow> (word_of_nat n :: u32) = 0 \<longleftrightarrow> n = 0"
  by (simp add: word_of_nat_eq_0_iff nat_dvd_not_less) (metis dvd_0_right gr0I nat_dvd_not_less)

lemma unat_of_nat_u32: "n < 4294967296 \<Longrightarrow> unat (word_of_nat n :: u32) = n"
  by (simp add: unat_of_nat)

lemma drop_bit_of_nat_u32:
  "n < 4294967296 \<Longrightarrow> drop_bit k (word_of_nat n :: u32) = word_of_nat (n div 2 ^ k)"
proof -
  assume n: "n < 4294967296"
  then have "n div 2 ^ k < 4294967296" using div_le_dividend [of n "2 ^ k"] by linarith
  then have "unat (drop_bit k (word_of_nat n :: u32)) = unat (word_of_nat (n div 2 ^ k) :: u32)"
    using n unfolding unat_drop_bit_eq by (simp only: unat_of_nat_u32 drop_bit_eq_div)
  then show ?thesis by (simp only: word_unat_eq_iff)
qed

lemma and_15_of_nat_u32: "n < 4294967296 \<Longrightarrow> (word_of_nat n :: u32) AND 15 = word_of_nat (n mod 16)"
proof -
  assume n: "n < 4294967296"
  have "(word_of_nat n :: u32) AND 15 = take_bit 4 (word_of_nat n)"
    by (simp add: take_bit_eq_mask mask_eq_exp_minus_1)
  also have "\<dots> = word_of_nat (n mod 16)"
    by (rule word_unat_eq_iff [THEN iffD2])
      (use n mod_le_divisor [of 16 n] in \<open>simp add: unat_take_bit unat_of_nat_u32\<close>)
  finally show ?thesis .
qed

lemma ucast_of_nat_u32: "n < 4294967296 \<Longrightarrow> (ucast (word_of_nat n :: u32) :: u8) = word_of_nat n"
  by (simp add: unsigned_of_nat take_bit_nat_eq_self)

text \<open>Multiply and shift as division by ten, in the ranges where it is exact.\<close>

lemma mul205_div:
  assumes "x < 400"
  shows "x * 205 div 2048 = x div (10 :: nat)"
proof -
  define q r where "q = x div 10" and "r = x mod 10"
  have x: "x = 10 * q + r" and "r < 10" unfolding q_def r_def by simp_all
  then have "q < 40" using assms by linarith
  have "x * 205 div 2048 = q"
    by (rule div_nat_eqI) (use x \<open>r < 10\<close> \<open>q < 40\<close> in simp_all)
  then show ?thesis by (simp add: q_def)
qed

lemma mul13_div:
  assumes "x < 69"
  shows "x * 13 div 128 = x div (10 :: nat)"
proof -
  define q r where "q = x div 10" and "r = x mod 10"
  have x: "x = 10 * q + r" and "r < 10" unfolding q_def r_def by simp_all
  then have "13 * r + 2 * q < 128" using assms by (cases "q \<le> 5") linarith+
  have "x * 13 div 128 = q"
    by (rule div_nat_eqI) (use x \<open>13 * r + 2 * q < 128\<close> in simp_all)
  then show ?thesis by (simp add: q_def)
qed

lemma shift205: "x < 400 \<Longrightarrow> drop_bit 11 ((word_of_nat x :: u32) * 205) = word_of_nat (x div 10)"
  using drop_bit_of_nat_u32 [of "x * 205" 11] mul205_div [of x] by simp

lemma shift13: "x < 69 \<Longrightarrow> drop_bit 7 ((word_of_nat x :: u32) * 13) = word_of_nat (x div 10)"
  using drop_bit_of_nat_u32 [of "x * 13" 7] mul13_div [of x] by simp

lemma rem10: "(word_of_nat x :: u32) - 10 * word_of_nat (x div 10) = word_of_nat (x mod 10)"
proof -
  have "(word_of_nat x :: u32) = word_of_nat (x mod 10 + 10 * (x div 10))" by simp
  then show ?thesis by (simp only: of_nat_add of_nat_mult of_nat_numeral) simp
qed

text \<open>The hexadecimal digits \<open>h g f e\<close> of a number below 100000, and the carries of the algorithm.\<close>

definition hex_parts :: "nat \<Rightarrow> nat \<times> nat \<times> nat \<times> nat" where
  "hex_parts n = (n div 4096, n div 256 mod 16, n div 16 mod 16, n mod 16)"

definition carries :: "nat \<Rightarrow> nat \<times> nat \<times> nat \<times> nat" where
  "carries n = (case hex_parts n of (h, g, f, e) \<Rightarrow>
     let t0 = 6 * (h + g + f) + e; t1 = t0 div 10 + 9 * h + 5 * g + f;
         t2 = t1 div 10 + 2 * g; t3 = t2 div 10 + 4 * h
     in (t0, t1, t2, t3))"

lemma carries_eqs:
  assumes "carries n = (t0, t1, t2, t3)" "hex_parts n = (h, g, f, e)"
  shows "t0 = 6 * (h + g + f) + e" "t1 = t0 div 10 + 9 * h + 5 * g + f"
    "t2 = t1 div 10 + 2 * g" "t3 = t2 div 10 + 4 * h"
  using assms unfolding carries_def Let_def by auto

lemma carries_bounds:
  assumes "n < 100000" "carries n = (t0, t1, t2, t3)" "hex_parts n = (h, g, f, e)"
  shows "h < 25" "g < 16" "f < 16" "e < 16" "t0 < 400" "t1 < 400" "t2 < 69" "t3 < 400"
proof -
  have "n div 4096 < 25" "n div 4096 \<le> 24" using assms(1) by simp_all
  moreover have "x mod 16 < 16 \<and> x mod 16 \<le> 15" for x :: nat
    using mod_less_divisor [of 16 x] by linarith
  ultimately have le: "h < 25" "g < 16" "f < 16" "e < 16" "h \<le> 24" "g \<le> 15" "f \<le> 15" "e \<le> 15"
    using assms(3) unfolding hex_parts_def by auto
  then show "h < 25" "g < 16" "f < 16" "e < 16" by simp_all
  note t = carries_eqs [OF assms(2,3)]
  have t0: "t0 < 340" unfolding t(1) using le by simp
  then have "t0 div 10 < 34" by simp
  then have t1: "t1 < 340" unfolding t(2) using le by simp
  then have "t1 div 10 < 34" by simp
  then have t2: "t2 < 64" unfolding t(3) using le by simp
  then have "t2 div 10 < 7" by simp
  then have "t3 < 400" unfolding t(4) using le by simp
  with t0 t1 t2 show "t0 < 400" "t1 < 400" "t2 < 69" "t3 < 400" by simp_all
qed

lemma div_256_16: "(n :: nat) div 256 = n div 16 div 16" "n div 4096 = n div 256 div 16"
  by (simp_all add: div_mult2_eq [symmetric])

lemma join_hex:
  fixes n :: nat
  shows "n = 16 * x + e \<Longrightarrow> x = 16 * y + f \<Longrightarrow> y = 16 * h + g \<Longrightarrow> n = 4096 * h + 256 * g + 16 * f + e"
  by simp

lemma join_dec:
  fixes n :: nat
  shows "n = a + 10 * x \<Longrightarrow> x = b + 10 * y \<Longrightarrow> y = c + 10 * z \<Longrightarrow> n = a + 10 * b + 100 * c + 1000 * z"
  by simp

lemma join_full:
  fixes n :: nat
  shows "n = a + 10 * b + 100 * c + 1000 * t \<Longrightarrow> t = d + 10 * e \<Longrightarrow>
    n + 100000 * m = a + 10 * (b + 10 * (c + 10 * (d + 10 * (e + 10 * m))))"
  by simp

lemma carry0:
  fixes n :: nat
  shows "n = 4096 * h + 256 * g + 16 * f + e \<Longrightarrow> 6 * (h + g + f) + e = a + 10 * b \<Longrightarrow>
    n = a + 10 * (b + 9 * h + 5 * g + f + 400 * h + 20 * g)"
  by simp

lemma carry1: "t = a + 10 * b \<Longrightarrow> t + 400 * h + 20 * g = a + 10 * (b + 2 * g + 40 * (h :: nat))"
  by simp

lemma carry2: "t = a + 10 * b \<Longrightarrow> t + 40 * h = a + 10 * (b + 4 * (h :: nat))"
  by simp

lemma carries_digits:
  assumes "carries n = (t0, t1, t2, t3)" "hex_parts n = (h, g, f, e)"
  shows "n = t0 mod 10 + 10 * (t1 + 400 * h + 20 * g)"
    and "t1 + 400 * h + 20 * g = t1 mod 10 + 10 * (t2 + 40 * h)"
    and "t2 + 40 * h = t2 mod 10 + 10 * t3"
proof -
  note t = carries_eqs [OF assms]
  have n: "n = 4096 * h + 256 * g + 16 * f + e"
  proof (rule join_hex)
    show "n = 16 * (n div 16) + e" "n div 16 = 16 * (n div 256) + f" "n div 256 = 16 * h + g"
      using assms(2) mult_div_mod_eq [of 16 "n div 256"] div_256_16 [of n] unfolding hex_parts_def by auto
  qed
  have split: "x = x mod 10 + 10 * (x div 10)" for x :: nat by simp
  show "n = t0 mod 10 + 10 * (t1 + 400 * h + 20 * g)"
    unfolding t(2) by (rule carry0 [OF n]) (unfold t(1) [symmetric], rule split)
  show "t1 + 400 * h + 20 * g = t1 mod 10 + 10 * (t2 + 40 * h)"
    unfolding t(3) by (rule carry1 [OF split])
  show "t2 + 40 * h = t2 mod 10 + 10 * t3"
    unfolding t(4) by (rule carry2 [OF split])
qed

lemma carries_top: 
  assumes "n < 100000" "carries n = (t0, t1, t2, t3)"
  shows "t3 div 10 < 10"
proof -
  obtain h g f e where p: "hex_parts n = (h, g, f, e)" by (cases "hex_parts n") auto
  have "1000 * t3 \<le> n" by (subst join_dec [OF carries_digits [OF assms(2) p]]) (rule le_add2)
  then have "1000 * t3 < 100000" using assms(1) by (rule le_less_trans)
  then show ?thesis by simp
qed

lemma word_parts:
  assumes "n < 100000" "hex_parts n = (h, g, f, e)"
  shows "drop_bit 4 (word_of_nat n :: u32) AND 15 = word_of_nat f"
    and "drop_bit 8 (word_of_nat n :: u32) AND 15 = word_of_nat g"
    and "drop_bit 12 (word_of_nat n :: u32) = word_of_nat h"
    and "(word_of_nat n :: u32) AND 15 = word_of_nat e"
  using assms
  by (auto simp: hex_parts_def drop_bit_of_nat_u32 and_15_of_nat_u32)

text \<open>One step of either generator on the carries.\<close>

lemma word_carries_sums:
  assumes "carries n = (t0, t1, t2, t3)" "hex_parts n = (h, g, f, e)"
  shows "6 * (word_of_nat h + word_of_nat g + word_of_nat f) + word_of_nat e = (word_of_nat t0 :: u32)"
    and "word_of_nat (t0 div 10) + 9 * word_of_nat h + 5 * word_of_nat g + word_of_nat f = (word_of_nat t1 :: u32)"
    and "word_of_nat (t1 div 10) + 2 * word_of_nat g = (word_of_nat t2 :: u32)"
    and "word_of_nat (t2 div 10) + 4 * word_of_nat h = (word_of_nat t3 :: u32)"
  using carries_eqs [OF assms] by (simp_all only: of_nat_add of_nat_mult of_nat_numeral)

lemma word_carries_div:
  assumes "n < 100000" "carries n = (t0, t1, t2, t3)" "hex_parts n = (h, g, f, e)"
  shows "drop_bit 11 ((word_of_nat t0 :: u32) * 205) = word_of_nat (t0 div 10)"
    and "drop_bit 11 ((word_of_nat t1 :: u32) * 205) = word_of_nat (t1 div 10)"
    and "drop_bit 7 ((word_of_nat t2 :: u32) * 13) = word_of_nat (t2 div 10)"
    and "drop_bit 11 ((word_of_nat t3 :: u32) * 205) = word_of_nat (t3 div 10)"
  using carries_bounds [OF assms] by (simp_all only: shift205 shift13)

lemma dec_char_u32: "d < 10 \<Longrightarrow> ucast ((word_of_nat d :: u32) + 48) = dec_char d"
  using ucast_of_nat_u32 [of "d + 48"] by (simp add: dec_char_def)

lemma put_dec_full_carries:
  assumes "n < 100000" "carries n = (t0, t1, t2, t3)"
  shows "put_dec_full (word_of_nat n) = map dec_char [t0 mod 10, t1 mod 10, t2 mod 10, t3 mod 10, t3 div 10]"
proof -
  obtain h g f e where p: "hex_parts n = (h, g, f, e)" by (cases "hex_parts n") auto
  note d = carries_top [OF assms]
  show ?thesis
    unfolding put_dec_full_def Let_def word_parts [OF assms(1) p] word_carries_sums [OF assms(2) p]
      word_carries_div [OF assms p] rem10
    by (simp add: dec_char_u32 d)
qed

lemma put_dec_trunc_carries:
  assumes "n < 100000" "carries n = (t0, t1, t2, t3)" "hex_parts n = (h, g, f, e)"
  shows "put_dec_trunc (word_of_nat n) = map dec_char
     (t0 mod 10 # (if t1 = 0 then [] else t1 mod 10 #
        (if t2 = 0 \<and> h = 0 then [] else t2 mod 10 #
          (if t3 = 0 then [] else t3 mod 10 # (if t3 div 10 = 0 then [] else [t3 div 10])))))"
proof -
  note d = carries_top [OF assms(1,2)]
  have z: "(word_of_nat t1 :: u32) = 0 \<longleftrightarrow> t1 = 0" "(word_of_nat t2 :: u32) = 0 \<longleftrightarrow> t2 = 0"
    "(word_of_nat t3 :: u32) = 0 \<longleftrightarrow> t3 = 0" "(word_of_nat h :: u32) = 0 \<longleftrightarrow> h = 0"
    "(word_of_nat (t3 div 10) :: u32) = 0 \<longleftrightarrow> t3 div 10 = 0"
    using carries_bounds [OF assms] d by (simp_all add: word_of_nat_u32_0 del: div_eq_0_iff)
  show ?thesis
    unfolding put_dec_trunc_def Let_def word_parts [OF assms(1,3)] word_carries_sums [OF assms(2,3)]
      word_carries_div [OF assms] rem10 z
    by (simp add: dec_char_u32 d)
qed


lemma put_dec_trunc_correct:
  assumes "n < 100000"
  shows "put_dec_trunc (word_of_nat n) = map dec_char (rdigits 10 n)"
proof -
  obtain t0 t1 t2 t3 where c: "carries n = (t0, t1, t2, t3)" by (cases "carries n") auto
  obtain h g f e where p: "hex_parts n = (h, g, f, e)" by (cases "hex_parts n") auto
  note t = put_dec_trunc_carries [OF assms c p] and d = carries_digits [OF c p]
    and q = carries_eqs [OF c p]
  have r3: "rdigits 10 t3 = t3 mod 10 # (if t3 div 10 = 0 then [] else [t3 div 10])"
    using rdigits_cons [of "t3 mod 10" "t3 div 10"] carries_top [OF assms c]
    by (simp add: rdigits_small)
  have r2: "rdigits 10 (t2 + 40 * h) = t2 mod 10 # (if t3 = 0 then [] else rdigits 10 t3)"
    by (subst d(3)) (rule rdigits_cons, simp)
  have r1: "rdigits 10 (t1 + 400 * h + 20 * g) =
      t1 mod 10 # (if t2 + 40 * h = 0 then [] else rdigits 10 (t2 + 40 * h))"
    by (subst d(2)) (rule rdigits_cons, simp)
  have r0: "rdigits 10 n = t0 mod 10 #
      (if t1 + 400 * h + 20 * g = 0 then [] else rdigits 10 (t1 + 400 * h + 20 * g))"
    by (subst d(1)) (rule rdigits_cons, simp)
  have z: "t1 + 400 * h + 20 * g = 0 \<longleftrightarrow> t1 = 0" "t2 + 40 * h = 0 \<longleftrightarrow> t2 = 0 \<and> h = 0"
    using q(2) by auto
  show ?thesis unfolding t r0 r1 r2 r3 z by simp
qed

text \<open>\<open>put_dec_full\<close> emits five digits, and the rest of the number follows them.\<close>

lemma put_dec_full_correct:
  assumes "n < 100000" "0 < m"
  shows "map dec_char (rdigits 10 (n + 100000 * m)) =
     put_dec_full (word_of_nat n) @ map dec_char (rdigits 10 m)"
proof -
  obtain t0 t1 t2 t3 where c: "carries n = (t0, t1, t2, t3)" by (cases "carries n") auto
  obtain h g f e where p: "hex_parts n = (h, g, f, e)" by (cases "hex_parts n") auto
  have n: "n = t0 mod 10 + 10 * (t1 mod 10) + 100 * (t2 mod 10) + 1000 * t3"
    by (rule join_dec [OF carries_digits [OF c p]])
  have "t3 = t3 mod 10 + 10 * (t3 div 10)" by simp
  with n have "n + 100000 * m = t0 mod 10 + 10 * (t1 mod 10 + 10 * (t2 mod 10 + 10 * (t3 mod 10
      + 10 * (t3 div 10 + 10 * m))))"
    by (metis (no_types) join_full)
  then have "rdigits 10 (n + 100000 * m) = [t0 mod 10, t1 mod 10, t2 mod 10, t3 mod 10, t3 div 10] @ rdigits 10 m"
    using assms(2) carries_top [OF assms(1) c]
    by (simp only: rdigits_cons [OF mod_less_divisor [OF zero_less_numeral]] rdigits_cons) simp
  then show ?thesis by (simp add: put_dec_full_carries [OF assms(1) c])
qed


lemma unat_numeral_100000: "unat (100000 :: u64) = 100000"
  by simp

lemma put_dec_correct: "put_dec num = map dec_char (rdigits 10 (unat num))"
proof (induction num rule: put_dec.induct)
  case (1 num)
  show ?case
  proof (cases "num < 100000")
    case True
    then have l: "unat num < 100000" by (simp add: word_less_nat_alt)
    have "put_dec num = put_dec_trunc (word_of_nat (unat num))" using True by (subst put_dec.simps) simp
    also have "\<dots> = map dec_char (rdigits 10 (unat num))" by (rule put_dec_trunc_correct [OF l])
    finally show ?thesis .
  next
    case False
    define n m where "n = unat num mod 100000" and "m = unat num div 100000"
    have m: "0 < m" using False by (simp add: m_def div_greater_zero_iff not_less word_le_nat_alt)
    have n: "n < 100000" by (simp add: n_def)
    have "put_dec num = put_dec_full (ucast (num mod 100000)) @ put_dec (num div 100000)"
      using False by (subst put_dec.simps) simp
    also have "(ucast (num mod 100000) :: u32) = word_of_nat n"
      by (metis n_def unat_mod of_nat_unat unat_numeral_100000)
    also have "put_dec (num div 100000) = map dec_char (rdigits 10 m)"
      using 1 [OF False] by (simp add: m_def unat_div)
    also have "put_dec_full (word_of_nat n) @ map dec_char (rdigits 10 m) = map dec_char (rdigits 10 (unat num))"
      using put_dec_full_correct [OF n m] by (simp add: n_def m_def)
    finally show ?thesis .
  qed
qed

lemma simple_itoa_loop_eq: "simple_itoa_loop i p = decimal (unat i) @ p"
proof (induction i p rule: simple_itoa_loop.induct)
  case (1 i p)
  have c: "(ucast (48 + i mod 10) :: u8) = dec_char (unat i mod 10)"
  proof -
    have "i mod 10 = word_of_nat (unat (i mod 10))" by simp
    also have "\<dots> = word_of_nat (unat i mod 10)" by (simp only: unat_mod) simp
    finally show ?thesis using dec_char_u32 [of "unat i mod 10"] by (simp add: add.commute)
  qed
  have d: "unat (i div 10) = unat i div 10" by (simp add: unat_div)
  show ?case
  proof (cases "i div 10 > 0")
    case True
    then have "10 \<le> unat i" using d by (simp add: word_less_nat_alt div_greater_zero_iff)
    then show ?thesis
      using True 1 [OF refl refl True] by (subst simple_itoa_loop.simps) (simp add: c d decimal_def rdigits_step)
  next
    case False
    then have "unat i < 10" using d by (simp add: word_less_nat_alt div_greater_zero_iff)
    then show ?thesis using False c by (subst simple_itoa_loop.simps) (simp add: decimal_def rdigits_small)
  qed
qed


lemma simple_itoa_eq: "simple_itoa i = decimal (unat i)"
  by (simp add: simple_itoa_def simple_itoa_loop_eq)

subsection \<open>The parsers invert the printers\<close>

definition stops :: "'a::len word \<Rightarrow> bytes \<Rightarrow> bool" where
  "stops base rest \<longleftrightarrow> \<not> (isxdigit (peek rest) \<and> (digit_value (peek rest) :: 'a word) < base)"

lemma stops_Nil [simp]: "stops base []"
  by (simp add: stops_def)

lemma strto_loop_stops: "stops base rest \<Longrightarrow> strto_loop rest base r = (r, rest)"
  by (cases rest) (auto simp: stops_def)

lemma strto_loop_digits:
  fixes base :: "'a::len word"
  assumes "\<forall>d \<in> set ds. isxdigit (ch d) \<and> digit_value (ch d) = (word_of_nat d :: 'a word) \<and> (word_of_nat d :: 'a word) < base"
  shows "strto_loop (map ch ds @ rest) base r = strto_loop rest base (foldl (\<lambda>r d. r * base + word_of_nat d) r ds)"
  using assms by (induction ds arbitrary: r) auto

lemma foldr_of_nat:
  "foldr (\<lambda>d r. r * word_of_nat b + word_of_nat d) ds 0 = (word_of_nat (foldr (\<lambda>d r. r * b + d) ds 0) :: 'a::len word)"
  by (induction ds) simp_all

lemma strto_loop_number:
  fixes base :: "'a::len word"
  assumes "base = word_of_nat b" "2 \<le> b" "b < 2 ^ LENGTH('a)" "stops base rest"
    and "\<forall>d < b. isxdigit (ch d) \<and> digit_value (ch d) = (word_of_nat d :: 'a word)"
  shows "strto_loop (map ch (rev (rdigits b n)) @ rest) base 0 = (word_of_nat n, rest)"
proof -
  have "(word_of_nat d :: 'a word) < base" if "d < b" for d
    using that assms(1,3) by (simp add: word_less_nat_alt unat_of_nat)
  then have "strto_loop (map ch (rev (rdigits b n)) @ rest) base 0
      = strto_loop rest base (foldl (\<lambda>r d. r * base + word_of_nat d) 0 (rev (rdigits b n)))"
    using assms(2,5) rdigits_lt [OF assms(2)] by (intro strto_loop_digits) (auto simp del: of_nat_less_iff)
  also have "foldl (\<lambda>r d. r * base + word_of_nat d) 0 (rev (rdigits b n)) = word_of_nat n"
    unfolding foldl_conv_foldr rev_rev_ident assms(1) foldr_of_nat rdigits_value [OF assms(2)] ..
  finally show ?thesis using strto_loop_stops [OF assms(4)] by simp
qed

lemma dec_char_props:
  assumes "d < 10"
  shows "isxdigit (dec_char d)" "isdigit (dec_char d)" "digit_value (dec_char d) = (word_of_nat d :: u32)"
    "digit_value (dec_char d) = (word_of_nat d :: u64)" "dec_char d = 48 \<longleftrightarrow> d = 0"
proof -
  have "d \<in> {0, 1, 2, 3, 4, 5, 6, 7, 8, 9}" using assms by auto
  then show "isxdigit (dec_char d)" "isdigit (dec_char d)" "digit_value (dec_char d) = (word_of_nat d :: u32)"
    "digit_value (dec_char d) = (word_of_nat d :: u64)" "dec_char d = 48 \<longleftrightarrow> d = 0"
    by (auto simp: dec_char_def isxdigit_iff isdigit_iff digit_value_def)
qed

lemma decimal_hd: "0 < n \<Longrightarrow> \<exists>c cs. decimal n = c # cs \<and> c \<noteq> 48"
proof -
  assume n: "0 < n"
  obtain d ds where r: "rev (rdigits 10 n) = d # ds" by (cases "rev (rdigits 10 n)") auto
  then have "d = List.last (rdigits 10 n)" by (metis hd_rev list.sel(1))
  moreover have "d \<in> set (rdigits 10 n)" using r by (metis list.set_intros(1) set_rev)
  then have "d < 10" using rdigits_lt [of 10 d n] by simp
  ultimately have "dec_char d \<noteq> 48" using rdigits_last [of 10 n] n by (simp add: dec_char_props)
  moreover have "decimal n = dec_char d # map dec_char ds" by (simp only: decimal_def r list.map)
  ultimately show ?thesis by blast
qed

lemma decimal_hd_digit: "isdigit (peek (decimal n))"
proof -
  obtain d ds where r: "rev (rdigits 10 n) = d # ds" by (cases "rev (rdigits 10 n)") auto
  then have "d \<in> set (rdigits 10 n)" by (metis list.set_intros(1) set_rev)
  then have "isdigit (dec_char d)" using rdigits_lt [of 10 d n] by (simp add: dec_char_props)
  then show ?thesis by (simp only: decimal_def r list.map peek_simps)
qed

lemma strto_prefix_decimal:
  "0 < n \<Longrightarrow> base = 0 \<or> base = 10 \<Longrightarrow> strto_prefix (decimal n @ rest) base = (10, decimal n @ rest)"
  using decimal_hd [of n] by (auto simp: strto_prefix_def)

lemma decimal_0: "decimal 0 = [48]"
  by (simp add: decimal_def rdigits_small dec_char_def)

text \<open>Decimal numbers, with base 10 or with no base given.\<close>

lemma strtoul_decimal:
  assumes "base = 0 \<or> base = 10" "stops (10 :: u32) rest" "peek rest \<noteq> 120"
  shows "simple_strtoul (decimal n @ rest) base = (word_of_nat n, rest)"
proof (cases "n = 0")
  case True
  have "stops (8 :: u32) rest" using assms(2) less_trans [of _ "8 :: u32" 10] by (auto simp: stops_def)
  then show ?thesis
    using assms True strto_loop_stops [of "8 :: u32" rest] strto_loop_stops [of "10 :: u32" rest]
    by (auto simp: simple_strtoul_def strto_prefix_def decimal_0)
next
  case False
  have "strto_loop (decimal n @ rest) (10 :: u32) 0 = (word_of_nat n, rest)"
    unfolding decimal_def
    by (rule strto_loop_number) (use assms(2) in \<open>simp_all add: dec_char_props\<close>)
  then show ?thesis using False assms(1) by (simp add: simple_strtoul_def strto_prefix_decimal)
qed


subsection \<open>Properties\<close>

text \<open>
  C31: \<open>put_dec\<close>, which divides by ten with a multiplication and a shift on the hexadecimal digits of
  five decimal digits at a time, stores exactly the decimal digits of every 64-bit number, the least
  significant first and without leading zeros.\<close>
theorem put_dec_digits: "put_dec num = map dec_char (rdigits 10 (unat num))"
  by (rule put_dec_correct)

text \<open>
  What \<open>simple_itoa\<close> prints, \<open>strict_strtoul\<close> accepts and reads back, alone or followed by one
  newline; any other text after the digits that no digit continues is rejected with \<open>-EINVAL\<close> and a
  result of 0.\<close>
theorem itoa_strict_strtoul:
  assumes "base = 0 \<or> base = 10" "stops (10 :: u32) rest" "peek rest \<noteq> 120" "0 \<notin> set rest"
  shows "strict_strtoul (simple_itoa i @ rest) base = (if rest = [] \<or> rest = [10] then (0, i) else (- 22, 0))"
proof -
  have p: "simple_strtoul (decimal (unat i) @ rest) base = (i, rest)"
    using strtoul_decimal [OF assms(1,2,3), of "unat i"] by simp
  have l: "0 < length (decimal (unat i))" by (simp add: decimal_def)
  have "peek rest = 0 \<longleftrightarrow> rest = []" using assms(4) by (cases rest) auto
  moreover have "length rest = 1 \<and> peek rest = 10 \<longleftrightarrow> rest = [10]" by (cases rest) auto
  ultimately show ?thesis
    using p l by (auto simp: strict_strtoul_def simple_itoa_eq Let_def)
qed

theorem itoa_strict_strtoul_witness:
  "strict_strtoul (simple_itoa 4000000000 @ [10]) 0 = (0, 4000000000)"
  using itoa_strict_strtoul [of 0 "[10]" 4000000000] by (simp add: stops_def isxdigit_iff)

text \<open>
  \<open>ustrtoul\<close> scales a decimal number by the binary suffix that follows it, 2 to the 10, 20 or 30 for
  \<open>k\<close> or \<open>K\<close>, \<open>M\<close>, \<open>G\<close>, modulo 2 to the 32, and moves the end pointer past an \<open>i\<close> or \<open>iB\<close> behind the suffix
  (but leaves it on a suffix that has no \<open>i\<close>).\<close>
theorem ustrtoul_scales:
  assumes "(c, k) \<in> {(107, 10), (75, 10), (77, 20), (71, 30)}" "base = 0 \<or> base = 10"
  shows "ustrtoul (decimal n @ c # rest) base =
    (word_of_nat (n * 2 ^ k),
     if peek rest = 105 then drop (if peek (tl rest) = 66 then 2 else 1) rest else c # rest)"
proof -
  have s: "stops (10 :: u32) (c # r)" "peek (c # r) \<noteq> 120" for r
    using assms(1) by (auto simp: stops_def isxdigit_iff)
  note p = strtoul_decimal [OF assms(2) s, of n]
  show ?thesis using assms(1) by (auto simp: ustrtoul_def p Let_def)
qed

theorem ustrtoul_scales_witness:
  "ustrtoul (decimal 64 @ 77 # bs ''iB'') 10 = (67108864, [])
    \<and> ustrtoul (decimal 5 @ 71 # []) 10 = (1073741824, [71])"
  using ustrtoul_scales [of 77 20 10 64 "bs ''iB''"] ustrtoul_scales [of 71 30 10 5 "[]"] by simp

end
