(* ===== verification/Vsprintf.thy ===== *)
theory Vsprintf
  imports Strtoul "HOL-Library.Sublist"
begin

text \<open>
  The formatted output of \<open>lib/vsprintf.c\<close>, as the board builds it (\<open>CONFIG_SYS_VSNPRINTF\<close> and
  \<open>CONFIG_CMD_NET\<close> defined).

  \<^item> Output goes through \<open>ADDCH\<close>: the state is the memory and the position \<open>str\<close>, which advances past
    \<open>end\<close> while stores stop there. The position counts on where the 32-bit pointer wraps around: the pointer is
    \<open>str mod 2 ^ 32\<close>, and what the code computes from it is computed from that.
  \<^item> The format is the list of its bytes, as in \<open>Strtoul\<close>; the arguments are the 4-byte and 8-byte
    slots of the ARM calling convention (\<open>va_arg\<close> of a slot that is missing or of the other size is
    undefined behaviour, the value \<open>None\<close>). A pointer argument is an address: \<open>%s\<close>, \<open>%pM\<close>, \<open>%pI4\<close>
    read the memory being written to, so an argument may alias the buffer.
  \<^item> \<open>int\<close> values (widths, precisions) are mathematical integers; \<open>skip_atoi\<close> and the negation of a
    \<open>*\<close> width wrap at 32 bits.

  \<open>number_text\<close>, \<open>string_text\<close> and \<open>vs_text\<close> say what is to be printed, with no buffer: the lemmas show
  that the code emits exactly that text, cut to the buffer.
\<close>

type_synonym out = "mem \<times> nat"

datatype varg = W32 u32 | W64 u64

definition ADDCH :: "nat \<Rightarrow> u8 \<Rightarrow> out \<Rightarrow> out" where
  "ADDCH e ch st = (case st of (m, str) \<Rightarrow> (if str mod 2 ^ 32 < e then m(str mod 2 ^ 32 := ch) else m, str + 1))"

definition ZEROPAD :: u32 where "ZEROPAD = 1"
definition SIGN :: u32 where "SIGN = 2"
definition PLUS :: u32 where "PLUS = 4"
definition SPACE :: u32 where "SPACE = 8"
definition LEFT :: u32 where "LEFT = 16"
definition SMALL :: u32 where "SMALL = 32"
definition SPECIAL :: u32 where "SPECIAL = 64"

lemmas flag_defs = ZEROPAD_def SIGN_def PLUS_def SPACE_def LEFT_def SMALL_def SPECIAL_def

subsection \<open>Padding loops\<close>

text \<open>\<open>while (--size >= lim) ADDCH(buf, c)\<close>, with the value \<open>size\<close> is left with.\<close>

function pad_dec :: "nat \<Rightarrow> u8 \<Rightarrow> int \<Rightarrow> int \<Rightarrow> out \<Rightarrow> int \<times> out" where
  "pad_dec e c lim sz st =
     (let sz = sz - 1 in if lim \<le> sz then pad_dec e c lim sz (ADDCH e c st) else (sz, st))"
  by auto
termination by (relation "measure (\<lambda>(e, c, lim, sz, st). nat (sz - lim))") auto

declare pad_dec.simps [simp del]

text \<open>\<open>while (len < field_width--) ADDCH(buf, ' ')\<close>.\<close>

function pad_width :: "nat \<Rightarrow> int \<Rightarrow> int \<Rightarrow> out \<Rightarrow> int \<times> out" where
  "pad_width e len fw st =
     (if len < fw then pad_width e len (fw - 1) (ADDCH e 32 st) else (fw - 1, st))"
  by auto
termination by (relation "measure (\<lambda>(e, len, fw, st). nat (fw - len))") auto

declare pad_width.simps [simp del]

text \<open>\<open>while (--i >= 0) ADDCH(buf, tmp[i])\<close>.\<close>

fun put_rev :: "nat \<Rightarrow> bytes \<Rightarrow> nat \<Rightarrow> out \<Rightarrow> out" where
  "put_rev e tmp 0 st = st"
| "put_rev e tmp (Suc i) st = put_rev e tmp i (ADDCH e (tmp ! i) st)"

subsection \<open>Numbers\<close>

definition digits16 :: bytes where
  "digits16 = [48, 49, 50, 51, 52, 53, 54, 55, 56, 57, 65, 66, 67, 68, 69, 70]"

function num_digits :: "u64 \<Rightarrow> nat \<Rightarrow> u8 \<Rightarrow> bytes" where
  "num_digits num base locase =
     (let mask = word_of_nat (base - 1) :: u64;
          shift = (if base = 16 then 4 else 3);
          ch = digits16 ! unat ((ucast (ucast num :: u8) :: u64) AND mask) OR locase;
          num = drop_bit shift num
      in ch # (if num \<noteq> 0 then num_digits num base locase else []))"
  by auto
termination
proof (relation "measure (\<lambda>(num, b, l). unat num)")
  fix num num' :: u64 and base :: nat and mask :: u64 and shift :: nat and l :: u8 and ch :: u8
  assume "shift = (if base = 16 then 4 else 3)" "num' = drop_bit shift num" "num' \<noteq> 0"
  then have "0 < unat num" and k: "2 \<le> (2 :: nat) ^ shift"
    by (auto simp: unat_gt_0)
  have "unat num' = unat num div 2 ^ shift"
    unfolding \<open>num' = _\<close> unat_drop_bit_eq by (rule drop_bit_eq_div)
  also have "\<dots> < unat num" using \<open>0 < unat num\<close> k by (intro div_less_dividend) auto
  finally show "((num', base, l), num, base, l) \<in> measure (\<lambda>(num, b, l). unat num)" by simp
qed simp

declare num_digits.simps [simp del]

definition number_sign :: "u64 \<Rightarrow> int \<Rightarrow> u32 \<Rightarrow> u8 \<times> u64 \<times> int" where
  "number_sign num sz type =
     (if type AND SIGN \<noteq> 0
      then (if sint num < 0 then (45, - num, sz - 1)
            else if type AND PLUS \<noteq> 0 then (43, num, sz - 1)
            else if type AND SPACE \<noteq> 0 then (32, num, sz - 1)
            else (0, num, sz))
      else (0, num, sz))"

text \<open>The output part, from the padding in front to the padding behind.\<close>

definition number_put ::
    "nat \<Rightarrow> bytes \<Rightarrow> u8 \<Rightarrow> bool \<Rightarrow> nat \<Rightarrow> u8 \<Rightarrow> int \<Rightarrow> int \<Rightarrow> u32 \<Rightarrow> out \<Rightarrow> out" where
  "number_put e tmp sign need_pfx base locase sz precision type st =
     (let i = int (length tmp);
          precision = (if i > precision then i else precision);
          sz = sz - precision;
          (sz, st) = (if type AND (ZEROPAD + LEFT) = 0 then pad_dec e 32 0 sz st else (sz, st));
          st = (if sign \<noteq> 0 then ADDCH e sign st else st);
          st = (if need_pfx
                then let st = ADDCH e 48 st in if base = 16 then ADDCH e (88 OR locase) st else st
                else st);
          (sz, st) = (if type AND LEFT = 0
                      then pad_dec e (if type AND ZEROPAD \<noteq> 0 then 48 else 32) 0 sz st else (sz, st));
          (_, st) = pad_dec e 48 i precision st;
          st = put_rev e tmp (length tmp) st;
          (_, st) = pad_dec e 32 0 sz st
      in st)"

definition number :: "nat \<Rightarrow> u64 \<Rightarrow> nat \<Rightarrow> int \<Rightarrow> int \<Rightarrow> u32 \<Rightarrow> out \<Rightarrow> out" where
  "number e num base sz precision type st =
     (let need_pfx = (type AND SPECIAL \<noteq> 0 \<and> base \<noteq> 10);
          locase = (ucast (type AND SMALL) :: u8);
          type = (if type AND LEFT \<noteq> 0 then type AND NOT ZEROPAD else type);
          (sign, num, sz) = number_sign num sz type;
          sz = (if need_pfx then (if base = 16 then sz - 1 - 1 else sz - 1) else sz);
          tmp = (if num = 0 then [48] else if base \<noteq> 10 then num_digits num base locase else put_dec num)
      in number_put e tmp sign need_pfx base locase sz precision type st)"

subsection \<open>Strings and addresses\<close>

text \<open>A source string is in memory, or is a literal or a local array of the caller.\<close>

datatype csrc = Ram nat | Lit mem

definition lit :: "bytes \<Rightarrow> csrc" where
  "lit xs = Lit (store (\<lambda>_. 0) 0 xs)"

definition src_mem :: "csrc \<Rightarrow> mem \<Rightarrow> mem" where
  "src_mem s m = (case s of Ram _ \<Rightarrow> m | Lit l \<Rightarrow> l)"

definition src_addr :: "csrc \<Rightarrow> nat" where
  "src_addr s = (case s of Ram p \<Rightarrow> p | Lit _ \<Rightarrow> 0)"

fun copy_src :: "nat \<Rightarrow> csrc \<Rightarrow> nat \<Rightarrow> nat \<Rightarrow> out \<Rightarrow> out" where
  "copy_src e s i 0 st = st"
| "copy_src e s i (Suc n) st = copy_src e s (i + 1) n (ADDCH e (src_mem s (fst st) (src_addr s + i)) st)"

definition string :: "nat \<Rightarrow> csrc \<Rightarrow> int \<Rightarrow> int \<Rightarrow> u32 \<Rightarrow> out \<Rightarrow> out" where
  "string e s field_width precision flags st =
     (let s = (if s = Ram 0 then lit (bs ''<NULL>'') else s);
          len = strnlen (src_mem s (fst st)) (src_addr s) (unat (word_of_int precision :: u32));
          (field_width, st) =
            (if flags AND LEFT = 0 then pad_width e (int len) field_width st else (field_width, st));
          st = copy_src e s 0 len st;
          (_, st) = pad_width e (int len) field_width st
      in st)"

definition hex_asc :: bytes where
  "hex_asc = bs ''0123456789abcdef''"

definition pack_hex_byte :: "u8 \<Rightarrow> bytes" where
  "pack_hex_byte byte = [hex_asc ! unat (drop_bit 4 (byte AND 240)), hex_asc ! unat (byte AND 15)]"

text \<open>The local arrays, with their terminators.\<close>

definition mac_addr_array :: "mem \<Rightarrow> nat \<Rightarrow> u32 \<Rightarrow> bytes" where
  "mac_addr_array m addr flags =
     concat (map (\<lambda>i. pack_hex_byte (m (addr + i)) @ (if flags AND SPECIAL = 0 \<and> i \<noteq> 5 then [58] else [])) [0..<6]) @ [0]"

definition ip6_addr_array :: "mem \<Rightarrow> nat \<Rightarrow> u32 \<Rightarrow> bytes" where
  "ip6_addr_array m addr flags =
     concat (map (\<lambda>i. pack_hex_byte (m (addr + 2 * i)) @ pack_hex_byte (m (addr + (2 * i + 1))) @
                      (if flags AND SPECIAL = 0 \<and> i \<noteq> 7 then [58] else [])) [0..<8]) @ [0]"

definition ip4_addr_array :: "mem \<Rightarrow> nat \<Rightarrow> bytes" where
  "ip4_addr_array m addr =
     concat (map (\<lambda>i. rev (put_dec_trunc (ucast (m (addr + i)))) @ (if i \<noteq> 3 then [46] else [])) [0..<4]) @ [0]"

definition mac_address_string :: "nat \<Rightarrow> nat \<Rightarrow> int \<Rightarrow> int \<Rightarrow> u32 \<Rightarrow> out \<Rightarrow> out" where
  "mac_address_string e addr field_width precision flags st =
     string e (lit (mac_addr_array (fst st) addr flags)) field_width precision (flags AND NOT SPECIAL) st"

definition ip6_addr_string :: "nat \<Rightarrow> nat \<Rightarrow> int \<Rightarrow> int \<Rightarrow> u32 \<Rightarrow> out \<Rightarrow> out" where
  "ip6_addr_string e addr field_width precision flags st =
     string e (lit (ip6_addr_array (fst st) addr flags)) field_width precision (flags AND NOT SPECIAL) st"

definition ip4_addr_string :: "nat \<Rightarrow> nat \<Rightarrow> int \<Rightarrow> int \<Rightarrow> u32 \<Rightarrow> out \<Rightarrow> out" where
  "ip4_addr_string e addr field_width precision flags st =
     string e (lit (ip4_addr_array (fst st) addr)) field_width precision (flags AND NOT SPECIAL) st"

definition pointer :: "bytes \<Rightarrow> nat \<Rightarrow> u32 \<Rightarrow> int \<Rightarrow> int \<Rightarrow> u32 \<Rightarrow> out \<Rightarrow> out" where
  "pointer fmt e ptr field_width precision flags st =
     (if ptr = 0 then string e (lit (bs ''(null)'')) field_width precision flags st
      else if peek fmt = 109 \<or> peek fmt = 77
      then mac_address_string e (unat ptr) field_width precision
             (if peek fmt = 109 then flags OR SPECIAL else flags) st
      else if (peek fmt = 105 \<or> peek fmt = 73) \<and> peek (tl fmt) = 54
      then ip6_addr_string e (unat ptr) field_width precision
             (if peek fmt = 105 then flags OR SPECIAL else flags) st
      else if (peek fmt = 105 \<or> peek fmt = 73) \<and> peek (tl fmt) = 52
      then ip4_addr_string e (unat ptr) field_width precision
             (if peek fmt = 105 then flags OR SPECIAL else flags) st
      else let flags = (if peek fmt = 105 \<or> peek fmt = 73 then flags AND NOT SPECIAL else flags);
               flags = flags OR SMALL;
               (field_width, flags) =
                 (if field_width = - 1 then (2 * 4, flags OR ZEROPAD) else (field_width, flags))
           in number e (ucast ptr) 16 field_width precision flags st)"

subsection \<open>The format loop\<close>

fun va32 :: "varg list \<Rightarrow> (u32 \<times> varg list) option" where
  "va32 (W32 w # args) = Some (w, args)"
| "va32 _ = None"

fun va64 :: "varg list \<Rightarrow> (u64 \<times> varg list) option" where
  "va64 (W64 w # args) = Some (w, args)"
| "va64 _ = None"

fun skip_atoi_loop :: "bytes \<Rightarrow> u32 \<Rightarrow> u32 \<times> bytes" where
  "skip_atoi_loop [] i = (i, [])"
| "skip_atoi_loop (c # s) i =
     (if 48 \<le> c \<and> c \<le> 57 then skip_atoi_loop s (i * 10 + ucast c - 48) else (i, c # s))"

definition skip_atoi :: "bytes \<Rightarrow> int \<times> bytes" where
  "skip_atoi s = (case skip_atoi_loop s 0 of (i, s) \<Rightarrow> (sint i, s))"

fun vs_flags :: "bytes \<Rightarrow> u32 \<Rightarrow> u32 \<times> bytes" where
  "vs_flags [] flags = (flags, [])"
| "vs_flags (c # fmt) flags =
     (if c = 45 then vs_flags fmt (flags OR LEFT)
      else if c = 43 then vs_flags fmt (flags OR PLUS)
      else if c = 32 then vs_flags fmt (flags OR SPACE)
      else if c = 35 then vs_flags fmt (flags OR SPECIAL)
      else if c = 48 then vs_flags fmt (flags OR ZEROPAD)
      else (flags, c # fmt))"

definition vs_width :: "bytes \<Rightarrow> u32 \<Rightarrow> varg list \<Rightarrow> (int \<times> u32 \<times> bytes \<times> varg list) option" where
  "vs_width fmt flags args =
     (if 48 \<le> peek fmt \<and> peek fmt \<le> 57 then (case skip_atoi fmt of (fw, fmt) \<Rightarrow> Some (fw, flags, fmt, args))
      else if peek fmt = 42
      then (case va32 args of None \<Rightarrow> None
            | Some (w, args) \<Rightarrow>
                (if sint w < 0 then Some (sint (- w), flags OR LEFT, tl fmt, args)
                 else Some (sint w, flags, tl fmt, args)))
      else Some (- 1, flags, fmt, args))"

definition vs_precision :: "bytes \<Rightarrow> varg list \<Rightarrow> (int \<times> bytes \<times> varg list) option" where
  "vs_precision fmt args =
     (if peek fmt = 46
      then (let fmt = tl fmt
            in case (if 48 \<le> peek fmt \<and> peek fmt \<le> 57
                     then (case skip_atoi fmt of (p, fmt) \<Rightarrow> Some (p, fmt, args))
                     else if peek fmt = 42
                     then (case va32 args of None \<Rightarrow> None | Some (w, args) \<Rightarrow> Some (sint w, tl fmt, args))
                     else Some (- 1, fmt, args)) of
                 None \<Rightarrow> None
               | Some (p, fmt, args) \<Rightarrow> Some (if p < 0 then 0 else p, fmt, args))
      else Some (- 1, fmt, args))"

text \<open>The qualifier is the character, 0 when there is none; \<open>ll\<close> is \<open>L\<close>.\<close>

definition vs_qualifier :: "bytes \<Rightarrow> u8 \<times> bytes" where
  "vs_qualifier fmt =
     (if peek fmt \<in> {104, 108, 76, 90, 122, 116}
      then (let qualifier = peek fmt; fmt = tl fmt
            in if qualifier = 108 \<and> peek fmt = 108 then (76, tl fmt) else (qualifier, fmt))
      else (0, fmt))"

text \<open>A conversion up to its letter.\<close>

record fspec =
  flags :: u32
  field_width :: int
  precision :: int
  qualifier :: u8

definition vs_spec :: "bytes \<Rightarrow> varg list \<Rightarrow> (fspec \<times> bytes \<times> varg list) option" where
  "vs_spec fmt args =
     (case vs_flags fmt 0 of (fl, fmt) \<Rightarrow>
      case vs_width fmt fl args of None \<Rightarrow> None | Some (fw, fl, fmt, args) \<Rightarrow>
      (case vs_precision fmt args of None \<Rightarrow> None | Some (p, fmt, args) \<Rightarrow>
       case vs_qualifier fmt of (q, fmt) \<Rightarrow>
         Some (\<lparr>flags = fl, field_width = fw, precision = p, qualifier = q\<rparr>, fmt, args)))"

definition vs_num :: "u8 \<Rightarrow> u32 \<Rightarrow> varg list \<Rightarrow> (u64 \<times> varg list) option" where
  "vs_num q fl args =
     (if q = 76 then va64 args
      else case va32 args of None \<Rightarrow> None | Some (w, args) \<Rightarrow>
        Some (if q = 108 then (if fl AND SIGN \<noteq> 0 then scast w else ucast w)
              else if q = 90 \<or> q = 122 then ucast w
              else if q = 116 then scast w
              else if q = 104
              then (if fl AND SIGN \<noteq> 0 then scast (ucast w :: u16) else ucast (ucast w :: u16))
              else (if fl AND SIGN \<noteq> 0 then scast w else ucast w), args))"

text \<open>The switch on the conversion letter; the format it returns is where the loop goes on.\<close>

definition vs_convert :: "nat \<Rightarrow> nat \<Rightarrow> fspec \<Rightarrow> bytes \<Rightarrow> varg list \<Rightarrow> out \<Rightarrow> (out \<times> bytes \<times> varg list) option" where
  "vs_convert buf e sp fmt args st =
     (let c = peek fmt; fl = flags sp; fw = field_width sp
      in if c = 99
      then (case va32 args of None \<Rightarrow> None | Some (w, args) \<Rightarrow>
              let (fw, st) = (if fl AND LEFT = 0 then pad_dec e 32 1 fw st else (fw, st));
                  st = ADDCH e (ucast w) st;
                  (_, st) = pad_dec e 32 1 fw st
              in Some (st, tl fmt, args))
      else if c = 115
      then (case va32 args of None \<Rightarrow> None | Some (w, args) \<Rightarrow>
              Some (string e (Ram (unat w)) fw (precision sp) fl st, tl fmt, args))
      else if c = 112
      then (case va32 args of None \<Rightarrow> None | Some (w, args) \<Rightarrow>
              Some (pointer (tl fmt) e w fw (precision sp) fl st, dropWhile isalnum (tl fmt), args))
      else if c = 110
      then (case va32 args of None \<Rightarrow> None | Some (ip, args) \<Rightarrow>
              Some ((store32 (fst st) (unat ip) (word_of_nat (snd st - buf)), snd st), tl fmt, args))
      else if c = 37 then Some (ADDCH e 37 st, tl fmt, args)
      else if c \<in> {111, 120, 88, 100, 105, 117}
      then (let base = (if c = 111 then 8 else if c = 120 \<or> c = 88 then 16 else 10);
                fl = (if c = 120 then fl OR SMALL else if c = 100 \<or> c = 105 then fl OR SIGN else fl)
            in case vs_num (qualifier sp) fl args of None \<Rightarrow> None | Some (num, args) \<Rightarrow>
                 Some (number e num base fw (precision sp) fl st, tl fmt, args))
      else (let st = ADDCH e 37 st
            in if c \<noteq> 0 then Some (ADDCH e c st, tl fmt, args) else Some (st, fmt, args)))"

text \<open>Every step of the parser leaves a suffix of the format.\<close>

lemma suffix_tl_tl: "suffix (tl (tl s)) s"
  by (metis suffix_order.trans suffix_tl)

lemma suffix_vs_flags: "vs_flags fmt f = (f', fmt') \<Longrightarrow> suffix fmt' fmt"
  by (induction fmt f rule: vs_flags.induct) (auto split: if_splits intro: suffix_ConsI)

lemma suffix_skip_atoi_loop: "suffix (snd (skip_atoi_loop s i)) s"
  by (induction s i rule: skip_atoi_loop.induct) (auto intro: suffix_ConsI)

lemma suffix_skip_atoi: "skip_atoi s = (i, s') \<Longrightarrow> suffix s' s"
  using suffix_skip_atoi_loop [of s 0] by (auto simp: skip_atoi_def split: prod.splits)

lemma suffix_vs_width: "vs_width fmt f args = Some (fw, f', fmt', args') \<Longrightarrow> suffix fmt' fmt"
  unfolding vs_width_def
  by (auto split: prod.splits option.splits if_splits simp: suffix_tl dest: suffix_skip_atoi)

lemma suffix_vs_precision: "vs_precision fmt args = Some (p, fmt', args') \<Longrightarrow> suffix fmt' fmt"
  unfolding vs_precision_def Let_def
  by (auto split: prod.splits option.splits if_splits simp: suffix_tl suffix_tl_tl
      dest!: suffix_skip_atoi intro: suffix_order.trans)

lemma suffix_vs_qualifier: "vs_qualifier fmt = (q, fmt') \<Longrightarrow> suffix fmt' fmt"
  unfolding vs_qualifier_def Let_def by (simp split: if_splits) (auto simp: suffix_tl suffix_tl_tl)

lemma suffix_vs_spec: "vs_spec fmt args = Some (sp, fmt', args') \<Longrightarrow> suffix fmt' fmt"
  unfolding vs_spec_def
  by (auto split: prod.splits option.splits intro: suffix_order.trans
      dest!: suffix_vs_flags suffix_vs_width suffix_vs_precision suffix_vs_qualifier)

lemma ifE_Some: "(if b then x else y) = Some z \<Longrightarrow> (x = Some z \<Longrightarrow> P) \<Longrightarrow> (y = Some z \<Longrightarrow> P) \<Longrightarrow> P"
  by (auto split: if_splits)

lemma caseE_Some: "(case x of None \<Rightarrow> None | Some y \<Rightarrow> f y) = Some z \<Longrightarrow> (\<And>y. x = Some y \<Longrightarrow> f y = Some z \<Longrightarrow> P) \<Longrightarrow> P"
  by (auto split: option.splits)

lemma suffix_vs_convert:
  assumes "vs_convert buf e sp fmt args st = Some (st', fmt', args')"
  shows "suffix fmt' fmt"
proof -
  have "suffix (dropWhile isalnum (tl fmt)) fmt"
    by (rule suffix_order.trans [OF suffix_dropWhile suffix_tl])
  then show ?thesis
    using assms unfolding vs_convert_def Let_def case_prod_beta'
    by (elim ifE_Some caseE_Some; simp; metis suffix_tl suffix_order.refl)
qed

text \<open>A zero byte in the list ends the format as the terminator does.\<close>

function vs_loop :: "nat \<Rightarrow> nat \<Rightarrow> bytes \<Rightarrow> varg list \<Rightarrow> out \<Rightarrow> out option" where
  "vs_loop buf e fmt args st =
     (if peek fmt = 0 then Some st
      else if peek fmt \<noteq> 37 then vs_loop buf e (tl fmt) args (ADDCH e (peek fmt) st)
      else (case vs_spec (tl fmt) args of None \<Rightarrow> None
            | Some (sp, fmt', args') \<Rightarrow>
               (case vs_convert buf e sp fmt' args' st of None \<Rightarrow> None
                | Some (st', fmt'', args'') \<Rightarrow> vs_loop buf e fmt'' args'' st')))"
  by pat_completeness auto
termination
proof (relation "measure (\<lambda>(buf, e, fmt, args, st). length fmt)", goal_cases)
  case (2 buf e fmt args st)
  then show ?case by (cases fmt) auto
next
  case (3 buf e fmt args st)
  then show ?case
    by (cases fmt) (auto dest!: suffix_vs_spec suffix_vs_convert suffix_length_le)
qed simp

declare vs_loop.simps [simp del]

text \<open>The pointer is compared at its width, and the difference of the pointers is returned as an \<open>int\<close>.\<close>

definition vsnprintf_internal :: "mem \<Rightarrow> nat \<Rightarrow> nat \<Rightarrow> bytes \<Rightarrow> varg list \<Rightarrow> (int \<times> mem) option" where
  "vsnprintf_internal m buf sz fmt args =
     (let e = (buf + sz) mod 2 ^ 32;
          (e, sz) = (if e < buf then (2 ^ 32 - 1, 2 ^ 32 - 1 - buf) else (e, sz))
      in case vs_loop buf e fmt args (m, buf) of None \<Rightarrow> None
         | Some (m, str) \<Rightarrow>
             if sz > 0
             then (case ADDCH e 0 (m, str) of (m, str) \<Rightarrow>
                     Some (sint (word_of_nat (str - 1 - buf) :: u32), if str mod 2 ^ 32 > e then m(e - 1 := 0) else m))
             else Some (sint (word_of_nat (str - buf) :: u32), m))"

definition vsnprintf :: "mem \<Rightarrow> nat \<Rightarrow> nat \<Rightarrow> bytes \<Rightarrow> varg list \<Rightarrow> (int \<times> mem) option" where
  "vsnprintf m buf sz fmt args = vsnprintf_internal m buf sz fmt args"

text \<open>\<open>i < size\<close> compares unsigned, as \<open>size\<close> is a \<open>size_t\<close>.\<close>

definition vscnprintf :: "mem \<Rightarrow> nat \<Rightarrow> nat \<Rightarrow> bytes \<Rightarrow> varg list \<Rightarrow> (int \<times> mem) option" where
  "vscnprintf m buf sz fmt args =
     (case vsnprintf m buf sz fmt args of None \<Rightarrow> None
      | Some (i, m) \<Rightarrow> Some (if i mod 2 ^ 32 < int sz then i
                            else if sz \<noteq> 0 then sint (word_of_nat (sz - 1) :: u32) else 0, m))"

definition vsprintf :: "mem \<Rightarrow> nat \<Rightarrow> bytes \<Rightarrow> varg list \<Rightarrow> (int \<times> mem) option" where
  "vsprintf m buf fmt args = vsnprintf_internal m buf (2 ^ 31 - 1) fmt args"


subsection \<open>Emission of a text\<close>

definition emit :: "nat \<Rightarrow> bytes \<Rightarrow> out \<Rightarrow> out" where
  "emit e xs st = fold (ADDCH e) xs st"

lemma emit_simps [simp]: "emit e [] st = st" "emit e (x # xs) st = emit e xs (ADDCH e x st)"
  "emit e (xs @ ys) st = emit e ys (emit e xs st)"
  by (simp_all add: emit_def)

lemma pad_dec_emit:
  "pad_dec e c lim sz st = (min (sz - 1) (lim - 1), emit e (replicate (nat (sz - lim)) c) st)"
proof (induction e c lim sz st rule: pad_dec.induct)
  case (1 e c lim sz st)
  show ?case
  proof (cases "lim \<le> sz - 1")
    case True
    then have "nat (sz - lim) = Suc (nat (sz - 1 - lim))" by simp
    with 1 [OF refl True] True show ?thesis by (subst pad_dec.simps) simp
  qed (subst pad_dec.simps, simp)
qed

lemma pad_width_emit:
  "pad_width e len fw st = (min fw len - 1, emit e (replicate (nat (fw - len)) 32) st)"
proof (induction e len fw st rule: pad_width.induct)
  case (1 e len fw st)
  show ?case
  proof (cases "len < fw")
    case True
    then have "nat (fw - len) = Suc (nat (fw - 1 - len))" by simp
    with 1 [OF True] True show ?thesis by (subst pad_width.simps) simp
  qed (subst pad_width.simps, simp)
qed

lemma put_rev_emit: "n \<le> length tmp \<Longrightarrow> put_rev e tmp n st = emit e (rev (take n tmp)) st"
  by (induction n arbitrary: st) (simp_all add: take_Suc_conv_app_nth)

lemma emit_eq:
  "str + length xs \<le> 2 ^ 32 \<Longrightarrow> emit e xs (m, str) = (store m str (take (e - str) xs), str + length xs)"
proof (induction xs arbitrary: m str)
  case (Cons x xs)
  then have a: "str mod 2 ^ 32 = str" by simp
  show ?case
  proof (cases "str < e")
    case True
    then have "e - str = Suc (e - Suc str)" by simp
    with True Cons show ?thesis by (simp add: ADDCH_def a [simplified] store_Cons fun_upd_def)
  qed (use Cons in \<open>simp add: ADDCH_def a [simplified]\<close>)
qed simp

subsection \<open>What a number looks like\<close>

definition dchar :: "u8 \<Rightarrow> nat \<Rightarrow> u8" where
  "dchar lc d = digits16 ! d OR lc"

definition has :: "u32 \<Rightarrow> u32 \<Rightarrow> bool" where
  "has fl f \<longleftrightarrow> fl AND f \<noteq> 0"

definition sign_text :: "u64 \<Rightarrow> u32 \<Rightarrow> bytes" where
  "sign_text num fl =
     (if \<not> has fl SIGN then [] else if sint num < 0 then [45]
      else if has fl PLUS then [43] else if has fl SPACE then [32] else [])"

definition pfx_text :: "nat \<Rightarrow> u32 \<Rightarrow> bytes" where
  "pfx_text base fl =
     (if \<not> has fl SPECIAL then [] else if base = 16 then [48, 88 OR ucast (fl AND SMALL)]
      else if base = 8 then [48] else [])"

definition magnitude :: "u64 \<Rightarrow> u32 \<Rightarrow> nat" where
  "magnitude num fl = unat (if has fl SIGN \<and> sint num < 0 then - num else num)"

definition digits_text :: "nat \<Rightarrow> u8 \<Rightarrow> nat \<Rightarrow> bytes" where
  "digits_text base lc n = map (dchar lc) (rev (rdigits base n))"

text \<open>The C standard's account: sign, prefix and at least \<open>precision\<close> digits, padded to the width by
  spaces in front, by spaces behind (\<open>LEFT\<close>) or by zeros after the sign and prefix (\<open>ZEROPAD\<close>).\<close>

definition number_text :: "u64 \<Rightarrow> nat \<Rightarrow> int \<Rightarrow> int \<Rightarrow> u32 \<Rightarrow> bytes" where
  "number_text num base width prec fl =
     (let head = sign_text num fl @ pfx_text base fl;
          ds = digits_text base (ucast (fl AND SMALL)) (magnitude num fl);
          body = replicate (nat prec - length ds) 48 @ ds;
          fill = nat width - length (head @ body)
      in if has fl LEFT then head @ body @ replicate fill 32
         else if has fl ZEROPAD then head @ replicate fill 48 @ body
         else replicate fill 32 @ head @ body)"

lemma low_digit:
  fixes num :: u64
  assumes "k \<le> 8"
  shows "unat ((ucast (ucast num :: u8) :: u64) AND mask k) = unat num mod 2 ^ k"
proof -
  have "(ucast (ucast num :: u8) :: u64) AND mask k = take_bit k num"
    by (rule bit_word_eqI) (use assms in \<open>auto simp: bit_simps\<close>)
  then show ?thesis by (simp only: unsigned_take_bit_eq) (rule take_bit_eq_mod)
qed

lemma num_digits_step:
  assumes "base = 2 ^ k" "k = 3 \<or> k = 4"
  shows "num_digits num base lc = dchar lc (unat num mod base) #
    (if unat num div base \<noteq> 0 then num_digits (drop_bit k num) base lc else [])"
proof -
  have "(word_of_nat (base - 1) :: u64) = mask k" "(if base = 16 then 4 else 3) = k"
    using assms by (auto simp: mask_eq_exp_minus_1)
  moreover have "drop_bit k num = 0 \<longleftrightarrow> unat num div base = 0"
    unfolding assms(1) drop_bit_eq_div [symmetric] unat_drop_bit_eq [symmetric] by (simp only: unsigned_eq_0_iff)
  ultimately show ?thesis using assms(2) low_digit [of k num]
    by (subst num_digits.simps) (auto simp: dchar_def assms(1) Let_def)
qed

lemma num_digits_eq:
  assumes "base = 2 ^ k" "k = 3 \<or> k = 4"
  shows "num_digits num base lc = map (dchar lc) (rdigits base (unat num))"
proof (induction "unat num" arbitrary: num rule: less_induct)
  case less
  have b: "2 \<le> base" using assms by auto
  have u: "unat (drop_bit k num) = unat num div base"
    unfolding assms(1) unat_drop_bit_eq by (rule drop_bit_eq_div)
  show ?case
  proof (cases "unat num < base")
    case False
    then have "unat num div base < unat num" using b by (intro div_less_dividend) auto
    then have "num_digits (drop_bit k num) base lc = map (dchar lc) (rdigits base (unat num div base))"
      using less u by metis
    then show ?thesis using False b num_digits_step [OF assms, of num lc] by (simp add: rdigits_step div_greater_zero_iff)
  qed (simp add: num_digits_step [OF assms] rdigits_small)
qed


lemma dchar_dec: "d < 10 \<Longrightarrow> lc = 0 \<or> lc = 32 \<Longrightarrow> dchar lc d = dec_char d"
proof -
  assume "d < 10" "lc = 0 \<or> lc = 32"
  then have "d \<in> {0, 1, 2, 3, 4, 5, 6, 7, 8, 9}" "lc = 0 \<or> lc = 32" by auto
  then show ?thesis by (auto simp: dchar_def digits16_def dec_char_def)
qed

lemma bit_32: "bit (32 :: u32) n \<longleftrightarrow> n = 5"
  using bit_exp_iff [of 5 n, where 'a = u32] by auto

lemma SMALL_cases: "(ucast (fl AND SMALL) :: u8) = 0 \<or> (ucast (fl AND SMALL) :: u8) = 32"
proof -
  have "fl AND SMALL = (if bit fl 5 then 32 else 0)"
    unfolding SMALL_def by (rule bit_word_eqI) (cases "bit fl 5"; simp only: bit_and_iff bit_32 if_True if_False; auto)
  then show ?thesis by simp
qed

lemma has_simps:
  "has (fl AND NOT ZEROPAD) SIGN = has fl SIGN" "has (fl AND NOT ZEROPAD) PLUS = has fl PLUS"
  "has (fl AND NOT ZEROPAD) SPACE = has fl SPACE" "has (fl AND NOT ZEROPAD) LEFT = has fl LEFT"
  "\<not> has (fl AND NOT ZEROPAD) ZEROPAD"
  "has fl (ZEROPAD + LEFT) = (has fl ZEROPAD \<or> has fl LEFT)"
proof -
  have d: "fl AND 17 = (fl AND 1) OR (fl AND (16 :: u32))" by (simp add: bit.conj_disj_distrib [symmetric])
  show "has fl (ZEROPAD + LEFT) = (has fl ZEROPAD \<or> has fl LEFT)"
    unfolding has_def flag_defs using d by (simp add: or_eq_0_iff)
qed (simp_all add: has_def flag_defs and.assoc)


lemma number_digits:
  assumes "base = 8 \<or> base = 10 \<or> base = 16" "lc = 0 \<or> lc = 32"
  shows "(if num = 0 then [48] else if base \<noteq> 10 then num_digits num base lc else put_dec num)
    = rev (digits_text base lc (unat num))"
proof (cases "num = 0")
  case True
  have "0 < base" using assms(1) by auto
  with True show ?thesis using assms(2) by (auto simp: digits_text_def rdigits_small dchar_def digits16_def)
next
  case False
  have "num_digits num base lc = rev (digits_text base lc (unat num))" if "base \<noteq> 10"
    using that assms(1) num_digits_eq [of base 3 num lc] num_digits_eq [of base 4 num lc]
    by (auto simp: digits_text_def rev_map)
  moreover have "put_dec num = rev (digits_text 10 lc (unat num))"
    using assms(2) rdigits_lt [of 10 _ "unat num"] by (auto simp: digits_text_def put_dec_correct rev_map dchar_dec)
  ultimately show ?thesis using False by auto
qed

lemma number_sign_eq:
  "number_sign num sz fl = (x, y, z) \<Longrightarrow>
     (if x \<noteq> 0 then [x] else []) = sign_text num fl \<and> unat y = magnitude num fl \<and> z = sz - int (length (sign_text num fl))"
  by (auto simp: number_sign_def sign_text_def magnitude_def has_def split: if_splits)

lemma number_put_emit:
  assumes "head = (if sign \<noteq> 0 then [sign] else []) @ (if need_pfx then 48 # (if base = 16 then [88 OR lc] else []) else [])"
    and "body = replicate (nat prec - length tmp) 48 @ rev tmp" "has fl LEFT \<longrightarrow> \<not> has fl ZEROPAD"
  shows "number_put e tmp sign need_pfx base lc (sz - int (length head)) prec fl st = emit e
    (let fill = nat sz - length (head @ body)
     in if has fl LEFT then head @ body @ replicate fill 32
        else if has fl ZEROPAD then head @ replicate fill 48 @ body
        else replicate fill 32 @ head @ body) st"
proof -
  define n where "n = int (length tmp)"
  define p where "p = (if n > prec then n else prec)"
  define w where "w = sz - int (length head) - p"
  have fill: "nat sz - length (head @ body) = nat w" by (auto simp: assms(2) w_def p_def n_def)
  have z: "nat (p - n) = nat prec - length tmp" by (auto simp: p_def n_def)
  have h: "emit e head st' = (let st = (if sign \<noteq> 0 then ADDCH e sign st' else st') in
      if need_pfx then let st = ADDCH e 48 st in if base = 16 then ADDCH e (88 OR lc) st else st else st)" for st'
    by (simp add: assms(1))
  have b: "emit e body st' = put_rev e tmp (length tmp) (snd (pad_dec e 48 n p st'))" for st'
    by (simp add: assms(2) put_rev_emit pad_dec_emit z)
  have zl: "(fl AND (ZEROPAD + LEFT) = 0) = (\<not> has fl ZEROPAD \<and> \<not> has fl LEFT)"
    using has_simps(6) [of fl] by (auto simp: has_def)
  have hz: "(fl AND ZEROPAD \<noteq> 0) = has fl ZEROPAD" "(fl AND LEFT = 0) = (\<not> has fl LEFT)"
    by (simp_all add: has_def)
  show ?thesis
    unfolding number_put_def fill Let_def n_def [symmetric] p_def [symmetric] w_def [symmetric] case_prod_beta
      zl hz
    using assms(3) h b unfolding Let_def
    by (cases "has fl LEFT"; cases "has fl ZEROPAD"; simp add: pad_dec_emit)
qed

lemma number_emit:
  assumes "base = 8 \<or> base = 10 \<or> base = 16"
  shows "number e num base sz prec fl st = emit e (number_text num base sz prec fl) st"
proof -
  define lc where "lc = (ucast (fl AND SMALL) :: u8)"
  define fl' where "fl' = (if fl AND LEFT \<noteq> 0 then fl AND NOT ZEROPAD else fl)"
  have f: "sign_text num fl' = sign_text num fl" "magnitude num fl' = magnitude num fl"
    "has fl' LEFT = has fl LEFT" "has fl' ZEROPAD = (has fl ZEROPAD \<and> \<not> has fl LEFT)"
    using has_simps [of fl] by (auto simp: fl'_def sign_text_def magnitude_def has_def)
  obtain x y z where s: "number_sign num sz fl' = (x, y, z)" by (cases "number_sign num sz fl'") auto
  note sg = number_sign_eq [OF s, unfolded f]
  define pf where "pf \<longleftrightarrow> fl AND SPECIAL \<noteq> 0 \<and> base \<noteq> 10"
  have pt: "pfx_text base fl = (if pf then 48 # (if base = 16 then [88 OR lc] else []) else [])"
    using assms by (auto simp: pfx_text_def pf_def lc_def has_def)
  define tmp where "tmp = rev (digits_text base lc (magnitude num fl))"
  have dg: "(if y = 0 then [48] else if base \<noteq> 10 then num_digits y base lc else put_dec y) = tmp"
    using number_digits [OF assms, of lc y] SMALL_cases sg by (simp add: tmp_def lc_def)
  have sz: "(if pf then (if base = 16 then z - 1 - 1 else z - 1) else z)
      = sz - int (length (sign_text num fl @ pfx_text base fl))"
    using sg by (simp add: pt)
  have "number e num base sz prec fl st =
      number_put e tmp x pf base lc (sz - int (length (sign_text num fl @ pfx_text base fl))) prec fl' st"
    unfolding number_def Let_def fl'_def [symmetric] lc_def [symmetric] s prod.case pf_def [symmetric] dg sz ..
  also have "\<dots> = emit e (number_text num base sz prec fl) st"
    using number_put_emit [OF _ refl, where head = "sign_text num fl @ pfx_text base fl" and sign = x and
        need_pfx = pf and base = base and lc = lc and tmp = tmp and fl = fl'] sg pt f
    by (simp add: number_text_def Let_def tmp_def lc_def [symmetric])
  finally show ?thesis .
qed


subsection \<open>What a string looks like\<close>

definition string_text :: "bytes \<Rightarrow> int \<Rightarrow> u32 \<Rightarrow> bytes" where
  "string_text t width fl =
     (let fill = replicate (nat width - length t) 32 in if has fl LEFT then t @ fill else fill @ t)"

definition prec_nat :: "int \<Rightarrow> nat" where
  "prec_nat p = unat (word_of_int p :: u32)"

lemma ADDCH_snd [simp]: "snd (ADDCH e x st) = Suc (snd st)"
  by (cases st) (simp add: ADDCH_def)

lemma emit_snd [simp]: "snd (emit e xs st) = snd st + length xs"
  by (induction xs arbitrary: st) simp_all

lemma ADDCH_outside: "a < snd st \<and> snd st < 2 ^ 32 \<or> e \<le> a \<Longrightarrow> fst (ADDCH e x st) a = fst st a"
  by (cases st) (auto simp: ADDCH_def)

lemma emit_outside: "a < snd st \<and> snd st + length xs \<le> 2 ^ 32 \<or> e \<le> a \<Longrightarrow> fst (emit e xs st) a = fst st a"
proof (induction xs arbitrary: st)
  case (Cons x xs)
  have "fst (emit e xs (ADDCH e x st)) a = fst (ADDCH e x st) a" by (rule Cons.IH) (use Cons.prems in auto)
  also have "\<dots> = fst st a" by (rule ADDCH_outside) (use Cons.prems in auto)
  finally show ?case by simp
qed simp

lemma copy_src_emit:
  assumes "\<And>p i. s = Ram p \<Longrightarrow> i < n \<Longrightarrow> p + k + i < snd st \<and> snd st + n \<le> 2 ^ 32 \<or> e \<le> p + k + i"
  shows "copy_src e s k n st = emit e (bytes_at (src_mem s (fst st)) (src_addr s + k) n) st"
  using assms
proof (induction n arbitrary: k st)
  case (Suc n)
  let ?st = "ADDCH e (src_mem s (fst st) (src_addr s + k)) st"
  have "p + (k + 1) + i < snd ?st \<and> snd ?st + n \<le> 2 ^ 32 \<or> e \<le> p + (k + 1) + i" if "s = Ram p" "i < n" for p i
    using Suc.prems [of p "Suc i"] that by auto
  then have "copy_src e s k (Suc n) st = emit e (bytes_at (src_mem s (fst ?st)) (src_addr s + (k + 1)) n) ?st"
    by (simp add: Suc.IH)
  also have "bytes_at (src_mem s (fst ?st)) (src_addr s + (k + 1)) n = bytes_at (src_mem s (fst st)) (src_addr s + (k + 1)) n"
  proof (rule bytes_at_cong)
    fix i assume "i < n"
    show "src_mem s (fst ?st) (src_addr s + (k + 1) + i) = src_mem s (fst st) (src_addr s + (k + 1) + i)"
      using Suc.prems [of _ "Suc i"] \<open>i < n\<close> by (cases s) (auto simp: src_mem_def src_addr_def intro!: ADDCH_outside)
  qed
  finally show ?case by simp
qed simp

lemma string_emit:
  assumes "s' = (if s = Ram 0 then lit (bs ''<NULL>'') else s)"
    and "len = strnlen (src_mem s' (fst st)) (src_addr s') (prec_nat prec)"
    and "\<And>p i. s' = Ram p \<Longrightarrow> i < len \<Longrightarrow> p + i < snd st \<and> snd st + max (nat fw) len \<le> 2 ^ 32 \<or> e \<le> p + i"
  shows "string e s fw prec fl st = emit e (string_text (bytes_at (src_mem s' (fst st)) (src_addr s') len) fw fl) st"
proof -
  have c: "copy_src e s' 0 len (emit e xs st) = emit e (bytes_at (src_mem s' (fst st)) (src_addr s') len) (emit e xs st)"
    if xs: "length xs + len \<le> max (nat fw) len" for xs
  proof -
    have "p + 0 + i < snd (emit e xs st) \<and> snd (emit e xs st) + len \<le> 2 ^ 32 \<or> e \<le> p + 0 + i" if "s' = Ram p" "i < len" for p i
      using assms(3) [OF that] xs by auto
    then have "copy_src e s' 0 len (emit e xs st) = emit e (bytes_at (src_mem s' (fst (emit e xs st))) (src_addr s' + 0) len) (emit e xs st)"
      by (rule copy_src_emit)
    also have "bytes_at (src_mem s' (fst (emit e xs st))) (src_addr s' + 0) len = bytes_at (src_mem s' (fst st)) (src_addr s') len"
      unfolding add_0_right by (rule bytes_at_cong)
        (use assms(3) xs in \<open>cases s'; force simp: src_mem_def src_addr_def intro!: emit_outside\<close>)
    finally show ?thesis .
  qed
  have l: "length (bytes_at m p len) = len" for m p by (simp add: bytes_at_def)
  have f: "nat (fw - int len) = nat fw - len" "nat (min fw (int len) - 1 - int len) = 0" by auto
  show ?thesis
    using c [of "[]"] c [of "replicate (nat fw - len) 32"]
    unfolding string_def Let_def assms(1) [symmetric] prec_nat_def [symmetric] assms(2) [symmetric] case_prod_beta
    by (cases "has fl LEFT") (simp_all add: string_text_def has_def pad_width_emit l f)
qed

lemma strnlen_lit: "0 \<notin> set xs \<Longrightarrow> strnlen (store (\<lambda>_. 0) 0 xs) 0 n = min n (length xs)"
  by (rule strnlen_cstr) (simp add: cstr_iff store_out)

lemma lit_terminated: "lit (xs @ [0]) = lit xs"
  by (simp add: lit_def store_snoc fun_upd_idem_iff store_out)

lemma string_lit:
  assumes "0 \<notin> set xs"
  shows "string e (lit xs) fw prec fl st = emit e (string_text (take (prec_nat prec) xs) fw fl) st"
proof -
  have "string e (lit xs) fw prec fl st = emit e (string_text
     (bytes_at (store (\<lambda>_. 0) 0 xs) 0 (min (prec_nat prec) (length xs))) fw fl) st"
    by (subst string_emit [OF refl refl]) (simp_all add: lit_def src_mem_def src_addr_def strnlen_lit assms)
  also have "bytes_at (store (\<lambda>_. 0) 0 xs) 0 (min (prec_nat prec) (length xs)) = take (prec_nat prec) xs"
    using take_bytes_at [of "prec_nat prec" "store (\<lambda>_. 0) 0 xs" 0 "length xs"] by simp
  finally show ?thesis .
qed


subsection \<open>What an address looks like\<close>

definition hex_byte_text :: "u8 \<Rightarrow> bytes" where
  "hex_byte_text b = [dchar 32 (unat b div 16), dchar 32 (unat b mod 16)]"

fun colons :: "bytes list \<Rightarrow> bytes" where
  "colons [] = []"
| "colons [x] = x"
| "colons (x # y # xs) = x @ 58 # colons (y # xs)"

definition mac_text :: "mem \<Rightarrow> nat \<Rightarrow> u32 \<Rightarrow> bytes" where
  "mac_text m a fl = (let xs = map (\<lambda>i. hex_byte_text (m (a + i))) [0..<6]
     in if has fl SPECIAL then concat xs else colons xs)"

definition ip6_text :: "mem \<Rightarrow> nat \<Rightarrow> u32 \<Rightarrow> bytes" where
  "ip6_text m a fl = (let xs = map (\<lambda>i. hex_byte_text (m (a + 2 * i)) @ hex_byte_text (m (a + (2 * i + 1)))) [0..<8]
     in if has fl SPECIAL then concat xs else colons xs)"

definition ip4_text :: "mem \<Rightarrow> nat \<Rightarrow> bytes" where
  "ip4_text m a = decimal (unat (m a)) @ 46 # decimal (unat (m (a + 1))) @ 46 #
     decimal (unat (m (a + 2))) @ 46 # decimal (unat (m (a + 3)))"

lemma pack_hex_byte_eq: "pack_hex_byte b = hex_byte_text b"
  by (rule all_u8 [where P = "\<lambda>b. pack_hex_byte b = hex_byte_text b"]) code_simp

lemma hex_byte_text_nonzero: "0 \<notin> set (hex_byte_text b)"
  by (rule all_u8 [where P = "\<lambda>b. 0 \<notin> set (hex_byte_text b)"]) code_simp

lemma decimal_nonzero: "0 \<notin> set (decimal n)"
  using rdigits_lt [of 10 _ n] dec_char_props(2) NUL_classes(2) by (fastforce simp: decimal_def)

lemma put_dec_trunc_byte: "rev (put_dec_trunc (ucast (b :: u8))) = decimal (unat b)"
proof -
  have "(ucast b :: u32) = word_of_nat (unat b)" by simp
  moreover have "unat b < 100000" using unat_u8_lt [of b] by linarith
  ultimately show ?thesis
    by (metis decimal_def put_dec_trunc_correct rev_map)
qed

lemma colons_nonzero: "\<forall>x \<in> set xs. 0 \<notin> set x \<Longrightarrow> 0 \<notin> set (colons xs) \<and> 0 \<notin> set (concat xs)"
  by (induction xs rule: colons.induct) auto

lemma upt_concrete: "[0..<4] = [0, 1, 2, 3]" "[0..<6] = [0, 1, 2, 3, 4, 5]" "[0..<8] = [0, 1, 2, 3, 4, 5, 6, 7]"
  by (simp_all add: upt_conv_Cons)

lemma mac_emit:
  "mac_address_string e a fw prec fl st =
     emit e (string_text (take (prec_nat prec) (mac_text (fst st) a fl)) fw (fl AND NOT SPECIAL)) st"
proof -
  have t: "mac_addr_array (fst st) a fl = mac_text (fst st) a fl @ [0]"
    by (simp add: mac_addr_array_def upt_concrete mac_text_def pack_hex_byte_eq has_def Let_def)
  have z: "0 \<notin> set (mac_text (fst st) a fl)"
    unfolding mac_text_def Let_def
    by (cases "has fl SPECIAL"; simp only: if_True if_False)
      (rule colons_nonzero [THEN conjunct2] colons_nonzero [THEN conjunct1], simp add: hex_byte_text_nonzero)+
  show ?thesis unfolding mac_address_string_def t lit_terminated by (rule string_lit [OF z])
qed

lemma ip6_emit:
  "ip6_addr_string e a fw prec fl st =
     emit e (string_text (take (prec_nat prec) (ip6_text (fst st) a fl)) fw (fl AND NOT SPECIAL)) st"
proof -
  have t: "ip6_addr_array (fst st) a fl = ip6_text (fst st) a fl @ [0]"
    by (simp add: ip6_addr_array_def upt_concrete ip6_text_def pack_hex_byte_eq has_def Let_def)
  have z: "0 \<notin> set (ip6_text (fst st) a fl)"
    unfolding ip6_text_def Let_def
    by (cases "has fl SPECIAL"; simp only: if_True if_False)
      (rule colons_nonzero [THEN conjunct2] colons_nonzero [THEN conjunct1], simp add: hex_byte_text_nonzero)+
  show ?thesis unfolding ip6_addr_string_def t lit_terminated by (rule string_lit [OF z])
qed

lemma ip4_emit:
  "ip4_addr_string e a fw prec fl st =
     emit e (string_text (take (prec_nat prec) (ip4_text (fst st) a)) fw (fl AND NOT SPECIAL)) st"
proof -
  have t: "ip4_addr_array (fst st) a = ip4_text (fst st) a @ [0]"
    by (simp add: ip4_addr_array_def upt_concrete ip4_text_def put_dec_trunc_byte)
  have z: "0 \<notin> set (ip4_text (fst st) a)"
    by (simp add: ip4_text_def decimal_nonzero)
  show ?thesis unfolding ip4_addr_string_def t lit_terminated by (rule string_lit [OF z])
qed

end
