(* ===== verification/Vsprintf_Text.thy ===== *)
theory Vsprintf_Text
  imports Vsprintf
begin

text \<open>
  What \<open>vsnprintf\<close> prints: \<open>vs_text\<close> is the text of a format and its arguments in a given memory, and
  the regions of memory that the conversions read, with no output buffer; \<open>None\<close> is undefined
  behaviour (an argument that is missing) or the conversion \<open>%n\<close>, which stores through its argument.
  The refinement says that \<open>vsnprintf\<close>, which interleaves the reads with its stores into the buffer,
  leaves the text cut to the buffer and a terminator there, and returns the length of the whole text,
  whenever the buffer is apart from what is read.
\<close>

subsection \<open>The text of a conversion\<close>

definition pointer_text :: "mem \<Rightarrow> bytes \<Rightarrow> u32 \<Rightarrow> int \<Rightarrow> int \<Rightarrow> u32 \<Rightarrow> bytes" where
  "pointer_text m fmt ptr width prec fl =
     (let cut = (\<lambda>t. string_text (take (prec_nat prec) t) width (fl AND NOT SPECIAL));
          raw = (\<lambda>c. if peek fmt = c then fl OR SPECIAL else fl)
      in if ptr = 0 then string_text (take (prec_nat prec) (bs ''(null)'')) width fl
         else if peek fmt = 109 \<or> peek fmt = 77 then cut (mac_text m (unat ptr) (raw 109))
         else if (peek fmt = 105 \<or> peek fmt = 73) \<and> peek (tl fmt) = 54 then cut (ip6_text m (unat ptr) (raw 105))
         else if (peek fmt = 105 \<or> peek fmt = 73) \<and> peek (tl fmt) = 52 then cut (ip4_text m (unat ptr))
         else let fl = (if peek fmt = 105 \<or> peek fmt = 73 then fl AND NOT SPECIAL else fl) OR SMALL
              in if width = - 1 then number_text (ucast ptr) 16 8 prec (fl OR ZEROPAD)
                 else number_text (ucast ptr) 16 width prec fl)"

definition pointer_reads :: "bytes \<Rightarrow> u32 \<Rightarrow> (nat \<times> nat) list" where
  "pointer_reads fmt ptr =
     (if ptr = 0 then []
      else if peek fmt = 109 \<or> peek fmt = 77 then [(unat ptr, 6)]
      else if (peek fmt = 105 \<or> peek fmt = 73) \<and> peek (tl fmt) = 54 then [(unat ptr, 16)]
      else if (peek fmt = 105 \<or> peek fmt = 73) \<and> peek (tl fmt) = 52 then [(unat ptr, 4)]
      else [])"

definition conv_text :: "mem \<Rightarrow> fspec \<Rightarrow> bytes \<Rightarrow> varg list \<Rightarrow> (bytes \<times> (nat \<times> nat) list \<times> bytes \<times> varg list) option" where
  "conv_text m sp fmt args =
     (let c = peek fmt; fl = flags sp; fw = field_width sp; p = precision sp
      in if c = 99
      then (case va32 args of None \<Rightarrow> None | Some (w, args) \<Rightarrow> Some (string_text [ucast w] fw fl, [], tl fmt, args))
      else if c = 115
      then (case va32 args of None \<Rightarrow> None | Some (w, args) \<Rightarrow>
              if w = 0 then Some (string_text (take (prec_nat p) (bs ''<NULL>'')) fw fl, [], tl fmt, args)
              else let n = strnlen m (unat w) (prec_nat p)
                   in Some (string_text (bytes_at m (unat w) n) fw fl, [(unat w, Suc n)], tl fmt, args))
      else if c = 112
      then (case va32 args of None \<Rightarrow> None | Some (w, args) \<Rightarrow>
              Some (pointer_text m (tl fmt) w fw p fl, pointer_reads (tl fmt) w, dropWhile isalnum (tl fmt), args))
      else if c = 110 then None
      else if c = 37 then Some ([37], [], tl fmt, args)
      else if c \<in> {111, 120, 88, 100, 105, 117}
      then (let base = (if c = 111 then 8 else if c = 120 \<or> c = 88 then 16 else 10);
                fl = (if c = 120 then fl OR SMALL else if c = 100 \<or> c = 105 then fl OR SIGN else fl)
            in case vs_num (qualifier sp) fl args of None \<Rightarrow> None | Some (num, args) \<Rightarrow>
                 Some (number_text num base fw p fl, [], tl fmt, args))
      else if c \<noteq> 0 then Some ([37, c], [], tl fmt, args) else Some ([37], [], fmt, args))"

definition apart :: "nat \<Rightarrow> nat \<Rightarrow> (nat \<times> nat) list \<Rightarrow> bool" where
  "apart lo e = list_all (\<lambda>(p, n). p + n \<le> lo \<or> e \<le> p)"

lemma apart_simps [simp]: "apart lo e []" "apart lo e ((p, n) # r) \<longleftrightarrow> (p + n \<le> lo \<or> e \<le> p) \<and> apart lo e r"
  "apart lo e (r @ r') \<longleftrightarrow> apart lo e r \<and> apart lo e r'"
  by (simp_all add: apart_def)

definition agree :: "nat \<Rightarrow> nat \<Rightarrow> mem \<Rightarrow> mem \<Rightarrow> bool" where
  "agree lo e m m' \<longleftrightarrow> (\<forall>a. a < lo \<or> e \<le> a \<longrightarrow> m' a = m a)"

lemma agree_emit:
  "agree lo e m (fst st) \<Longrightarrow> lo \<le> snd st \<Longrightarrow> snd st + length xs \<le> 2 ^ 32 \<Longrightarrow> agree lo e m (fst (emit e xs st))"
  by (auto simp: agree_def emit_outside)

lemma agree_region: "agree lo e m m' \<Longrightarrow> p + n \<le> lo \<or> e \<le> p \<Longrightarrow> i < n \<Longrightarrow> m' (p + i) = m (p + i)"
  by (auto simp: agree_def)

lemma strnlen_loop_cong:
  assumes "s \<le> sc" "\<forall>a. sc \<le> a \<and> a \<le> s + strnlen_loop m s sc n \<longrightarrow> m' a = m a"
  shows "strnlen_loop m' s sc n = strnlen_loop m s sc n"
  using assms
proof (induction m s sc n rule: strnlen_loop.induct)
  case (2 m s sc cnt)
  have "sc \<le> s + strnlen_loop m s sc k" if "s \<le> sc" for sc k
    using that by (induction m s sc k rule: strnlen_loop.induct) auto
  then have "m' sc = m sc" using 2(2,3) by blast
  then show ?case using 2 by auto
qed simp

lemma strnlen_cong:
  "(\<And>i. i \<le> strnlen m p n \<Longrightarrow> m' (p + i) = m (p + i)) \<Longrightarrow> strnlen m' p n = strnlen m p n"
  unfolding strnlen_def
  by (rule strnlen_loop_cong) (simp, metis le_add_diff_inverse add_le_cancel_left)

subsection \<open>The conversions emit their text\<close>

lemma pointer_emit:
  assumes "agree lo e m (fst st)" "apart lo e (pointer_reads fmt ptr)"
  shows "pointer fmt e ptr fw prec fl st = emit e (pointer_text m fmt ptr fw prec fl) st"
proof -
  note r = agree_region [OF assms(1)]
  have mac_m: "mac_text (fst st) a f = mac_text m a f" if "a + 6 \<le> lo \<or> e \<le> a" for a f
    unfolding mac_text_def
    by (subst map_cong [OF refl, of "[0..<6]" _ "\<lambda>i. hex_byte_text (m (a + i))"]) (simp_all only: r [OF that] atLeastLessThan_iff set_upt)
  have ip6_m: "ip6_text (fst st) a f = ip6_text m a f" if "a + 16 \<le> lo \<or> e \<le> a" for a f
  proof -
    have "i < 8 \<Longrightarrow> fst st (a + 2 * i) = m (a + 2 * i)" "i < 8 \<Longrightarrow> fst st (a + (2 * i + 1)) = m (a + (2 * i + 1))" for i
      using r [OF that, of "2 * i"] r [OF that, of "2 * i + 1"] by simp_all
    then show ?thesis unfolding ip6_text_def
      by (subst map_cong [OF refl, of "[0..<8]" _ "\<lambda>i. hex_byte_text (m (a + 2 * i)) @ hex_byte_text (m (a + (2 * i + 1)))"])
        (simp_all only: atLeastLessThan_iff set_upt)
  qed
  have ip4_m: "ip4_text (fst st) a = ip4_text m a" if "a + 4 \<le> lo \<or> e \<le> a" for a
    using r [OF that, of 0] r [OF that, of 1] r [OF that, of 2] r [OF that, of 3] by (simp add: ip4_text_def)
  have "(fl OR SPECIAL) AND NOT SPECIAL = fl AND NOT SPECIAL"
    by (rule bit_word_eqI) (auto simp: bit_simps)
  then have z: "(if b then fl OR SPECIAL else fl) AND NOT SPECIAL = fl AND NOT SPECIAL" for b by simp
  have n: "0 \<notin> set (bs ''(null)'')" by simp
  let ?M = "peek fmt = 109 \<or> peek fmt = 77" and ?I = "peek fmt = 105 \<or> peek fmt = 73"
  consider (null) "ptr = 0" | (mac) "ptr \<noteq> 0" "?M" | (ip6) "ptr \<noteq> 0" "\<not> ?M" "?I \<and> peek (tl fmt) = 54"
    | (ip4) "ptr \<noteq> 0" "\<not> ?M" "\<not> (?I \<and> peek (tl fmt) = 54)" "?I \<and> peek (tl fmt) = 52"
    | (num) "ptr \<noteq> 0" "\<not> ?M" "\<not> (?I \<and> peek (tl fmt) = 54)" "\<not> (?I \<and> peek (tl fmt) = 52)"
    by argo
  then show ?thesis
  proof cases
    case null
    show ?thesis unfolding pointer_def pointer_text_def Let_def if_P [OF null] by (rule string_lit [OF n])
  next
    case mac
    then have "unat ptr + 6 \<le> lo \<or> e \<le> unat ptr" using assms(2) by (simp add: pointer_reads_def)
    then show ?thesis unfolding pointer_def pointer_text_def Let_def if_not_P [OF mac(1)] if_P [OF mac(2)]
      by (simp only: mac_emit mac_m z)
  next
    case ip6
    then have "unat ptr + 16 \<le> lo \<or> e \<le> unat ptr" using assms(2) unfolding pointer_reads_def by (simp split: if_splits)
    then show ?thesis
      unfolding pointer_def pointer_text_def Let_def if_not_P [OF ip6(1)] if_not_P [OF ip6(2)] if_P [OF ip6(3)]
      by (simp only: ip6_emit ip6_m z)
  next
    case ip4
    then have "unat ptr + 4 \<le> lo \<or> e \<le> unat ptr" using assms(2) unfolding pointer_reads_def by (simp split: if_splits)
    then show ?thesis
      unfolding pointer_def pointer_text_def Let_def if_not_P [OF ip4(1)] if_not_P [OF ip4(2)] if_not_P [OF ip4(3)]
        if_P [OF ip4(4)]
      by (simp only: ip4_emit ip4_m z)
  next
    case num
    show ?thesis
      unfolding pointer_def pointer_text_def Let_def if_not_P [OF num(1)] if_not_P [OF num(2)] if_not_P [OF num(3)]
        if_not_P [OF num(4)]
      by (cases "fw = - 1") (simp_all add: number_emit)
  qed
qed


lemma string_arg_emit:
  assumes "agree lo e m (fst st)" "lo \<le> snd st" "w \<noteq> 0" "n = strnlen m (unat w) (prec_nat p)"
    and "unat w + Suc n \<le> lo \<or> e \<le> unat w"
    and "snd st + length (string_text (bytes_at m (unat w) n) fw fl) \<le> 2 ^ 32"
  shows "string e (Ram (unat w)) fw p fl st = emit e (string_text (bytes_at m (unat w) n) fw fl) st"
proof -
  have r: "fst st (unat w + i) = m (unat w + i)" if "i \<le> n" for i
    using agree_region [OF assms(1,5)] that by simp
  have len: "strnlen (fst st) (unat w) (prec_nat p) = n"
    unfolding assms(4) by (rule strnlen_cong) (use r assms(4) in blast)
  have l: "snd st + max (nat fw) n \<le> 2 ^ 32"
    using assms(6) by (auto simp: string_text_def Let_def max_def bytes_at_def split: if_splits)
  have "unat w \<noteq> 0" using assms(3) by (simp add: unsigned_eq_0_iff)
  then have "string e (Ram (unat w)) fw p fl st = emit e (string_text (bytes_at (fst st) (unat w) n) fw fl) st"
    using assms(2,5) l
    by (subst string_emit [OF refl refl]) (auto simp: src_mem_def src_addr_def len)
  also have "bytes_at (fst st) (unat w) n = bytes_at m (unat w) n"
    by (rule bytes_at_cong) (simp add: r)
  finally show ?thesis .
qed

lemma null_string_emit: "string e (Ram 0) fw p fl st = emit e (string_text (take (prec_nat p) (bs ''<NULL>'')) fw fl) st"
proof -
  have "0 \<notin> set (bs ''<NULL>'')" by simp
  note string_lit [OF this]
  moreover have "string e (Ram 0) fw p fl st = string e (lit (bs ''<NULL>'')) fw p fl st"
    by (simp add: string_def lit_def)
  ultimately show ?thesis by simp
qed

lemma char_emit:
  "(let (fw, st) = (if fl AND LEFT = 0 then pad_dec e 32 1 fw st else (fw, st));
        st = ADDCH e c st; (_, st) = pad_dec e 32 1 fw st in st) = emit e (string_text [c] fw fl) st"
proof -
  have "nat (fw - 1) = nat fw - 1" "nat (min (fw - 1) 0 - 1) = 0" by auto
  then show ?thesis
    by (cases "has fl LEFT") (simp_all add: string_text_def has_def pad_dec_emit)
qed

lemma convert_emit:
  assumes "agree lo e m (fst st)" "lo \<le> snd st" "conv_text m sp fmt args = Some (t, r, fmt', args')" "apart lo e r"
    and "snd st + length t \<le> 2 ^ 32"
  shows "vs_convert buf e sp fmt args st = Some (emit e t st, fmt', args')"
proof -
  let ?c = "peek fmt"
  consider (c) "?c = 99" | (s) "?c = 115" | (p) "?c = 112" | (n) "?c = 110" | (pc) "?c = 37"
    | (num) "?c \<in> {111, 120, 88, 100, 105, 117}"
    | (other) "?c \<notin> {99, 115, 112, 110, 37, 111, 120, 88, 100, 105, 117}"
    by auto
  then show ?thesis
  proof cases
    case c
    then show ?thesis
      using assms(3) char_emit [of "flags sp" e "field_width sp" st]
      by (auto simp: vs_convert_def conv_text_def Let_def case_prod_beta split: option.splits)
  next
    case s
    obtain w where v: "va32 args = Some (w, args')"
      using assms(3) s by (auto simp: conv_text_def Let_def split: option.splits if_splits)
    show ?thesis
    proof (cases "w = 0")
      case True
      then show ?thesis
        using assms(3) s v unfolding conv_text_def vs_convert_def Let_def by (simp add: null_string_emit del: bs_simps)
    next
      case False
      then show ?thesis
        using assms(3-5) s v string_arg_emit [OF assms(1,2) False refl]
        by (auto simp: vs_convert_def conv_text_def Let_def)
    qed
  next
    case p
    then show ?thesis
      using assms pointer_emit [OF assms(1)]
      by (auto simp: vs_convert_def conv_text_def split: option.splits)
  next
    case num
    define b where "b = (if ?c = 111 then 8 else if ?c = 120 \<or> ?c = 88 then 16 else 10 :: nat)"
    have b: "b = 8 \<or> b = 10 \<or> b = 16" by (simp add: b_def)
    have "?c \<noteq> 99" "?c \<noteq> 115" "?c \<noteq> 112" "?c \<noteq> 110" "?c \<noteq> 37" using num by auto
    then show ?thesis
      using assms(3) num unfolding vs_convert_def conv_text_def Let_def b_def [symmetric]
      by (auto simp: number_emit [OF b] split: option.splits)
  qed (use assms(3) in \<open>auto simp: vs_convert_def conv_text_def Let_def split: if_splits\<close>)
qed


subsection \<open>The text of a format\<close>

lemma suffix_conv_text:
  assumes "conv_text m sp fmt args = Some (t, r, fmt', args')"
  shows "suffix fmt' fmt"
proof -
  have "suffix (dropWhile isalnum (tl fmt)) fmt"
    by (rule suffix_order.trans [OF suffix_dropWhile suffix_tl])
  then show ?thesis
    using assms unfolding conv_text_def Let_def case_prod_beta'
    by (elim ifE_Some caseE_Some; simp; metis suffix_tl suffix_order.refl)
qed

function vs_text :: "mem \<Rightarrow> bytes \<Rightarrow> varg list \<Rightarrow> (bytes \<times> (nat \<times> nat) list) option" where
  "vs_text m fmt args =
     (if peek fmt = 0 then Some ([], [])
      else if peek fmt \<noteq> 37
      then (case vs_text m (tl fmt) args of None \<Rightarrow> None | Some (t, r) \<Rightarrow> Some (peek fmt # t, r))
      else (case vs_spec (tl fmt) args of None \<Rightarrow> None
            | Some (sp, fmt', args') \<Rightarrow>
               (case conv_text m sp fmt' args' of None \<Rightarrow> None
                | Some (t, r, fmt'', args'') \<Rightarrow>
                   (case vs_text m fmt'' args'' of None \<Rightarrow> None | Some (t', r') \<Rightarrow> Some (t @ t', r @ r')))))"
  by pat_completeness auto
termination
proof (relation "measure (\<lambda>(m, fmt, args). length fmt)", goal_cases)
  case (2 m fmt args)
  then show ?case by (cases fmt) auto
next
  case (3 m fmt args)
  then show ?case
    by (cases fmt) (auto dest!: suffix_vs_spec suffix_conv_text suffix_length_le)
qed simp

declare vs_text.simps [simp del]

lemma loop_emit:
  assumes "vs_text m fmt args = Some (t, r)" "agree lo e m (fst st)" "lo \<le> snd st" "apart lo e r"
    and "snd st + length t \<le> 2 ^ 32"
  shows "vs_loop buf e fmt args st = Some (emit e t st)"
  using assms
proof (induction m fmt args arbitrary: t r st rule: vs_text.induct)
  case (1 m fmt args)
  consider (fin) "peek fmt = 0" | (chr) "peek fmt \<noteq> 0" "peek fmt \<noteq> 37" | (conv) "peek fmt = 37"
    by blast
  then show ?case
  proof cases
    case fin
    then show ?thesis using 1(3) by (simp add: vs_text.simps vs_loop.simps)
  next
    case chr
    then obtain t' where "vs_text m (tl fmt) args = Some (t', r)" "t = peek fmt # t'"
      using 1(3) by (subst (asm) vs_text.simps) (auto split: option.splits)
    with 1(1) [OF chr this(1), of "emit e [peek fmt] st"] chr 1(4-7) agree_emit [OF 1(4,5), of "[peek fmt]"]
    show ?thesis by (subst vs_loop.simps) (simp add: emit_simps(1,2))
  next
    case conv
    then obtain sp f a t1 r1 f' a' t2 r2 where s: "vs_spec (tl fmt) args = Some (sp, f, a)"
        "conv_text m sp f a = Some (t1, r1, f', a')" "vs_text m f' a' = Some (t2, r2)" "t = t1 @ t2" "r = r1 @ r2"
      using 1(3) by (subst (asm) vs_text.simps) (auto split: option.splits)
    then have "apart lo e r1" "apart lo e r2" "snd st + length t1 \<le> 2 ^ 32" "snd st + length t1 + length t2 \<le> 2 ^ 32"
      using 1(6,7) by auto
    with convert_emit [OF 1(4,5) s(2)] 1(2) [OF _ _ s(1) refl refl s(2) refl refl refl s(3), of "emit e t1 st"]
      conv s 1(5) agree_emit [OF 1(4,5), of t1]
    show ?thesis by (subst vs_loop.simps) simp
  qed
qed


lemma store_terminated:
  assumes "0 < sz" "buf + sz < 2 ^ 32" "buf + length t < 2 ^ 32 - 1"
  shows "(case ADDCH (buf + sz) 0 (emit (buf + sz) t (m, buf)) of (m', str) \<Rightarrow>
      Some (f (str - 1 - buf), if str mod 2 ^ 32 > buf + sz then m'(buf + sz - 1 := 0) else m'))
    = Some (f (length t), store m buf (take (sz - 1) t @ [0]))"
proof -
  have w: "(buf + length t) mod 2 ^ 32 = buf + length t" "(buf + length t + 1) mod 2 ^ 32 = buf + length t + 1"
    using assms(3) by simp_all
  have e: "emit (buf + sz) t (m, buf) = (store m buf (take sz t), buf + length t)"
    using emit_eq [of buf t "buf + sz" m] assms(3) by simp
  show ?thesis
  proof (cases "length t < sz")
    case True
    then show ?thesis using w by (simp add: e ADDCH_def store_snoc)
  next
    case False
    have "take sz t = take (sz - 1) t @ [t ! (sz - 1)]"
      using False assms(1) take_Suc_conv_app_nth [of "sz - 1" t] by simp
    then show ?thesis using False assms(1) w by (simp add: e ADDCH_def store_snoc)
  qed
qed

lemma sint_of_nat_32: "n < 2 ^ 31 \<Longrightarrow> sint (word_of_nat n :: u32) = int n"
  by (simp add: signed_of_nat signed_take_bit_int_eq_self)

lemma vsnprintf_eq:
  assumes "vs_text m fmt args = Some (t, r)" "apart buf (buf + sz) r" "buf + sz < 2 ^ 32" "buf + length t < 2 ^ 32 - 1"
    and "length t < 2 ^ 31"
  shows "vsnprintf m buf sz fmt args =
    Some (int (length t), if sz = 0 then m else store m buf (take (sz - 1) t @ [0]))"
proof -
  have "vs_loop buf (buf + sz) fmt args (m, buf) = Some (emit (buf + sz) t (m, buf))"
    by (rule loop_emit [OF assms(1) _ _ assms(2)]) (use assms(4) in \<open>simp_all add: agree_def\<close>)
  moreover have "(buf + sz) mod 2 ^ 32 = buf + sz" using assms(3) by (rule mod_less)
  moreover have "emit (buf + sz) t (m, buf) = (store m buf (take sz t), buf + length t)"
    using emit_eq [of buf t "buf + sz" m] assms(4) by simp
  ultimately show ?thesis
    using store_terminated [OF _ assms(3,4), of "\<lambda>k. sint (word_of_nat k :: u32)" m] sint_of_nat_32 [OF assms(5)]
    by (cases "sz = 0") (simp_all add: vsnprintf_def vsnprintf_internal_def Let_def del: of_nat_diff of_nat_add)
qed

subsection \<open>Stores stay in the buffer, whatever the arguments point to\<close>

definition within :: "nat \<Rightarrow> nat \<Rightarrow> out \<Rightarrow> out \<Rightarrow> bool" where
  "within lo e st st' \<longleftrightarrow> snd st \<le> snd st' \<and> (lo \<le> snd st \<and> snd st' \<le> 2 ^ 32 \<longrightarrow> agree lo e (fst st) (fst st'))"

lemma within_trans: "within lo e a b \<Longrightarrow> within lo e b c \<Longrightarrow> within lo e a c"
  by (auto simp: within_def agree_def)

lemma within_emit: "within lo e st (emit e xs st)"
  by (auto simp: within_def agree_def emit_outside)

lemma within_refl: "within lo e st st"
  by (simp add: within_def agree_def)

lemma within_ADDCH: "within lo e st (ADDCH e x st)"
  using within_emit [of lo e st "[x]"] by simp

lemma within_copy_src: "within lo e st (copy_src e s i n st)"
proof (induction n arbitrary: i st)
  case (Suc n)
  show ?case unfolding copy_src.simps by (rule within_trans [OF within_ADDCH Suc.IH])
qed (simp add: within_refl)

lemma within_string: "within lo e st (string e s fw p fl st)"
  unfolding string_def Let_def pad_width_emit case_prod_beta
  by (auto intro: within_trans within_emit within_copy_src)

lemma within_pointer: "within lo e st (pointer fmt e ptr fw p fl st)"
  unfolding pointer_def Let_def case_prod_beta mac_address_string_def ip6_addr_string_def ip4_addr_string_def
  by (simp add: within_string within_emit number_emit)

lemma within_char:
  "within lo e st (let (fw, st) = (if fl AND LEFT = 0 then pad_dec e 32 1 fw st else (fw, st));
     st = ADDCH e c st; (_, st) = pad_dec e 32 1 fw st in st)"
  unfolding char_emit by (rule within_emit)

lemma within_num:
  "within lo e st (number e num (if c = 111 then 8 else if c = 120 \<or> c = 88 then 16 else 10) fw p fl st)" for c :: u8
  by (simp add: number_emit within_emit)

lemmas within_intros = within_refl within_string within_pointer within_num within_ADDCH
  within_trans [OF within_ADDCH within_ADDCH]

lemma within_convert:
  assumes "vs_convert buf e sp fmt args st = Some (st', fmt', args')" "110 \<notin> set fmt"
  shows "within lo e st st'"
proof -
  have n: "peek fmt \<noteq> 110" using assms(2) by (cases fmt) auto
  note char = within_char [of lo e st "flags sp" "field_width sp", unfolded Let_def case_prod_beta]
  show ?thesis
    using assms(1) unfolding vs_convert_def Let_def case_prod_beta if_not_P [OF n]
    by (elim ifE_Some caseE_Some) (simp, (elim conjE)?, hypsubst?, rule within_intros char)+
qed


lemma within_loop:
  assumes "vs_loop buf e fmt args st = Some st'" "110 \<notin> set fmt"
  shows "within lo e st st'"
  using assms
proof (induction buf e fmt args st rule: vs_loop.induct)
  case (1 buf e fmt args st)
  consider (fin) "peek fmt = 0" | (chr) "peek fmt \<noteq> 0" "peek fmt \<noteq> 37" | (conv) "peek fmt = 37"
    by blast
  then show ?case
  proof cases
    case fin
    then show ?thesis using 1(3) by (simp add: vs_loop.simps within_refl)
  next
    case chr
    then have "vs_loop buf e (tl fmt) args (ADDCH e (peek fmt) st) = Some st'"
      using 1(3) by (subst (asm) vs_loop.simps) simp
    with 1(1) [OF chr this] 1(4) set_mono_suffix [OF suffix_tl, of fmt] show ?thesis
      by (blast intro: within_trans within_ADDCH)
  next
    case conv
    then obtain sp f a st1 f' a' where s: "vs_spec (tl fmt) args = Some (sp, f, a)"
        "vs_convert buf e sp f a st = Some (st1, f', a')" "vs_loop buf e f' a' st1 = Some st'"
      using 1(3) by (subst (asm) vs_loop.simps) (auto split: option.splits)
    have "suffix f fmt" "suffix f' f"
      using suffix_order.trans [OF suffix_vs_spec [OF s(1)] suffix_tl] suffix_vs_convert [OF s(2)] by auto
    with 1(4) set_mono_suffix have "110 \<notin> set f" "110 \<notin> set f'" by blast+
    with 1(2) [OF _ _ s(1) refl refl s(2) refl refl s(3)] conv within_convert [OF s(2)]
    show ?thesis by (auto intro: within_trans)
  qed
qed


subsection \<open>Numbers that are printed can be read back\<close>

lemma digits_text_10: "lc = 0 \<or> lc = 32 \<Longrightarrow> digits_text 10 lc n = decimal n"
  using rdigits_lt [of 10 _ n] by (auto simp: digits_text_def decimal_def dchar_dec)

lemma dchar_props:
  assumes "d < 16" "lc = 0 \<or> lc = 32"
  shows "isxdigit (dchar lc d)" "digit_value (dchar lc d) = (word_of_nat d :: u32)"
proof -
  have "\<forall>d \<in> set [0..<16]. \<forall>lc \<in> set [0, 32]. isxdigit (dchar lc d) \<and> digit_value (dchar lc d) = (word_of_nat d :: u32)"
    by code_simp
  then show "isxdigit (dchar lc d)" "digit_value (dchar lc d) = (word_of_nat d :: u32)"
    using assms by (auto simp del: upt.simps)
qed

lemma strtoul_digits:
  assumes "b = 8 \<or> b = 16" "lc = 0 \<or> lc = 32"
  shows "strto_loop (digits_text b lc n) (word_of_nat b :: u32) 0 = (word_of_nat n, [])"
proof -
  have "isxdigit (dchar lc d) \<and> digit_value (dchar lc d) = (word_of_nat d :: u32)" if "d < b" for d
    using dchar_props [OF _ assms(2), of d] that assms(1) by auto
  then show ?thesis
    using strto_loop_number [of "word_of_nat b :: u32" b "[]" "dchar lc" n] assms(1)
    by (auto simp: digits_text_def)
qed

lemma digits_text_hd: "b = 8 \<or> b = 16 \<Longrightarrow> lc = 0 \<or> lc = 32 \<Longrightarrow> \<exists>d ds. d < b \<and> digits_text b lc n = dchar lc d # ds"
proof -
  assume b: "b = 8 \<or> b = 16"
  obtain d ds where r: "rev (rdigits b n) = d # ds" by (cases "rev (rdigits b n)") auto
  then have "d \<in> set (rdigits b n)" by (metis list.set_intros(1) set_rev)
  then have "d < b" using b rdigits_lt [of b d n] by auto
  then show ?thesis unfolding digits_text_def r by auto
qed

lemma strtoul_hex: "simple_strtoul (48 # 120 # digits_text 16 32 n) base = (word_of_nat n, [])"
proof -
  obtain d ds where "d < 16" "digits_text 16 32 n = dchar 32 d # ds" using digits_text_hd [of 16 32 n] by auto
  then show ?thesis
    using strtoul_digits [of 16 32 n] dchar_props(1) [of d 32]
    by (simp add: simple_strtoul_def strto_prefix_def)
qed

lemma strtoul_oct:
  assumes lc: "lc = 0 \<or> lc = 32"
  shows "simple_strtoul (48 # digits_text 8 lc n) 0 = (word_of_nat n, [])"
proof -
  obtain d ds where d: "d < 8" "digits_text 8 lc n = dchar lc d # ds" using digits_text_hd [of 8 lc n] lc by auto
  then have "d \<in> {0, 1, 2, 3, 4, 5, 6, 7}" by auto
  then have "dchar lc d \<noteq> 120" using lc by (auto simp: dchar_def digits16_def)
  then show ?thesis using strtoul_digits [of 8 lc n] lc d by (simp add: simple_strtoul_def strto_prefix_def)
qed

text \<open>The text of a single conversion.\<close>

lemmas fmt_simps = vs_text.simps vs_spec_def vs_width_def vs_precision_def vs_qualifier_def conv_text_def vs_num_def
  number_text_def sign_text_def pfx_text_def magnitude_def has_def flag_defs

lemma unat_ucast_64: "unat (ucast (w :: u32) :: u64) = unat w"
proof -
  have "unat w < 2 ^ 64" by (rule less_trans [OF unat_u32_lt]) simp
  then show ?thesis by (simp add: unsigned_ucast_eq take_bit_nat_eq_self)
qed

lemma sint_ucast_64: "\<not> sint (ucast (w :: u32) :: u64) < 0"
proof -
  have "uint w < 2 ^ 63" by (rule less_trans [OF uint_lt2p]) simp
  then have "signed_take_bit 63 (uint w) = uint w"
    by (intro signed_take_bit_int_eq_self order_trans [OF _ uint_ge_0]) simp_all
  then have "sint (ucast w :: u64) = uint w" by (simp add: signed_ucast_eq)
  then show ?thesis by simp
qed

lemma sint_range_32: "- (2 ^ 31) \<le> sint (w :: u32)" "sint (w :: u32) < 2 ^ 31"
  using sint_ge [of w] sint_lt [of w] by simp_all

lemma sint_scast_64: "sint (scast (w :: u32) :: u64) = sint w"
  using sint_range_32 [of w] by (simp add: signed_scast_eq signed_take_bit_int_eq_self)

lemma unat_word_of_int: "0 \<le> k \<Longrightarrow> k < 2 ^ LENGTH('a) \<Longrightarrow> unat (word_of_int k :: 'a::len word) = nat k"
  by (simp add: unat_eq_nat_uint uint_word_of_int)

lemma magnitude_32:
  fixes w :: u32
  shows "sint w < 0 \<Longrightarrow> unat (- (scast w :: u64)) = unat (- w)" "\<not> sint w < 0 \<Longrightarrow> unat (scast w :: u64) = unat w"
proof -
  have s: "(scast w :: u64) = word_of_int (sint w)" "w = word_of_int (sint w)" by simp_all
  have "unat (word_of_int (- sint w) :: u64) = nat (- sint w)" "unat (word_of_int (- sint w) :: u32) = nat (- sint w)"
    if "sint w < 0"
    by (rule unat_word_of_int; use that sint_range_32 [of w] in simp)+
  then show "sint w < 0 \<Longrightarrow> unat (- (scast w :: u64)) = unat (- w)"
    by (metis s wi_hom_neg)
  have "unat (word_of_int (sint w) :: u64) = nat (sint w)" "unat (word_of_int (sint w) :: u32) = nat (sint w)"
    if "\<not> sint w < 0"
    by (rule unat_word_of_int; use that sint_range_32 [of w] in simp)+
  then show "\<not> sint w < 0 \<Longrightarrow> unat (scast w :: u64) = unat w"
    by (metis s)
qed

lemma fmt_u: "vs_text m (bs ''%u'') [W32 w] = Some (decimal (unat w), [])"
  by (simp add: fmt_simps digits_text_10 unat_ucast_64)

lemma fmt_x: "vs_text m (bs ''%#x'') [W32 w] = Some (48 # 120 # digits_text 16 32 (unat w), [])"
  by (simp add: fmt_simps unat_ucast_64)

lemma fmt_o: "vs_text m (bs ''%#o'') [W32 w] = Some (48 # digits_text 8 0 (unat w), [])"
  by (simp add: fmt_simps unat_ucast_64)

lemma fmt_zd: "vs_text m (bs ''%zd'') [W32 w] = Some (decimal (unat w), [])"
  by (simp add: fmt_simps digits_text_10 unat_ucast_64 sint_ucast_64)

lemma fmt_d: "vs_text m (bs ''%d'') [W32 w] = Some (if sint w < 0 then 45 # decimal (unat (- w)) else decimal (unat w), [])"
  by (simp add: fmt_simps digits_text_10 sint_scast_64 magnitude_32)


subsection \<open>Properties\<close>

text \<open>
  C18: \<open>vsnprintf\<close> refines its text: on every format and argument list with a defined text (no \<open>%n\<close>, no
  missing argument), with a buffer apart from the memory the conversions read, where neither the buffer nor the
  whole text (cut or not) reaches the top of the address space and the text is shorter than \<open>2 ^ 31\<close>, it returns
  the length of the whole text, leaves the first \<open>size - 1\<close> characters of it and a terminating zero at the start
  of the buffer, and leaves every other byte of memory as it was; with size 0 it only measures.\<close>
theorem vsnprintf_refines:
  assumes "vs_text m fmt args = Some (t, r)" "apart buf (buf + sz) r" "buf + sz < 2 ^ 32" "buf + length t < 2 ^ 32 - 1"
    and "length t < 2 ^ 31"
  shows "vsnprintf m buf sz fmt args =
    Some (int (length t), if sz = 0 then m else store m buf (take (sz - 1) t @ [0]))"
  by (rule vsnprintf_eq [OF assms])

theorem vsnprintf_refines_witness:
  "vsnprintf (\<lambda>_. 0) 4096 6 (bs ''ram %u!'') [W32 42] = Some (7, store (\<lambda>_. 0) 4096 (bs ''ram 4'' @ [0]))"
proof -
  have d: "decimal 42 = [52, 50]" by (simp add: decimal_def rdigits.simps dec_char_def)
  have t: "vs_text (\<lambda>_. 0) (bs ''ram %u!'') [W32 42] = Some (bs ''ram 42!'', [])"
    by (simp add: fmt_simps digits_text_10 d)
  show ?thesis using vsnprintf_refines [OF t, of 4096 6] by simp
qed

text \<open>
  C19: Stores of \<open>vsnprintf_internal\<close> (behind \<open>vsnprintf\<close>, \<open>vscnprintf\<close> and \<open>vsprintf\<close>) stay inside the
  buffer as long as the output position does not reach the top of the address space, also when the end of the
  buffer was clamped there and when string arguments overlap the buffer: a format without \<open>n\<close> changes no byte
  outside, and a buffer that is not empty ends in a zero behind the text or at its last byte.\<close>
theorem vsnprintf_confined:
  assumes "vs_loop buf e fmt args (m, buf) = Some (m1, str)" "str < 2 ^ 32 - 1" "110 \<notin> set fmt"
    and "buf < 2 ^ 32" "sz < 2 ^ 32" "e = min (buf + sz) (2 ^ 32 - 1)"
  shows "\<exists>m'. vsnprintf_internal m buf sz fmt args = Some (sint (word_of_nat (str - buf) :: u32), m')
    \<and> (\<forall>a. a < buf \<or> e \<le> a \<longrightarrow> m' a = m a) \<and> (buf < e \<longrightarrow> m' (buf + min (str - buf) (e - buf - 1)) = 0)"
proof -
  have e: "(let e = (buf + sz) mod 2 ^ 32 in if e < buf then (2 ^ 32 - 1, 2 ^ 32 - 1 - buf) else (e, sz)) = (e, e - buf)"
  proof (cases "buf + sz < 2 ^ 32")
    case False
    then have "(buf + sz) mod 2 ^ 32 = buf + sz - 2 ^ 32" using assms(4,5) by (simp add: mod_if)
    then show ?thesis using False assms(5,6) by (auto simp: Let_def)
  qed (use assms(6) in \<open>simp add: Let_def\<close>)
  have w: "agree buf e m m1" "buf \<le> str" using within_loop [OF assms(1,3), of buf] assms(2) by (auto simp: within_def)
  have s: "str mod 2 ^ 32 = str" "Suc str mod 2 ^ 32 = Suc str" using assms(2) by simp_all
  define m' where "m' = (if e - buf > 0 then (let m2 = (if str < e then m1(str := 0) else m1) in
      if Suc str > e then m2(e - 1 := 0) else m2) else m1)"
  have "vsnprintf_internal m buf sz fmt args = Some (sint (word_of_nat (str - buf) :: u32), m')"
    using s unfolding vsnprintf_internal_def Let_def e [unfolded Let_def] prod.case assms(1)
    by (simp add: ADDCH_def m'_def)
  then show ?thesis
    using w by (auto simp: m'_def Let_def agree_def split: if_splits)
qed

theorem vsnprintf_confined_witness:
  "\<exists>m'. vsnprintf_internal (\<lambda>_. 7) 4096 2 (bs ''ab'') [] = Some (2, m') \<and> m' 4095 = 7 \<and> m' 4098 = 7 \<and> m' 4097 = 0"
proof -
  have l: "vs_loop 4096 4098 (bs ''ab'') [] (\<lambda>_. 7, 4096) = Some (((\<lambda>_. 7)(4096 := 97))(4097 := 98), 4098)"
    by (simp add: vs_loop.simps ADDCH_def)
  have c: "(4098 :: nat) < 2 ^ 32 - 1" "110 \<notin> set (bs ''ab'')" "(4096 :: nat) < 2 ^ 32" "(2 :: nat) < 2 ^ 32"
    "(4098 :: nat) = min (4096 + 2) (2 ^ 32 - 1)" by simp_all
  obtain m' where m': "vsnprintf_internal (\<lambda>_. 7) 4096 2 (bs ''ab'') [] = Some (sint (word_of_nat (4098 - 4096) :: u32), m')"
    "\<forall>a. a < 4096 \<or> 4098 \<le> a \<longrightarrow> m' a = 7" "m' (4096 + min (4098 - 4096) (4098 - 4096 - 1)) = 0"
    using vsnprintf_confined [OF l c] by auto
  have "sint (word_of_nat (4098 - 4096) :: u32) = 2" by simp
  then show ?thesis using m'(1) m'(2) [rule_format, of 4095] m'(2) [rule_format, of 4098] m'(3) by (intro exI [of _ m']) simp
qed

text \<open>Beyond the top of the address space the position is below the end again: the text goes on at address 0.\<close>

lemma loop_literal: "0 \<notin> set t \<Longrightarrow> 37 \<notin> set t \<Longrightarrow> vs_loop buf e t args st = Some (emit e t st)"
  by (induction t arbitrary: st) (simp_all add: vs_loop.simps)

theorem vsnprintf_wraps_low:
  assumes "0 \<notin> set (t @ [c])" "37 \<notin> set (t @ [c])" "length t = 2 ^ 32 - buf" "buf < 2 ^ 32" "2 < buf + sz" "buf + sz < 2 ^ 32" "0 < sz"
  shows "\<exists>n m'. vsnprintf m buf sz (t @ [c]) args = Some (n, m') \<and> m' 0 = c"
proof -
  let ?e = "buf + sz"
  have "snd (emit ?e t (m, buf)) = 2 ^ 32" using assms(3,4) by simp
  then obtain m1 where "emit ?e t (m, buf) = (m1, 2 ^ 32)" by (metis prod.collapse)
  moreover have "ADDCH ?e c (m1, 2 ^ 32) = (m1(0 := c), 2 ^ 32 + 1)" using assms(7) by (simp add: ADDCH_def)
  ultimately have "vs_loop buf ?e (t @ [c]) args (m, buf) = Some (m1(0 := c), 2 ^ 32 + 1)"
    using loop_literal [OF assms(1,2), of buf ?e args "(m, buf)"] by simp
  moreover have "?e mod 2 ^ 32 = ?e" using assms(6) by (rule mod_less)
  ultimately show ?thesis
    using assms(5,7) by (auto simp: vsnprintf_def vsnprintf_internal_def ADDCH_def Let_def)
qed

text \<open>
  The return value of \<open>vscnprintf\<close> is the number of characters it left in the buffer, without the
  terminator: the text cut to \<open>size - 1\<close>, never the length of a text that did not fit.\<close>
theorem vscnprintf_counts:
  assumes "vs_text m fmt args = Some (t, r)" "apart buf (buf + sz) r" "buf + sz < 2 ^ 32" "buf + length t < 2 ^ 32 - 1"
    and "length t < 2 ^ 31" "0 < sz" "sz < 2 ^ 31" "0 \<notin> set t"
  shows "\<exists>m'. vscnprintf m buf sz fmt args = Some (int (min (length t) (sz - 1)), m')
    \<and> cstr m' buf (take (sz - 1) t)"
proof -
  have "cstr (store m buf (take (sz - 1) t @ [0])) buf (take (sz - 1) t)"
    by (rule cstr_store) (use assms(8) in \<open>auto dest: in_set_takeD\<close>)
  moreover have "(if int (length t) mod 2 ^ 32 < int sz then int (length t) else sint (word_of_nat (sz - 1) :: u32))
      = int (min (length t) (sz - 1))"
    using assms(5-7) sint_of_nat_32 [of "sz - 1"] by auto
  moreover have "vscnprintf m buf sz fmt args = Some (if int (length t) mod 2 ^ 32 < int sz then int (length t)
      else sint (word_of_nat (sz - 1) :: u32), store m buf (take (sz - 1) t @ [0]))"
    using assms(6) unfolding vscnprintf_def vsnprintf_eq [OF assms(1-5)] by simp
  ultimately show ?thesis by (simp only:) blast
qed

theorem vscnprintf_counts_witness:
  "\<exists>m'. vscnprintf (\<lambda>_. 0) 4096 6 (bs ''ram %u!'') [W32 42] = Some (5, m') \<and> cstr m' 4096 (bs ''ram 4'')"
proof -
  have d: "decimal 42 = [52, 50]" by (simp add: decimal_def rdigits.simps dec_char_def)
  have t: "vs_text (\<lambda>_. 0) (bs ''ram %u!'') [W32 42] = Some (bs ''ram 42!'', [])"
    by (simp add: fmt_simps digits_text_10 d)
  have m: "int (min (length (bs ''ram 42!'')) (6 - 1)) = 5" "take (6 - 1) (bs ''ram 42!'') = bs ''ram 4''"
    "length (bs ''ram 42!'') = 7" by simp_all
  have "0 \<notin> set (bs ''ram 42!'')" by simp
  then show ?thesis using vscnprintf_counts [OF t, of 4096 6, unfolded m] by (simp del: cstr.simps bs_simps)
qed

text \<open>
  The number formats and \<open>simple_strtoul\<close> are inverse: what \<open>%u\<close>, \<open>%#x\<close> and \<open>%#o\<close> print of any
  unsigned number, \<open>simple_strtoul\<close> reads back to its end with no base given, and what \<open>%d\<close> prints
  of any signed number, \<open>simple_strtol\<close> reads back.\<close>
theorem printf_strtoul_roundtrip:
  "(fmt, parse) \<in> {(''%u'', simple_strtoul), (''%#x'', simple_strtoul), (''%#o'', simple_strtoul), (''%d'', simple_strtol)} \<Longrightarrow>
   \<exists>t. vs_text m (bs fmt) [W32 w] = Some (t, []) \<and> parse t 0 = (w, [])"
proof -
  assume a: "(fmt, parse) \<in> {(''%u'', simple_strtoul), (''%#x'', simple_strtoul), (''%#o'', simple_strtoul), (''%d'', simple_strtol)}"
  have u: "simple_strtoul (decimal (unat v)) 0 = (v, [])" for v :: u32
    using strtoul_decimal [of 0 "[]" "unat v"] by simp
  have "peek (decimal n) \<noteq> 45" for n
    using decimal_hd_digit [of n] by (cases "decimal n") (auto simp: isdigit_iff)
  then have d: "simple_strtol (if sint w < 0 then 45 # decimal (unat (- w)) else decimal (unat w)) 0 = (w, [])"
    using u [of w] u [of "- w"] by (simp add: simple_strtol_def)
  show ?thesis
    using a fmt_u [of m w] fmt_x [of m w] fmt_o [of m w] fmt_d [of m w] u [of w] strtoul_hex [of "unat w" 0]
      strtoul_oct [of 0 "unat w"] d
    by (auto simp del: bs_simps)
qed

theorem printf_strtoul_roundtrip_witness:
  "\<exists>t. vs_text (\<lambda>_. 0) (bs ''%#x'') [W32 3735928559] = Some (t, []) \<and> simple_strtoul t 0 = (3735928559, [])"
  by (rule printf_strtoul_roundtrip) simp

text \<open>
  C40: The scratch arrays never overflow: \<open>number\<close> generates at most 22 of the 66 characters of \<open>tmp\<close>,
  one octet of an IPv4 address at most the 3 of \<open>temp\<close>, and what the code writes to \<open>mac_addr\<close>, \<open>ip6_addr\<close> and
  \<open>ip4_addr\<close>, terminator included, fits their 18, 40 and 16 characters, for every address and flag.\<close>
theorem scratch_arrays_fit:
  "length (num_digits num 8 lc) \<le> 22 \<and> length (num_digits num 16 lc) \<le> 16 \<and> length (put_dec num) \<le> 20
   \<and> length (put_dec_trunc (ucast (b :: u8))) \<le> 3
   \<and> length (mac_addr_array m a fl) \<le> 18 \<and> length (ip6_addr_array m a fl) \<le> 40 \<and> length (ip4_addr_array m a) \<le> 16"
proof -
  have n: "unat num < 2 ^ 64" using unsigned_less [of num] by simp
  have o: "length (num_digits num 8 lc) \<le> 22"
    using num_digits_eq [of 8 3 num lc] length_rdigits [of 8 "unat num" 22] n by simp
  have x: "length (num_digits num 16 lc) \<le> 16"
    using num_digits_eq [of 16 4 num lc] length_rdigits [of 16 "unat num" 16] n by simp
  have d: "length (put_dec num) \<le> 20"
    using length_rdigits [of 10 "unat num" 20] n by (simp add: put_dec_correct)
  have b: "length (decimal (unat c)) \<le> 3" for c :: u8
    using length_rdigits [of 10 "unat c" 3] unat_u8_lt [of c] by (simp add: decimal_def)
  have t: "length (put_dec_trunc (ucast c)) \<le> 3" for c :: u8
    using arg_cong [OF put_dec_trunc_byte [of c], of length] b [of c] by simp
  have m: "length (mac_addr_array m a fl) \<le> 18" by (simp add: mac_addr_array_def upt_concrete pack_hex_byte_def)
  have i6: "length (ip6_addr_array m a fl) \<le> 40" by (simp add: ip6_addr_array_def upt_concrete pack_hex_byte_def)
  have i4: "length (ip4_addr_array m a) \<le> 16"
    using t [of "m a"] t [of "m (a + 1)"] t [of "m (a + 2)"] t [of "m (a + 3)"] by (simp add: ip4_addr_array_def upt_concrete)
  show ?thesis using o x d t m i6 i4 by blast
qed

text \<open>A \<open>size_t\<close> is never sign-extended: \<open>%zd\<close> prints a negative \<open>ssize_t\<close> as a large positive number.\<close>

lemma zd_prints_unsigned: "vs_text m (bs ''%zd'') [W32 (- 1)] = Some (decimal 4294967295, [])"
proof -
  have "unat (- 1 :: u32) = 4294967295" by (simp add: unsigned_minus_1_eq_mask mask_eq_exp_minus_1)
  then show ?thesis using fmt_zd [of m "- 1"] by (simp only:)
qed

end
