(* ===== verification/Nand.thy ===== *)
theory Nand
  imports Cstring
begin

text \<open>
  The functions of \<open>drivers/mtd/nand/nand_util.c\<close> that the environment uses: \<open>check_skip_len\<close>,
  \<open>nand_read_skip_bad\<close> and \<open>nand_erase_opts\<close>, over the MTD interface of the chip driver.

  \<^item> The record \<open>nand\<close> is the \<open>nand_info_t\<close>: the geometry and the driver's functions on a device \<open>'d\<close>.
    \<open>block_isbad\<close> is positive for a bad block and negative on an error; \<open>mtd_read\<close> gives the data, \<open>None\<close> on an
    error other than a corrected one; \<open>mtd_erase\<close> returns its result with the device it leaves. The sizes are powers
    of two, so that the masks of the code are remainders.
  \<^item> \<open>nand_laws\<close> is what the driver does on a device without defects outside its bad blocks: programming can
    only clear bits, so that data reads back only where the flash was erased before.
\<close>

record 'd nand =
  nand_size :: nat
  erasesize :: nat
  writesize :: nat
  block_isbad :: "nat \<Rightarrow> int"
  mtd_read :: "nat \<Rightarrow> nat \<Rightarrow> 'd \<Rightarrow> bytes option"
  mtd_write :: "nat \<Rightarrow> bytes \<Rightarrow> 'd \<Rightarrow> 'd option"
  mtd_erase :: "nat \<Rightarrow> 'd \<Rightarrow> int \<times> 'd"

definition block_start :: "'d nand \<Rightarrow> nat \<Rightarrow> nat" where
  "block_start nd off = off - off mod erasesize nd"

text \<open>\<open>None\<close>: the loop does not end.\<close>

partial_function (option) check_skip_loop :: "'d nand \<Rightarrow> nat \<Rightarrow> nat \<Rightarrow> nat \<Rightarrow> int \<Rightarrow> int option" where
  "check_skip_loop nd off len len_excl_bad r =
     (if len_excl_bad < len
      then (if off \<ge> nand_size nd then Some (- 1)
            else (let block_len = erasesize nd - off mod erasesize nd
                  in if block_isbad nd (block_start nd off) = 0
                     then check_skip_loop nd (off + block_len) len (len_excl_bad + block_len) r
                     else check_skip_loop nd (off + block_len) len len_excl_bad 1))
      else Some r)"

definition check_skip_len :: "'d nand \<Rightarrow> nat \<Rightarrow> nat \<Rightarrow> int option" where
  "check_skip_len nd off len = check_skip_loop nd off len 0 0"

text \<open>The bytes read, \<open>Some None\<close> on an error.\<close>

partial_function (option) read_skip_loop :: "'d nand \<Rightarrow> nat \<Rightarrow> nat \<Rightarrow> bytes \<Rightarrow> 'd \<Rightarrow> bytes option option" where
  "read_skip_loop nd off left_to_read buffer d =
     (if left_to_read > 0
      then (let block_offset = off mod erasesize nd
            in if block_isbad nd (block_start nd off) \<noteq> 0
               then read_skip_loop nd (off + (erasesize nd - block_offset)) left_to_read buffer d
               else (let read_length = (if left_to_read < erasesize nd - block_offset then left_to_read
                                        else erasesize nd - block_offset)
                     in case mtd_read nd off read_length d of
                          None \<Rightarrow> Some None
                        | Some xs \<Rightarrow> read_skip_loop nd (off + read_length) (left_to_read - read_length) (buffer @ xs) d))
      else Some (Some buffer))"

definition nand_read_skip_bad :: "'d nand \<Rightarrow> nat \<Rightarrow> nat \<Rightarrow> 'd \<Rightarrow> bytes option option" where
  "nand_read_skip_bad nd off len d =
     (if off mod writesize nd \<noteq> 0 then Some None
      else (case check_skip_len nd off len of
              None \<Rightarrow> None
            | Some need_skip \<Rightarrow>
                if need_skip < 0 then Some None
                else if need_skip = 0 then Some (mtd_read nd off len d)
                else read_skip_loop nd off len [] d))"

text \<open>\<open>nand_erase_opts\<close> with the options \<open>jffs2\<close>, \<open>scrub\<close> and \<open>spread\<close> off; an erase that fails is only
  reported. \<open>None\<close> is the result -1, and \<open>n\<close> the number of blocks that are left.\<close>

fun erase_loop :: "'d nand \<Rightarrow> nat \<Rightarrow> nat \<Rightarrow> 'd \<Rightarrow> 'd option" where
  "erase_loop nd 0 addr d = Some d"
| "erase_loop nd (Suc n) addr d =
     (if block_isbad nd addr > 0 then erase_loop nd n (addr + erasesize nd) d
      else if block_isbad nd addr < 0 then None
      else erase_loop nd n (addr + erasesize nd) (snd (mtd_erase nd addr d)))"

definition nand_erase_opts :: "'d nand \<Rightarrow> nat \<Rightarrow> nat \<Rightarrow> 'd \<Rightarrow> 'd option" where
  "nand_erase_opts nd off len d =
     (if off mod writesize nd \<noteq> 0 then None
      else erase_loop nd ((len + erasesize nd - 1) div erasesize nd) off d)"

subsection \<open>The device\<close>

definition programmed :: "mem \<Rightarrow> nat \<Rightarrow> bytes \<Rightarrow> mem" where
  "programmed m off xs = (\<lambda>a. if off \<le> a \<and> a < off + length xs then m a AND xs ! (a - off) else m a)"

definition erased :: "mem \<Rightarrow> nat \<Rightarrow> nat \<Rightarrow> mem" where
  "erased m off len = (\<lambda>a. if off \<le> a \<and> a < off + len then 255 else m a)"

text \<open>
  The laws of a driver, with \<open>contents\<close> the bytes of the device: a write that succeeds programs the bytes; a good
  block that is erased at its start reads 0xff and nothing else changes; inside the device a good block reads as its
  contents.
\<close>

definition nand_laws :: "'d nand \<Rightarrow> ('d \<Rightarrow> mem) \<Rightarrow> bool" where
  "nand_laws nd contents \<longleftrightarrow>
     0 < writesize nd \<and> writesize nd dvd erasesize nd \<and> 0 < erasesize nd \<and> erasesize nd dvd nand_size nd \<and>
     (\<forall>off xs d d'. mtd_write nd off xs d = Some d' \<longrightarrow> contents d' = programmed (contents d) off xs) \<and>
     (\<forall>off d. block_isbad nd off = 0 \<longrightarrow> erasesize nd dvd off \<longrightarrow> off + erasesize nd \<le> nand_size nd \<longrightarrow>
        contents (snd (mtd_erase nd off d)) = erased (contents d) off (erasesize nd)) \<and>
     (\<forall>off len d. block_isbad nd (block_start nd off) = 0 \<longrightarrow> off mod erasesize nd + len \<le> erasesize nd \<longrightarrow>
        off + len \<le> nand_size nd \<longrightarrow> mtd_read nd off len d = Some (bytes_at (contents d) off len))"

lemma read_good:
  assumes "nand_laws nd contents" "erasesize nd dvd off" "block_isbad nd off = 0" "0 < len" "len \<le> erasesize nd"
    and "off < nand_size nd"
  shows "nand_read_skip_bad nd off len d = Some (Some (bytes_at (contents d) off len))"
proof -
  have w: "off mod erasesize nd = 0" "off mod writesize nd = 0"
    using assms(1,2) by (auto simp: nand_laws_def dvd_eq_mod_eq_0 intro: dvd_trans dest: dvd_trans [of "writesize nd"])
  have b: "block_start nd off = off" using w(1) by (simp add: block_start_def)
  obtain k j where "off = erasesize nd * k" "nand_size nd = erasesize nd * j"
    using assms(1,2) by (auto simp: nand_laws_def elim!: dvdE)
  moreover from this have "k < j" using assms(6) by simp
  ultimately have "off + erasesize nd \<le> nand_size nd"
    using mult_le_mono2 [of "Suc k" j "erasesize nd"] by simp
  then have "mtd_read nd off len d = Some (bytes_at (contents d) off len)"
    using assms(1,3,5) w b by (simp add: nand_laws_def)
  moreover have "check_skip_len nd off len = Some 0"
    using assms(3-6) w b
    by (simp add: check_skip_len_def check_skip_loop.simps [of nd off len 0 0] check_skip_loop.simps [of nd _ len "erasesize nd" 0])
  ultimately show ?thesis using w by (simp add: nand_read_skip_bad_def)
qed

lemma erase_loop_erases:
  assumes "nand_laws nd contents" "erase_loop nd n off d = Some d'" "erasesize nd dvd off" "off + n * erasesize nd \<le> nand_size nd"
  shows "contents d' a = (if off \<le> a \<and> a < off + n * erasesize nd \<and> block_isbad nd (block_start nd a) = 0 then 255 else contents d a)"
  using assms
proof (induction n arbitrary: off d)
  case (Suc n)
  let ?es = "erasesize nd"
  have es: "0 < ?es" using Suc.prems(1) by (simp add: nand_laws_def)
  have next': "?es dvd off + ?es" "off + ?es + n * ?es \<le> nand_size nd" using Suc.prems(3,4) by (simp_all add: algebra_simps)
  have in_first: "block_start nd a = off" if "off \<le> a" "a < off + ?es"
  proof -
    have "off mod ?es = 0" using Suc.prems(3) by simp
    then have "a mod ?es = (a - off) mod ?es" using that(1) by (metis add_diff_inverse_nat mod_add_left_eq add_0 not_less)
    also have "\<dots> = a - off" using that by (intro mod_less) simp
    finally show ?thesis using that(1) by (simp add: block_start_def)
  qed
  show ?case
  proof (cases "block_isbad nd off = 0")
    case True
    have "off + ?es \<le> nand_size nd" using Suc.prems(4) by simp
    then have "contents (snd (mtd_erase nd off d)) = erased (contents d) off ?es"
      using Suc.prems(1,3) True by (simp add: nand_laws_def)
    then show ?thesis
      using Suc.IH [OF Suc.prems(1) _ next', of "snd (mtd_erase nd off d)"] Suc.prems(2) True in_first es
      by (auto simp: erased_def algebra_simps)
  next
    case False
    then have "erase_loop nd n (off + ?es) d = Some d'" using Suc.prems(2) by (simp split: if_splits)
    then show ?thesis
      using Suc.IH [OF Suc.prems(1) _ next'] False in_first es by (auto simp: algebra_simps)
  qed
qed auto

lemma erase_range:
  assumes "nand_laws nd contents" "nand_erase_opts nd off len d = Some d'" "erasesize nd dvd off" "off + len \<le> nand_size nd"
    and "off \<le> a" "a < off + len" "block_isbad nd (block_start nd a) = 0"
  shows "contents d' a = 255"
proof -
  let ?es = "erasesize nd" and ?n = "(len + erasesize nd - 1) div erasesize nd"
  have es: "0 < ?es" using assms(1) by (simp add: nand_laws_def)
  have "len \<le> ?n * ?es"
    using es div_mult_mod_eq [of "len + ?es - 1" ?es] mod_less_divisor [of ?es "len + ?es - 1"] by linarith
  moreover have "off + ?n * ?es \<le> nand_size nd"
  proof -
    obtain k j where k: "off = ?es * k" "nand_size nd = ?es * j"
      using assms(1,3) by (auto simp: nand_laws_def elim!: dvdE)
    then have "len \<le> ?es * (j - k)" using assms(4) by (simp add: diff_mult_distrib2)
    then have "len + ?es - 1 < ?es * (j - k + 1)" using es by simp
    then have "?n < j - k + 1" using es by (simp add: div_less_iff_less_mult mult.commute)
    moreover have "?es * k \<le> ?es * j" unfolding k [symmetric] using assms(4) by (rule add_leD1)
    then have "k \<le> j" using es by simp
    ultimately have "k + ?n \<le> j" by simp
    then have "?es * (k + ?n) \<le> ?es * j" by (rule mult_le_mono2)
    then show ?thesis using k by (simp add: algebra_simps)
  qed
  moreover have "erase_loop nd ?n off d = Some d'" using assms(2) by (simp add: nand_erase_opts_def split: if_splits)
  ultimately show ?thesis
    using erase_loop_erases [OF assms(1) _ assms(3), of ?n d d' a] assms(5-7) by simp
qed

end
