(* ===== verification/Nvedit.thy ===== *)
theory Nvedit
  imports Env_Text Crc Vsprintf_Text Nand
begin

text \<open>
  The environment as the rest of the boot loader sees it: \<open>common/cmd_nvedit.c\<close> (\<open>setenv\<close>, \<open>getenv\<close>
  and their numeric variants), \<open>common/env_common.c\<close> (import of a checksummed block and the default
  environment) and \<open>common/env_nand.c\<close> (the block in NAND flash), over the hash table, the parsers, the
  formatted output and the CRC. The board defines \<open>CONFIG_ENV_OVERWRITE\<close> and neither
  \<open>CONFIG_CONSOLE_MUX\<close> nor \<open>CONFIG_SERIAL_MULTI\<close> nor a redundant environment.

  \<^item> \<open>env_state\<close> holds the globals: the table, \<open>env_id\<close>, \<open>load_addr\<close>, \<open>BootFile\<close>, the fields of \<open>gd\<close>.
  \<^item> \<open>malloc\<close> says whether a request succeeds; \<open>console_assign\<close> whether a device can be made a console;
    the default environment is a constant of the configuration, an array of bytes in memory.
  \<^item> The flash is read and erased by the functions of the theory \<open>Nand\<close> over the chip driver's interface.
  \<^item> A result \<open>None\<close> is a null pointer dereference or a read past the end of a string.
\<close>

record env_state =
  env_htab :: hsearch_data
  env_id :: u32
  load_addr :: u32
  BootFile :: bytes
  gd_env_ready :: bool
  gd_baudrate :: u32
  gd_env_valid :: nat
  gd_env_addr :: mem
  cfg_env_size :: nat

subsection \<open>Setting a variable\<close>

definition baudrate_table :: "u32 list" where
  "baudrate_table = [4800, 9600, 19200, 38400, 57600, 115200]"

text \<open>\<open>stdin\<close>, \<open>stdout\<close> and \<open>stderr\<close> are 0, 1 and 2.\<close>

definition console_of :: "bytes \<Rightarrow> nat option" where
  "console_of name =
     (if strcmp_s name (bs ''stdin'') = 0 then Some 0
      else if strcmp_s name (bs ''stdout'') = 0 then Some 1
      else if strcmp_s name (bs ''stderr'') = 0 then Some 2
      else None)"

fun copy_filename_loop :: "nat \<Rightarrow> bytes \<Rightarrow> bytes" where
  "copy_filename_loop sz [] = []"
| "copy_filename_loop sz (c # src) =
     (if sz - 1 > 0 \<and> c \<noteq> 0 \<and> c \<noteq> 34 then c # copy_filename_loop (sz - 1) src else [])"

definition copy_filename :: "bytes \<Rightarrow> nat \<Rightarrow> bytes" where
  "copy_filename src sz =
     (if peek src = 34 then copy_filename_loop (sz - 1) (tl src) else copy_filename_loop sz src)"

text \<open>The words of the value, each followed by a blank; the last blank becomes the terminator.\<close>

definition join_args :: "bytes list \<Rightarrow> bytes" where
  "join_args args = butlast (concat (map (\<lambda>v. v @ [32]) args))"

text \<open>\<open>_do_env_set\<close>, on the strings of \<open>argv\<close>; \<open>argv[argc]\<close> is the null pointer.\<close>

definition env_set_value :: "(nat \<Rightarrow> bool) \<Rightarrow> bytes list \<Rightarrow> env_state \<Rightarrow> (int \<times> env_state) option" where
  "env_set_value malloc argv st =
     (let name = argv ! 1
      in if length argv < 3
         then map_option (\<lambda>(rc, h). (if ret rc \<noteq> 0 then 0 else 1, st\<lparr>env_htab := h\<rparr>)) (hdelete_r name (env_htab st))
         else if \<not> malloc (sum_list (map (\<lambda>v. length v + 1) (drop 2 argv))) then Some (1, st)
         else (case hsearch_r malloc name (Some (join_args (drop 2 argv))) ENTER (env_htab st) of
                 None \<Rightarrow> None
               | Some (ep, h) \<Rightarrow>
                   (let st = st\<lparr>env_htab := h\<rparr>
                    in if retval ep = None then Some (1, st)
                       else if strcmp_s name (bs ''loadaddr'') = 0
                       then Some (0, st\<lparr>load_addr := fst (simple_strtoul (argv ! 2) 16)\<rparr>)
                       else if strcmp_s name (bs ''bootfile'') = 0
                       then Some (0, st\<lparr>BootFile := copy_filename (argv ! 2) 128\<rparr>)
                       else Some (0, st))))"

text \<open>\<open>arg2\<close> is the pointer \<open>argv[2]\<close> when \<open>argc\<close> is 2: the null pointer, or the empty value that \<open>setenv\<close> was
  called with.\<close>

definition env_set ::
  "(nat \<Rightarrow> bool) \<Rightarrow> (nat \<Rightarrow> bytes \<Rightarrow> bool) \<Rightarrow> bytes list \<Rightarrow> bytes option \<Rightarrow> env_state \<Rightarrow> (int \<times> env_state) option" where
  "env_set malloc console_assign argv arg2 st =
     (let name = argv ! 1
      in if 61 \<in> set name then Some (1, st)
         else (let st = st\<lparr>env_id := env_id st + 1\<rparr>
               in case hsearch_r malloc name None FIND (env_htab st) of
                    None \<Rightarrow> None
                  | Some (ep, _) \<Rightarrow>
                      (case console_of name of
                         Some console \<Rightarrow>
                           if length argv < 3 then Some (1, st)
                           else if \<not> console_assign console (argv ! 2) then Some (1, st)
                           else env_set_value malloc argv st
                       | None \<Rightarrow>
                           if retval ep \<noteq> None \<and> strcmp_s name (bs ''baudrate'') = 0
                           then (case (if length argv < 3 then arg2 else Some (argv ! 2)) of
                                   None \<Rightarrow> None
                                 | Some v \<Rightarrow>
                                     (let baudrate = fst (simple_strtoul v 10)
                                      in if baudrate \<notin> set baudrate_table then Some (1, st)
                                         else env_set_value malloc argv (st\<lparr>gd_baudrate := baudrate\<rparr>)))
                           else env_set_value malloc argv st)))"

definition setenv ::
  "(nat \<Rightarrow> bool) \<Rightarrow> (nat \<Rightarrow> bytes \<Rightarrow> bool) \<Rightarrow> bytes \<Rightarrow> bytes option \<Rightarrow> env_state \<Rightarrow> (int \<times> env_state) option" where
  "setenv malloc console_assign varname varvalue st =
     (case varvalue of
        None \<Rightarrow> env_set malloc console_assign [bs ''setenv'', varname] None st
      | Some v \<Rightarrow>
          if peek v = 0 then env_set malloc console_assign [bs ''setenv'', varname] (Some v) st
          else env_set malloc console_assign [bs ''setenv'', varname, v] None st)"

definition setenv_ulong ::
  "(nat \<Rightarrow> bool) \<Rightarrow> (nat \<Rightarrow> bytes \<Rightarrow> bool) \<Rightarrow> bytes \<Rightarrow> u32 \<Rightarrow> env_state \<Rightarrow> (int \<times> env_state) option" where
  "setenv_ulong malloc console_assign varname v st =
     setenv malloc console_assign varname (Some (simple_itoa v)) st"

text \<open>\<open>setenv_addr\<close> formats into an array on the stack, here at \<open>str\<close> in memory \<open>m\<close>.\<close>

definition setenv_addr ::
  "(nat \<Rightarrow> bool) \<Rightarrow> (nat \<Rightarrow> bytes \<Rightarrow> bool) \<Rightarrow> mem \<Rightarrow> nat \<Rightarrow> bytes \<Rightarrow> u32 \<Rightarrow> env_state \<Rightarrow> (int \<times> env_state) option" where
  "setenv_addr malloc console_assign m str varname a st =
     (case vsprintf m str (bs ''%lx'') [W32 a] of
        None \<Rightarrow> None
      | Some (n, m') \<Rightarrow> setenv malloc console_assign varname (Some (bytes_at m' str (nat n))) st)"

text \<open>\<open>CMD_RET_USAGE\<close> is -1.\<close>

definition do_env_set ::
  "(nat \<Rightarrow> bool) \<Rightarrow> (nat \<Rightarrow> bytes \<Rightarrow> bool) \<Rightarrow> bytes list \<Rightarrow> env_state \<Rightarrow> (int \<times> env_state) option" where
  "do_env_set malloc console_assign argv st =
     (if length argv < 2 then Some (- 1, st) else env_set malloc console_assign argv None st)"

subsection \<open>Reading a variable\<close>

text \<open>Before and after relocation \<open>env_get_char\<close> reads the same array.\<close>

definition env_get_addr :: "mem \<Rightarrow> env_state \<Rightarrow> mem" where
  "env_get_addr default_environment st = (if gd_env_valid st \<noteq> 0 then gd_env_addr st else default_environment)"

definition env_get_char :: "mem \<Rightarrow> env_state \<Rightarrow> nat \<Rightarrow> u8" where
  "env_get_char default_environment st index = env_get_addr default_environment st index"

text \<open>The inner \<open>None\<close> is the result -1; the outer one a comparison that runs past both terminators.\<close>

fun envmatch :: "(nat \<Rightarrow> u8) \<Rightarrow> bytes \<Rightarrow> nat \<Rightarrow> nat option option" where
  "envmatch g [] i2 = (if g i2 = 0 then None else if g i2 = 61 then Some (Some (i2 + 1)) else Some None)"
| "envmatch g (c # s1) i2 =
     (if c = g i2 then (if c = 61 then Some (Some (i2 + 1)) else envmatch g s1 (i2 + 1)) else Some None)"

function env_next :: "(nat \<Rightarrow> u8) \<Rightarrow> nat \<Rightarrow> nat \<Rightarrow> nat option" where
  "env_next g sz nxt = (if g nxt = 0 then Some nxt else if nxt \<ge> sz then None else env_next g sz (nxt + 1))"
  by auto
termination by (relation "measure (\<lambda>(g, sz, nxt). sz - nxt)") auto

declare env_next.simps [simp del]

text \<open>The copy to the caller's buffer: the return value and the string in the buffer.\<close>

fun getenv_copy :: "(nat \<Rightarrow> u8) \<Rightarrow> nat \<Rightarrow> nat \<Rightarrow> bytes \<Rightarrow> int \<times> bytes" where
  "getenv_copy g val 0 buf = (int (length buf), butlast buf)"
| "getenv_copy g val (Suc n) buf =
     (if g val = 0 then (int (length buf), buf) else getenv_copy g (val + 1) n (buf @ [g val]))"

lemma env_next_le: "env_next g sz i = Some j \<Longrightarrow> i \<le> j"
  by (induction g sz i rule: env_next.induct) (subst (asm) env_next.simps, auto split: if_splits)

lemma env_next_lt: "env_next g sz i = Some j \<Longrightarrow> g i \<noteq> 0 \<Longrightarrow> i < sz"
  by (subst (asm) env_next.simps) (auto split: if_splits)

function getenv_f_loop :: "(nat \<Rightarrow> u8) \<Rightarrow> nat \<Rightarrow> bytes \<Rightarrow> nat \<Rightarrow> nat \<Rightarrow> (int \<times> bytes) option" where
  "getenv_f_loop g sz name len i =
     (if g i = 0 then Some (- 1, [])
      else (case env_next g sz i of
              None \<Rightarrow> Some (- 1, [])
            | Some nxt \<Rightarrow>
                (case envmatch g name i of
                   None \<Rightarrow> None
                 | Some None \<Rightarrow> getenv_f_loop g sz name len (nxt + 1)
                 | Some (Some val) \<Rightarrow> Some (getenv_copy g val len []))))"
  by auto
termination
proof (relation "measure (\<lambda>(g, sz, name, len, i). sz - i)", goal_cases)
  case (2 g sz name len i nxt r)
  then have "i \<le> nxt" "i < sz" using env_next_le [of g sz i nxt] env_next_lt [of g sz i nxt] by simp_all
  then show ?case by simp
qed simp

declare getenv_f_loop.simps [simp del]

definition getenv_f :: "mem \<Rightarrow> env_state \<Rightarrow> bytes \<Rightarrow> nat \<Rightarrow> (int \<times> bytes) option" where
  "getenv_f default_environment st name len =
     getenv_f_loop (env_get_char default_environment st) (cfg_env_size st) name len 0"

definition getenv :: "mem \<Rightarrow> bytes \<Rightarrow> env_state \<Rightarrow> (bytes option \<times> env_state) option" where
  "getenv default_environment name st =
     (if gd_env_ready st
      then (case hsearch_r (\<lambda>_. True) name None FIND (env_htab st) of
              None \<Rightarrow> None
            | Some (ep, _) \<Rightarrow>
                Some (case retval ep of
                        None \<Rightarrow> None
                      | Some i \<Rightarrow> (case ht_table (env_htab st) of None \<Rightarrow> None | Some t \<Rightarrow> data (t ! i)), st))
      else (let st = st\<lparr>cfg_env_size := 64 * 1024\<rparr>
            in case getenv_f default_environment st name 32 of
                 None \<Rightarrow> None
               | Some (n, buf) \<Rightarrow> Some (if n > 0 then Some buf else None, st)))"

definition getenv_ulong :: "mem \<Rightarrow> bytes \<Rightarrow> u32 \<Rightarrow> u32 \<Rightarrow> env_state \<Rightarrow> (u32 \<times> env_state) option" where
  "getenv_ulong default_environment name base default_val st =
     (case getenv default_environment name st of
        None \<Rightarrow> None
      | Some (str, st) \<Rightarrow> Some (case str of None \<Rightarrow> default_val | Some s \<Rightarrow> fst (simple_strtoul s base), st))"

definition get_env_id :: "env_state \<Rightarrow> u32" where
  "get_env_id st = env_id st"

text \<open>\<open>readline\<close> is what the user makes of the text to edit. The array for it has \<open>CONFIG_SYS_CBSIZE\<close> = 512
  bytes; a longer value overflows it, which is \<open>None\<close>.\<close>

definition do_env_edit ::
  "(nat \<Rightarrow> bool) \<Rightarrow> (nat \<Rightarrow> bytes \<Rightarrow> bool) \<Rightarrow> mem \<Rightarrow> (bytes \<Rightarrow> bytes) \<Rightarrow> bytes list \<Rightarrow> env_state \<Rightarrow> (int \<times> env_state) option" where
  "do_env_edit malloc console_assign default_environment readline argv st =
     (if length argv < 2 then Some (- 1, st)
      else (case getenv default_environment (argv ! 1) st of
              None \<Rightarrow> None
            | Some (init_val, st) \<Rightarrow>
                (let buffer = (case init_val of None \<Rightarrow> [] | Some v \<Rightarrow> v)
                 in if length buffer \<ge> 512 then None
                    else setenv malloc console_assign (argv ! 1) (Some (readline buffer)) st)))"

subsection \<open>The checksummed block\<close>

definition ENV_HEADER_SIZE :: nat where
  "ENV_HEADER_SIZE = 4"

definition ENV_SIZE :: "env_state \<Rightarrow> nat" where
  "ENV_SIZE st = cfg_env_size st - ENV_HEADER_SIZE"

text \<open>The default environment is an array of \<open>dsize\<close> bytes; its import may fail, which is only reported.\<close>

definition set_default_env :: "(nat \<Rightarrow> bool) \<Rightarrow> mem \<Rightarrow> nat \<Rightarrow> env_state \<Rightarrow> env_state option" where
  "set_default_env malloc default_environment dsize st =
     (if dsize > ENV_SIZE st then Some st
      else (case himport_r malloc (env_htab st) (bytes_at default_environment 0 dsize) 0 False of
              None \<Rightarrow> None
            | Some (_, h) \<Rightarrow> Some (st\<lparr>env_htab := h, gd_env_ready := True\<rparr>)))"

text \<open>A block is the little-endian checksum and the data; \<open>addr\<close> is its address, \<open>buf\<close> its bytes.\<close>

definition env_crc :: "bytes \<Rightarrow> u32" where
  "env_crc buf = le32 (buf ! 0) (buf ! 1) (buf ! 2) (buf ! 3)"

definition env_data :: "nat \<Rightarrow> bytes \<Rightarrow> bytes" where
  "env_data sz buf = take sz (drop ENV_HEADER_SIZE buf)"

definition env_import ::
  "(nat \<Rightarrow> bool) \<Rightarrow> mem \<Rightarrow> nat \<Rightarrow> nat \<Rightarrow> bytes \<Rightarrow> bool \<Rightarrow> env_state \<Rightarrow> (int \<times> env_state) option" where
  "env_import malloc default_environment dsize addr buf check st =
     (if check \<and> crc32 (addr + ENV_HEADER_SIZE) 0 (env_data (ENV_SIZE st) buf) \<noteq> env_crc buf
      then map_option (\<lambda>st. (0, st)) (set_default_env malloc default_environment dsize st)
      else (case himport_r malloc (env_htab st) (env_data (ENV_SIZE st) buf) 0 False of
              None \<Rightarrow> None
            | Some (r, h) \<Rightarrow>
                if r \<noteq> 0 then Some (1, st\<lparr>env_htab := h, gd_env_ready := True\<rparr>)
                else map_option (\<lambda>st. (0, st)) (set_default_env malloc default_environment dsize (st\<lparr>env_htab := h\<rparr>))))"

definition do_env_default :: "(nat \<Rightarrow> bool) \<Rightarrow> mem \<Rightarrow> nat \<Rightarrow> bytes list \<Rightarrow> env_state \<Rightarrow> (int \<times> env_state) option" where
  "do_env_default malloc default_environment dsize argv st =
     (if length argv \<noteq> 2 \<or> strcmp_s (argv ! 1) (bs ''-f'') \<noteq> 0 then Some (- 1, st)
      else map_option (\<lambda>st. (0, st)) (set_default_env malloc default_environment dsize st))"


subsection \<open>The block in NAND flash\<close>

text \<open>
  \<open>rng\<close> is \<open>CONFIG_ENV_RANGE\<close>, \<open>sz\<close> is \<open>CONFIG_ENV_SIZE\<close>. Writing bytes of the
  array that lie behind the \<open>CONFIG_ENV_SIZE\<close> ones, which are not initialised, is \<open>None\<close>.
\<close>

function writeenv_loop :: "'d nand \<Rightarrow> nat \<Rightarrow> nat \<Rightarrow> nat \<Rightarrow> bytes \<Rightarrow> nat \<Rightarrow> nat \<Rightarrow> 'd \<Rightarrow> ((nat option) \<times> 'd) option" where
  "writeenv_loop nd sz e len buf amount_saved off d =
     (if erasesize nd = 0 then None
      else if amount_saved < sz \<and> off < e
      then (if block_isbad nd off \<noteq> 0 then writeenv_loop nd sz e len buf amount_saved (off + erasesize nd) d
            else if length buf < amount_saved + len then None
            else (case mtd_write nd off (take len (drop amount_saved buf)) d of
                    None \<Rightarrow> Some (None, d)
                  | Some d' \<Rightarrow> writeenv_loop nd sz e len buf (amount_saved + len) (off + erasesize nd) d'))
      else Some (Some amount_saved, d))"
  by auto
termination by (relation "measure (\<lambda>(nd, sz, e, len, buf, am, off, d). e - off)") auto

declare writeenv_loop.simps [simp del]

definition writeenv :: "'d nand \<Rightarrow> nat \<Rightarrow> nat \<Rightarrow> nat \<Rightarrow> bytes \<Rightarrow> 'd \<Rightarrow> (int \<times> 'd) option" where
  "writeenv nd rng sz off buf d =
     (case writeenv_loop nd sz (off + rng) (min (erasesize nd) sz) buf 0 off d of
        None \<Rightarrow> None
      | Some (None, d) \<Rightarrow> Some (1, d)
      | Some (Some amount_saved, d) \<Rightarrow> Some (if amount_saved \<noteq> sz then 1 else 0, d))"

text \<open>\<open>Some None\<close> is the result 1, and \<open>Some (Some buf)\<close> the result 0 with the block read.\<close>

function readenv_loop :: "'d nand \<Rightarrow> nat \<Rightarrow> nat \<Rightarrow> nat \<Rightarrow> bytes \<Rightarrow> nat \<Rightarrow> 'd \<Rightarrow> bytes option option" where
  "readenv_loop nd sz e len buf off d =
     (if erasesize nd = 0 then None
      else if length buf < sz \<and> off < e
      then (if block_isbad nd off \<noteq> 0 then readenv_loop nd sz e len buf (off + erasesize nd) d
            else (case nand_read_skip_bad nd off len d of
                    None \<Rightarrow> None
                  | Some None \<Rightarrow> Some None
                  | Some (Some xs) \<Rightarrow> readenv_loop nd sz e len (buf @ xs) (off + erasesize nd) d))
      else Some (Some buf))"
  by auto
termination by (relation "measure (\<lambda>(nd, sz, e, len, buf, off, d). e - off)") auto

declare readenv_loop.simps [simp del]

definition readenv :: "'d nand \<Rightarrow> nat \<Rightarrow> nat \<Rightarrow> nat \<Rightarrow> 'd \<Rightarrow> bytes option option" where
  "readenv nd rng sz off d =
     (if erasesize nd = 0 then Some None
      else (case readenv_loop nd sz (off + rng) (min (erasesize nd) sz) [] off d of
              None \<Rightarrow> None
            | Some None \<Rightarrow> Some None
            | Some (Some buf) \<Rightarrow> Some (if length buf \<noteq> sz then None else Some buf)))"

text \<open>\<open>saveenv\<close>: the data of the block on the stack is the exported text, and zeros behind it.\<close>

definition nand_saveenv ::
  "(nat \<Rightarrow> bool) \<Rightarrow> 'd nand \<Rightarrow> nat \<Rightarrow> nat \<Rightarrow> nat \<Rightarrow> env_state \<Rightarrow> 'd \<Rightarrow> (int \<times> 'd) option" where
  "nand_saveenv malloc nd rng off addr st d =
     (if rng < cfg_env_size st then Some (1, d)
      else (case hexport_r malloc (env_htab st) 0 True (ENV_SIZE st) [] of
              None \<Rightarrow> None
            | Some (Inl Overflow) \<Rightarrow> None
            | Some (Inl _) \<Rightarrow> Some (1, d)
            | Some (Inr dat) \<Rightarrow>
                (let env_new = put_le32 (crc32 (addr + ENV_HEADER_SIZE) 0 dat) @ dat
                 in case nand_erase_opts nd off rng d of
                      None \<Rightarrow> Some (1, d)
                    | Some d \<Rightarrow> (case writeenv nd rng (cfg_env_size st) off env_new d of
                                   None \<Rightarrow> None
                                 | Some (r, d) \<Rightarrow> Some (if r \<noteq> 0 then 1 else 0, d)))))"

definition do_env_save ::
  "(nat \<Rightarrow> bool) \<Rightarrow> 'd nand \<Rightarrow> nat \<Rightarrow> nat \<Rightarrow> nat \<Rightarrow> env_state \<Rightarrow> 'd \<Rightarrow> (int \<times> 'd) option" where
  "do_env_save malloc nd rng off addr st d =
     map_option (\<lambda>(r, d). (if r \<noteq> 0 then 1 else 0, d)) (nand_saveenv malloc nd rng off addr st d)"

text \<open>Until it is read from flash, the environment is the default one.\<close>

definition nand_env_init :: "mem \<Rightarrow> env_state \<Rightarrow> env_state" where
  "nand_env_init default_environment st = st\<lparr>gd_env_addr := default_environment, gd_env_valid := 1\<rparr>"

definition nand_env_relocate_spec ::
  "(nat \<Rightarrow> bool) \<Rightarrow> mem \<Rightarrow> nat \<Rightarrow> 'd nand \<Rightarrow> nat \<Rightarrow> nat \<Rightarrow> nat \<Rightarrow> 'd \<Rightarrow> env_state \<Rightarrow> env_state option" where
  "nand_env_relocate_spec malloc default_environment dsize nd rng off addr d st =
     (case readenv nd rng (cfg_env_size st) off d of
        None \<Rightarrow> None
      | Some None \<Rightarrow> set_default_env malloc default_environment dsize st
      | Some (Some buf) \<Rightarrow> map_option snd (env_import malloc default_environment dsize addr buf True st))"

definition env_relocate ::
  "(nat \<Rightarrow> bool) \<Rightarrow> mem \<Rightarrow> nat \<Rightarrow> 'd nand \<Rightarrow> nat \<Rightarrow> nat \<Rightarrow> nat \<Rightarrow> 'd \<Rightarrow> env_state \<Rightarrow> env_state option" where
  "env_relocate malloc default_environment dsize nd rng off addr d st =
     (if gd_env_valid st = 0 then set_default_env malloc default_environment dsize st
      else nand_env_relocate_spec malloc default_environment dsize nd rng off addr d st)"

end
