(* ===== verification/Env_Boot.thy ===== *)
theory Env_Boot
  imports Nvedit
begin

text \<open>
  What the environment promises its users, over the invariant \<open>ht_ok\<close> and the map \<open>ht_map\<close> of the hash
  table: \<open>setenv\<close> and \<open>getenv\<close> are update and lookup of that map, numbers survive the round trip
  through their text, a checksummed block that was damaged is not imported, the block that \<open>saveenv\<close>
  wrote restores the map at the next boot even with bad blocks in between, and the search of the raw
  block before relocation finds what the table holds after it.
\<close>

subsection \<open>Lookup and update\<close>

abbreviation env_map :: "env_state \<Rightarrow> bytes \<Rightarrow> bytes option" where
  "env_map st \<equiv> ht_map (env_htab st)"

lemma getenv_ready:
  assumes "gd_env_ready st" "ht_ok (env_htab st)" "0 \<notin> set name"
  shows "getenv denv name st = Some (env_map st name, st)"
proof (cases "env_map st name")
  case None
  then show ?thesis using assms find_absent [OF assms(2,3)] by (simp add: getenv_def)
next
  case (Some d)
  obtain t j where "hsearch_r (\<lambda>_. True) name None FIND (env_htab st) = Some (hfound j j, env_htab st)"
      "ht_table (env_htab st) = Some t" "data (t ! j) = Some d"
    using find_present [OF assms(2,3) Some, where malloc = "\<lambda>_. True" and dat = None] by metis
  then show ?thesis using assms(1) Some by (simp add: getenv_def)
qed

text \<open>The names whose assignment has no effect outside the table and \<open>load_addr\<close> or \<open>BootFile\<close>.\<close>

definition plain_name :: "bytes \<Rightarrow> bool" where
  "plain_name name \<longleftrightarrow> 0 \<notin> set name \<and> 61 \<notin> set name \<and> console_of name = None \<and> name \<noteq> bs ''baudrate''"

lemma env_set_plain:
  assumes "ht_ok (env_htab st)" "plain_name (argv ! 1)"
  shows "env_set malloc ca argv arg2 st = env_set_value malloc argv (st\<lparr>env_id := env_id st + 1\<rparr>)"
proof -
  note n = assms(2) [unfolded plain_name_def]
  have "0 \<notin> set (bs ''baudrate'')" by simp
  then have "strcmp_s (argv ! 1) (bs ''baudrate'') \<noteq> 0"
    using n strcmp_s_eq_0 [of "argv ! 1" "bs ''baudrate''"] by (auto simp del: bs_simps)
  moreover have "\<exists>ep h. hsearch_r malloc (argv ! 1) None FIND (env_htab st) = Some (ep, h)"
    using find_absent [OF assms(1)] find_present [OF assms(1)] n
    by (cases "env_map st (argv ! 1)") metis+
  ultimately show ?thesis using n by (auto simp: env_set_def Let_def simp del: bs_simps)
qed


lemma env_set_value_delete:
  assumes "ht_ok (env_htab st)" "0 \<notin> set (argv ! 1)" "length argv = 2"
  shows "\<exists>st'. env_set_value malloc argv st = Some (if env_map st (argv ! 1) = None then 1 else 0, st')
    \<and> ht_ok (env_htab st') \<and> env_map st' = (env_map st)(argv ! 1 := None) \<and> gd_env_ready st' = gd_env_ready st"
proof (cases "env_map st (argv ! 1)")
  case None
  then show ?thesis
    using assms delete_absent [OF assms(1,2)] by (auto simp: env_set_value_def fun_upd_idem_iff)
next
  case (Some d)
  obtain h where "hdelete_r (argv ! 1) (env_htab st) = Some (\<lparr>ret = 1, retval = None, errno = None\<rparr>, h)"
      "ht_ok h" "ht_map h = (env_map st)(argv ! 1 := None)"
    using delete_present [OF assms(1,2) Some] by metis
  then show ?thesis using assms(3) Some by (auto simp: env_set_value_def)
qed

lemma env_set_value_enter:
  assumes "ht_ok (env_htab st)" "0 \<notin> set (argv ! 1)" "3 \<le> length argv"
    and "env_map st (argv ! 1) \<noteq> None \<or> 0 < free_slots (env_htab st)"
  shows "\<exists>st'. env_set_value (\<lambda>_. True) argv st = Some (0, st') \<and> ht_ok (env_htab st')
    \<and> env_map st' = (env_map st)(argv ! 1 \<mapsto> join_args (drop 2 argv)) \<and> gd_env_ready st' = gd_env_ready st"
proof -
  obtain r h where "hsearch_r (\<lambda>_. True) (argv ! 1) (Some (join_args (drop 2 argv))) ENTER (env_htab st) = Some (r, h)"
      "retval r \<noteq> None" "ht_ok h" "ht_map h = (env_map st)(argv ! 1 \<mapsto> join_args (drop 2 argv))"
    using enter_ok [OF assms(1,2,4), where malloc = "\<lambda>_. True" and d = "join_args (drop 2 argv)"] by metis
  then show ?thesis using assms(3) by (auto simp: env_set_value_def Let_def simp del: bs_simps)
qed

text \<open>The abstract effect of \<open>setenv\<close>: an empty value deletes.\<close>

definition env_update :: "bytes \<Rightarrow> bytes option \<Rightarrow> (bytes \<Rightarrow> bytes option) \<Rightarrow> bytes \<Rightarrow> bytes option" where
  "env_update k v mp = mp(k := (case v of None \<Rightarrow> None | Some x \<Rightarrow> if x = [] then None else Some x))"

lemma setenv_ok:
  assumes "ht_ok (env_htab st)" "plain_name name" "\<forall>v \<in> set_option val. 0 \<notin> set v"
    and "env_map st name \<noteq> None \<or> 0 < free_slots (env_htab st)"
  obtains st' where "setenv (\<lambda>_. True) ca name val st =
      Some (if env_update name val (env_map st) name = None \<and> env_map st name = None then 1 else 0, st')"
    "ht_ok (env_htab st')" "env_map st' = env_update name val (env_map st)" "gd_env_ready st' = gd_env_ready st"
proof -
  define st1 where "st1 = st\<lparr>env_id := env_id st + 1\<rparr>"
  have st1: "ht_ok (env_htab st1)" "env_map st1 = env_map st" "gd_env_ready st1 = gd_env_ready st"
    "free_slots (env_htab st1) = free_slots (env_htab st)" using assms(1) by (simp_all add: st1_def)
  have z: "0 \<notin> set name" using assms(2) by (simp add: plain_name_def)
  let ?del = "[bs ''setenv'', name]"
  have p: "env_set (\<lambda>_. True) ca argv arg2 st = env_set_value (\<lambda>_. True) argv st1" if "argv ! 1 = name" for argv arg2
    unfolding st1_def by (rule env_set_plain [OF assms(1)]) (use that assms(2) in simp)
  consider (del) arg2 where "env_update name val (env_map st) = (env_map st)(name := None)"
      "setenv (\<lambda>_. True) ca name val st = env_set (\<lambda>_. True) ca ?del arg2 st"
    | (put) v where "val = Some v" "v \<noteq> []" "peek v \<noteq> 0"
    using assms(3) by (cases val; cases "the val") (auto simp: env_update_def setenv_def)
  then show thesis
  proof cases
    case del
    then show thesis
      using env_set_value_delete [of st1 ?del "\<lambda>_. True"] z st1 p [of ?del arg2] that by auto
  next
    case put
    have j: "join_args [v] = v" by (simp add: join_args_def)
    show thesis
      using env_set_value_enter [of st1 "[bs ''setenv'', name, v]"] z st1 p [of "[bs ''setenv'', name, v]"] put assms(4) that
      by (auto simp: setenv_def env_update_def j simp del: bs_simps)
  qed
qed


subsection \<open>Numbers in variables\<close>

lemma decimal_nonempty: "decimal n \<noteq> []"
  by (simp add: decimal_def)

lemma fmt_lx: "vs_text m (bs ''%lx'') [W32 w] = Some (digits_text 16 32 (unat w), [])"
  by (simp add: fmt_simps unat_ucast_64)

lemma digits_text_xdigit: "c \<in> set (digits_text 16 32 n) \<Longrightarrow> isxdigit c"
  using dchar_props(1) [of _ 32] rdigits_lt [of 16 _ n] by (auto simp: digits_text_def)

lemma digits_text_nonzero: "0 \<notin> set (digits_text 16 32 n)"
  using digits_text_xdigit [of 0 n] by auto

lemma strtoul_hex_digits: "simple_strtoul (digits_text 16 32 n) 16 = (word_of_nat n, [])"
proof -
  have l: "strto_loop (digits_text 16 32 n) (16 :: u32) 0 = (word_of_nat n, [])"
    using strtoul_digits [of 16 32 n] by simp
  obtain d ds where d: "d < 16" "digits_text 16 32 n = dchar 32 d # ds" using digits_text_hd [of 16 32 n] by auto
  have p: "peek ds \<noteq> 120" using digits_text_xdigit [of "peek ds" n] d(2) by (cases ds) (auto simp: isxdigit_iff)
  show ?thesis
  proof (cases "dchar 32 d = 48")
    case True
    have v: "digit_value (48 :: u8) = (0 :: u32)" "isxdigit (48 :: u8)"
      by (simp_all add: digit_value_def isdigit_iff isxdigit_iff)
    have "strto_prefix (digits_text 16 32 n) 16 = (16, ds)"
      unfolding d(2) strto_prefix_def using True p by simp
    moreover have "strto_loop ds (16 :: u32) 0 = (word_of_nat n, [])"
      using l unfolding d(2) True by (simp add: v)
    ultimately show ?thesis by (simp add: simple_strtoul_def)
  next
    case False
    then have "strto_prefix (digits_text 16 32 n) 16 = (16, digits_text 16 32 n)"
      unfolding d(2) strto_prefix_def by simp
    then show ?thesis using l by (simp add: simple_strtoul_def)
  qed
qed

lemma vsprintf_lx:
  assumes "str < 2 ^ 31"
  shows "\<exists>m'. vsprintf m str (bs ''%lx'') [W32 a] = Some (int (length (digits_text 16 32 (unat a))), m')
    \<and> bytes_at m' str (length (digits_text 16 32 (unat a))) = digits_text 16 32 (unat a)"
proof -
  let ?t = "digits_text 16 32 (unat a)"
  have "length (rdigits 16 (unat a)) \<le> 8" by (rule length_rdigits) simp_all
  then have len: "length ?t \<le> 8" by (simp add: digits_text_def)
  have "vsprintf m str (bs ''%lx'') [W32 a] = Some (int (length ?t), store m str (take (2 ^ 31 - 1 - 1) ?t @ [0]))"
    using vsnprintf_eq [OF fmt_lx [of m a], of str "2 ^ 31 - 1"] assms len by (simp add: vsprintf_def vsnprintf_def)
  moreover have "take (2 ^ 31 - 1 - 1) ?t = ?t" using len by simp
  ultimately show ?thesis
    using take_bytes_at [of "length ?t" "store m str (?t @ [0])" str "length (?t @ [0])"] bytes_at_store_in [of m str "?t @ [0]"]
    by simp
qed


subsection \<open>Writing the block and reading it back\<close>

text \<open>The good blocks of the range behind \<open>off\<close> are erased.\<close>

definition clean :: "'d nand \<Rightarrow> nat \<Rightarrow> nat \<Rightarrow> mem \<Rightarrow> bool" where
  "clean nd off e m \<longleftrightarrow> (\<forall>a. off \<le> a \<and> a < e \<and> block_isbad nd (block_start nd a) = 0 \<longrightarrow> m a = 255)"

lemma clean_mono: "clean nd off e m \<Longrightarrow> off \<le> off' \<Longrightarrow> (\<And>a. off' \<le> a \<Longrightarrow> m' a = m a) \<Longrightarrow> clean nd off' e m'"
  by (simp add: clean_def)

lemma programmed_out: "a < off \<or> off + length xs \<le> a \<Longrightarrow> programmed m off xs a = m a"
  by (auto simp: programmed_def)

lemma programmed_clean:
  assumes "erasesize nd dvd off" "block_isbad nd off = 0" "length xs \<le> erasesize nd" "off + length xs \<le> e" "clean nd off e m"
  shows "bytes_at (programmed m off xs) off (length xs) = xs"
proof (rule nth_equalityI)
  fix i assume "i < length (bytes_at (programmed m off xs) off (length xs))"
  then have i: "i < length xs" by simp
  have "(off + i) mod erasesize nd = i"
    using assms(1,3) i by (metis add_0 dvd_imp_mod_0 mod_add_left_eq mod_less order_less_le_trans)
  then have "block_start nd (off + i) = off" by (simp add: block_start_def)
  then have "m (off + i) = 255" using assms(2,4,5) i by (simp add: clean_def)
  moreover have "(255 :: u8) AND b = b" for b
    by (rule all_u8 [where P = "\<lambda>b. 255 AND b = b"]) code_simp
  ultimately show "bytes_at (programmed m off xs) off (length xs) ! i = xs ! i" using i by (simp add: programmed_def)
qed simp

lemma writeenv_keeps:
  assumes "nand_laws nd contents" "writeenv_loop nd sz e len buf am off d = Some (r, d')" "a < off"
  shows "contents d' a = contents d a"
  using assms
proof (induction nd sz e len buf am off d rule: writeenv_loop.induct)
  case (1 nd sz e len buf am off d)
  have z: "erasesize nd \<noteq> 0" using 1(3) by (auto simp: nand_laws_def)
  note run = 1(4) [unfolded writeenv_loop.simps [of nd sz e len buf am off d]]
  consider (fin) "\<not> (am < sz \<and> off < e)" | (bad) "am < sz \<and> off < e" "block_isbad nd off \<noteq> 0"
    | (good) "am < sz \<and> off < e" "\<not> block_isbad nd off \<noteq> 0"
    by blast
  then show ?case
  proof cases
    case fin
    then show ?thesis using run z by (simp split: if_splits)
  next
    case bad
    then show ?thesis using run z 1(1) [OF z bad 1(3)] 1(5) by simp
  next
    case good
    then have l: "\<not> length buf < am + len" using run z by (auto split: if_splits)
    show ?thesis
    proof (cases "mtd_write nd off (take len (drop am buf)) d")
      case None
      then show ?thesis using run z good l by simp
    next
      case (Some d1)
      then have "contents d1 a = contents d a"
        using 1(3,5) by (simp add: nand_laws_def programmed_out)
      then show ?thesis using run z good l Some 1(2) [OF z good l Some 1(3)] 1(5) by simp
    qed
  qed
qed

lemma writeenv_readenv:
  assumes "nand_laws nd contents" "writeenv_loop nd sz e len buf am off d = Some (Some am', d')"
    and "len \<le> erasesize nd" "am \<le> length buf" "0 < len" "erasesize nd dvd off" "e \<le> nand_size nd"
    and "\<And>k. erasesize nd dvd k \<Longrightarrow> k < e \<Longrightarrow> k + len \<le> e" "clean nd off e (contents d)"
  shows "readenv_loop nd sz e len (take am buf) off d' = Some (Some (take am' buf)) \<and> am' \<le> length buf"
  using assms
proof (induction nd sz e len buf am off d rule: writeenv_loop.induct)
  case (1 nd sz e len buf am off d)
  note prems = 1(3-11)
  have z: "erasesize nd \<noteq> 0" using prems(1) by (auto simp: nand_laws_def)
  note run = prems(2) [unfolded writeenv_loop.simps [of nd sz e len buf am off d]]
  have m: "min (length buf) am = am" using prems(4) by simp
  have dv: "erasesize nd dvd off + erasesize nd" using prems(6) by simp
  consider (fin) "\<not> (am < sz \<and> off < e)" | (bad) "am < sz \<and> off < e" "block_isbad nd off \<noteq> 0"
    | (good) "am < sz \<and> off < e" "\<not> block_isbad nd off \<noteq> 0"
    by blast
  then show ?case
  proof cases
    case fin
    then have "am' = am" using run z by (simp split: if_splits)
    then show ?thesis using fin z prems(4) m by (subst readenv_loop.simps) auto
  next
    case bad
    have c: "clean nd (off + erasesize nd) e (contents d)" using prems(9) by (rule clean_mono) simp_all
    show ?thesis
      using run z 1(1) [OF z bad prems(1) _ prems(3-5) dv prems(7) prems(8) c] bad m by (subst readenv_loop.simps) simp
  next
    case good
    then have l: "\<not> length buf < am + len" using run z by (auto split: if_splits)
    then obtain d1 where d1: "mtd_write nd off (take len (drop am buf)) d = Some d1"
        "writeenv_loop nd sz e len buf (am + len) (off + erasesize nd) d1 = Some (Some am', d')"
      using run z good by (auto split: option.splits)
    let ?xs = "take len (drop am buf)"
    have xs: "length ?xs = len" using l by simp
    have p: "contents d1 = programmed (contents d) off ?xs" using prems(1) d1(1) by (simp add: nand_laws_def)
    have "bytes_at (contents d') off len = bytes_at (contents d1) off len"
      using writeenv_keeps [OF prems(1) d1(2)] prems(3) z by (intro bytes_at_cong) simp
    also have "\<dots> = ?xs"
      using programmed_clean [of nd off ?xs e "contents d"] prems(3,6,8,9) good xs unfolding p by simp
    finally have rd: "nand_read_skip_bad nd off len d' = Some (Some ?xs)"
      using read_good [OF prems(1,6) _ prems(5,3), of d'] good prems(7) by simp
    have c: "clean nd (off + erasesize nd) e (contents d1)"
      using prems(9) by (rule clean_mono) (use prems(3) xs in \<open>simp_all add: p programmed_out\<close>)
    show ?thesis
      using 1(2) [OF z good l d1(1) prems(1) d1(2) prems(3) _ prems(5) dv prems(7) prems(8) c] good z l m rd
      by (subst readenv_loop.simps) (simp add: take_add)
  qed
qed

lemma saved_block_reads_back:
  assumes "nand_laws nd contents" "writeenv nd rng sz off buf d = Some (0, d')" "length buf = sz" "0 < sz"
    and "erasesize nd dvd off" "off + rng \<le> nand_size nd" "erasesize nd dvd rng" "clean nd off (off + rng) (contents d)"
  shows "readenv nd rng sz off d' = Some (Some buf)"
proof -
  have es: "0 < erasesize nd" using assms(1) by (simp add: nand_laws_def)
  have "k + min (erasesize nd) sz \<le> off + rng" if k: "erasesize nd dvd k" "k < off + rng" for k
  proof -
    obtain i where "k = erasesize nd * i" using k(1) ..
    moreover obtain j where "off + rng = erasesize nd * j" using dvd_add [OF assms(5,7)] ..
    moreover from calculation have "i < j" using k(2) by simp
    ultimately show ?thesis using mult_le_mono2 [of "Suc i" j "erasesize nd"] by simp
  qed
  moreover have "writeenv_loop nd sz (off + rng) (min (erasesize nd) sz) buf 0 off d = Some (Some sz, d')"
    using assms(2) by (auto simp: writeenv_def split: option.splits if_splits)
  ultimately show ?thesis
    using writeenv_readenv [OF assms(1), of sz "off + rng" "min (erasesize nd) sz" buf 0 off d sz d'] assms(3-8) es
    by (simp add: readenv_def)
qed


subsection \<open>Importing the block\<close>

definition env_block :: "nat \<Rightarrow> bytes \<Rightarrow> bytes" where
  "env_block addr dat = put_le32 (crc32 (addr + ENV_HEADER_SIZE) 0 dat) @ dat"

lemma crc32_any_addr: "crc32 a c p = crc32 b c p"
  by (simp add: crc32_eq)

lemma env_block_fields:
  "env_crc (env_block addr dat) = crc32 a 0 dat" "length dat = n \<Longrightarrow> env_data n (env_block addr dat) = dat"
  "length (env_block addr dat) = length dat + 4"
  using le32_put_le32 [of "crc32 (addr + ENV_HEADER_SIZE) 0 dat"] crc32_any_addr [of _ 0 dat a]
  by (simp_all add: env_crc_def env_block_def env_data_def ENV_HEADER_SIZE_def nth_append)

lemma env_import_block:
  assumes "length dat = ENV_SIZE st" "himport_r malloc (env_htab st) dat 0 False = Some (1, h)"
  shows "env_import malloc denv dsize addr' (env_block addr dat) check st = Some (1, st\<lparr>env_htab := h, gd_env_ready := True\<rparr>)"
  using assms env_block_fields(1) [of addr dat "addr' + ENV_HEADER_SIZE"] env_block_fields(2) [of dat "ENV_SIZE st" addr]
  by (simp add: env_import_def)

lemma hexport_length:
  "hexport_r malloc htab sep resp sz argv = Some (Inr out) \<Longrightarrow> sz \<noteq> 0 \<Longrightarrow> length out = sz"
  unfolding hexport_r_def by (auto simp: Let_def split: option.splits if_splits)

lemma saveenv_writes:
  assumes "nand_saveenv malloc nd rng off addr st d = Some (0, d')" "0 < ENV_SIZE st"
  obtains dat d1 where "hexport_r malloc (env_htab st) 0 True (ENV_SIZE st) [] = Some (Inr dat)"
    "length dat = ENV_SIZE st" "nand_erase_opts nd off rng d = Some d1"
    "writeenv nd rng (cfg_env_size st) off (env_block addr dat) d1 = Some (0, d')"
proof -
  obtain dat where dat: "hexport_r malloc (env_htab st) 0 True (ENV_SIZE st) [] = Some (Inr dat)"
    using assms(1) by (auto simp: nand_saveenv_def split: option.splits sum.splits if_splits hexport_error.splits)
  then show thesis
    using assms that hexport_length [OF dat]
    by (auto simp: nand_saveenv_def env_block_def Let_def split: option.splits if_splits)
qed

lemma saveenv_relocate:
  assumes "nand_saveenv malloc nd rng off addr st d = Some (0, d')" "nand_laws nd contents" "0 < ENV_SIZE st"
    and "erasesize nd dvd off" "erasesize nd dvd rng" "off + rng \<le> nand_size nd"
    and "ht_ok (env_htab st)" "\<forall>k v. env_map st k = Some v \<longrightarrow> entry_ok 0 (k, v)"
    and "card (dom (env_map st)) \<le> himport_entries (ENV_SIZE st)"
    and "gd_env_valid st' \<noteq> 0" "cfg_env_size st' = cfg_env_size st"
  shows "\<exists>st''. env_relocate (\<lambda>_. True) denv dsize nd rng off addr' d' st' = Some st''
    \<and> gd_env_ready st'' \<and> ht_ok (env_htab st'') \<and> env_map st'' = env_map st"
proof -
  obtain dat d1 where dat: "hexport_r malloc (env_htab st) 0 True (ENV_SIZE st) [] = Some (Inr dat)"
    "length dat = ENV_SIZE st" "nand_erase_opts nd off rng d = Some d1"
    "writeenv nd rng (cfg_env_size st) off (env_block addr dat) d1 = Some (0, d')"
    using saveenv_writes [OF assms(1,3)] .
  have sz: "ENV_SIZE st' = ENV_SIZE st" "0 < cfg_env_size st" using assms(3,11) by (simp_all add: ENV_SIZE_def)
  have "clean nd off (off + rng) (contents d1)"
    using erase_range [OF assms(2) dat(3) assms(4,6)] by (simp add: clean_def)
  moreover have "length (env_block addr dat) = cfg_env_size st"
    using assms(3) dat(2) by (simp add: env_block_fields ENV_SIZE_def ENV_HEADER_SIZE_def)
  ultimately have r: "readenv nd rng (cfg_env_size st') off d' = Some (Some (env_block addr dat))"
    using saved_block_reads_back [OF assms(2) dat(4) _ sz(2) assms(4,6,5)] assms(11) by simp
  obtain h where h: "himport_r (\<lambda>_. True) (env_htab st') dat 0 False = Some (1, h)" "ht_ok h" "ht_map h = env_map st"
    using roundtrip_import [OF assms(7) dat(1) _ _ assms(8), of "env_htab st'"] assms(9) dat(2) by auto
  show ?thesis
    using env_import_block [of dat st' "\<lambda>_. True" h denv dsize addr' addr True] r h dat(2) sz assms(10)
    by (simp add: env_relocate_def nand_env_relocate_spec_def)
qed


subsection \<open>The raw block before relocation\<close>

definition raw_entry :: "bytes \<times> bytes \<Rightarrow> bytes" where
  "raw_entry e = fst e @ [61] @ snd e @ [0]"

lemma bytes_at_Cons: "bytes_at g i (length (x # xs)) = x # xs \<longleftrightarrow> g i = x \<and> bytes_at g (i + 1) (length xs) = xs"
  by simp

lemma bytes_at_split: "bytes_at g i (length (xs @ ys)) = xs @ ys \<longleftrightarrow>
    bytes_at g i (length xs) = xs \<and> bytes_at g (i + length xs) (length ys) = ys"
  by (simp add: bytes_at_append)

lemma envmatch_entry:
  assumes "bytes_at g i (length (k @ [61])) = k @ [61]" "0 \<notin> set k" "61 \<notin> set k" "0 \<notin> set name" "61 \<notin> set name"
  shows "envmatch g name i = Some (if name = k then Some (i + length k + 1) else None)"
  using assms
proof (induction name arbitrary: i k)
  case Nil
  then show ?case by (cases k) (auto simp: bytes_at_Cons)
next
  case (Cons c name)
  then show ?case by (cases k) (auto simp: bytes_at_Cons)
qed

lemma env_next_entry:
  assumes "bytes_at g i (length (xs @ [0])) = xs @ [0]" "0 \<notin> set xs" "i + length xs \<le> sz"
  shows "env_next g sz i = Some (i + length xs)"
  using assms
proof (induction xs arbitrary: i)
  case Nil
  then show ?case by (subst env_next.simps) simp
next
  case (Cons x xs)
  then have "g i = x" "x \<noteq> 0" "i < sz" by auto
  with Cons show ?case by (subst env_next.simps) auto
qed

lemma getenv_copy_value:
  assumes "bytes_at g i (length (v @ [0])) = v @ [0]" "0 \<notin> set v"
  shows "getenv_copy g i len buf = (if length v < len then (int (length (buf @ v)), buf @ v)
    else (int (length buf + len), butlast (buf @ take len v)))"
  using assms
proof (induction len arbitrary: i v buf)
  case (Suc len)
  then show ?case by (cases v) (auto simp: bytes_at_Cons)
qed simp

lemma getenv_f_loop_lookup:
  assumes "bytes_at g i (length (concat (map raw_entry l) @ [0])) = concat (map raw_entry l) @ [0]"
    and "i + length (concat (map raw_entry l)) \<le> sz + 1"
    and "\<forall>e \<in> set l. 0 \<notin> set (fst e) \<and> 61 \<notin> set (fst e) \<and> 0 \<notin> set (snd e)" "0 \<notin> set name" "61 \<notin> set name"
  shows "getenv_f_loop g sz name len i = Some (case map_of l name of None \<Rightarrow> (- 1, [])
     | Some v \<Rightarrow> if length v < len then (int (length v), v) else (int len, butlast (take len v)))"
  using assms
proof (induction l arbitrary: i)
  case Nil
  then show ?case by (subst getenv_f_loop.simps) simp
next
  case (Cons e l)
  obtain k v where e: "e = (k, v)" by (cases e)
  let ?xs = "k @ [61] @ v"
  have kv: "0 \<notin> set k" "61 \<notin> set k" "0 \<notin> set v" using Cons.prems(3) e by auto
  have "bytes_at g i (length ((?xs @ [0]) @ concat (map raw_entry l) @ [0])) = (?xs @ [0]) @ concat (map raw_entry l) @ [0]"
    using Cons.prems(1) by (simp add: e raw_entry_def [of "(k, v)"])
  then have at: "bytes_at g i (length (?xs @ [0])) = ?xs @ [0]"
    "bytes_at g (i + length ?xs + 1) (length (concat (map raw_entry l) @ [0])) = concat (map raw_entry l) @ [0]"
    unfolding bytes_at_split [of g i "?xs @ [0]"] by simp_all
  have "bytes_at g i (length ((k @ [61]) @ v @ [0])) = (k @ [61]) @ v @ [0]" using at(1) by simp
  then have at': "bytes_at g i (length (k @ [61])) = k @ [61]"
    "bytes_at g (i + length k + 1) (length (v @ [0])) = v @ [0]"
    unfolding bytes_at_split [of g i "k @ [61]"] by simp_all
  have nz: "g i \<noteq> 0" using at'(1) kv(1) by (cases k) auto
  have nx: "env_next g sz i = Some (i + length ?xs)"
    by (rule env_next_entry [OF at(1)]) (use kv Cons.prems(2) in \<open>simp_all add: e raw_entry_def [of "(k, v)"]\<close>)
  have em: "envmatch g name i = Some (if name = k then Some (i + length k + 1) else None)"
    by (rule envmatch_entry [OF at'(1) kv(1,2) Cons.prems(4,5)])
  show ?case
  proof (cases "name = k")
    case True
    then show ?thesis
      using nz nx em getenv_copy_value [OF at'(2) kv(3), of len "[]"] e by (subst getenv_f_loop.simps) simp
  next
    case False
    have "getenv_f_loop g sz name len (i + length ?xs + 1) = Some (case map_of l name of None \<Rightarrow> (- 1, [])
       | Some v \<Rightarrow> if length v < len then (int (length v), v) else (int len, butlast (take len v)))"
      by (rule Cons.IH [OF at(2)]) (use Cons.prems in \<open>simp_all add: e raw_entry_def [of "(k, v)"]\<close>)
    then show ?thesis using False nz nx em e by (subst getenv_f_loop.simps) simp
  qed
qed


lemma escape_nonzero: "0 \<notin> set v \<Longrightarrow> 0 \<notin> set (escape 0 v)"
  by (induction v) auto

lemma hexport_entry_raw: "hexport_entry 0 e = raw_entry (fst e, escape 0 (snd e))"
  by (simp add: hexport_entry_def raw_entry_def)

lemma map_of_escape: "map_of (map (\<lambda>e. (fst e, f (snd e))) l) k = map_option f (map_of l k)"
  by (induction l) auto

subsection \<open>A small environment and a small device\<close>

definition demo_env :: env_state where
  "demo_env = \<lparr>env_htab = demo_ht, env_id = 1, load_addr = 0, BootFile = [], gd_env_ready = True, gd_baudrate = 115200,
     gd_env_valid = 1, gd_env_addr = (\<lambda>_. 0), cfg_env_size = 64\<rparr>"

lemma demo_env_simps [simp]: "env_htab demo_env = demo_ht" "gd_env_ready demo_env" "cfg_env_size demo_env = 64"
  "gd_env_valid demo_env = 1" "ENV_SIZE demo_env = 60"
  by (simp_all add: demo_env_def ENV_SIZE_def ENV_HEADER_SIZE_def)

lemma plain_x: "plain_name (bs ''x'')"
  by (simp add: plain_name_def console_of_def)

text \<open>A device of four blocks of 64 bytes with pages of 16, the first block bad, that programs and reads as a chip
  does: whole pages, bits only cleared.\<close>

definition demo_nand :: "mem nand" where
  "demo_nand = \<lparr>nand_size = 256, erasesize = 64, writesize = 16, block_isbad = (\<lambda>a. if a < 64 then 1 else 0),
     mtd_read = (\<lambda>off n d. if off + n \<le> 256 then Some (bytes_at d off n) else None),
     mtd_write = (\<lambda>off xs d. if off mod 16 \<noteq> 0 \<or> length xs mod 16 \<noteq> 0 \<or> off + length xs > 256 then None else Some (programmed d off xs)),
     mtd_erase = (\<lambda>off d. if off mod 64 \<noteq> 0 \<or> off + 64 > 256 then (- 22, d) else (0, erased d off 64))\<rparr>"

lemma demo_nand_laws: "nand_laws demo_nand id"
  by (auto simp: nand_laws_def demo_nand_def dvd_eq_mod_eq_0)

lemma demo_export: "hexport_r (\<lambda>_. True) demo_ht 0 True 60 [] = Some (Inr (replicate 60 0))"
  by (simp add: hexport_r_def demo_ht_def empty_slot_def qsort_def qsort_gaps.simps numeral_eq_Suc)

definition demo_env1 :: env_state where
  "demo_env1 = demo_env\<lparr>env_htab := demo_ht1\<rparr>"

lemma demo_export1: "hexport_r (\<lambda>_. True) demo_ht1 0 True 60 [] = Some (Inr (bs ''x=7'' @ replicate 57 0))"
  by code_simp

lemma demo_entries1: "\<forall>k v. ht_map demo_ht1 k = Some v \<longrightarrow> entry_ok 0 (k, v)" "card (dom (ht_map demo_ht1)) = 1"
proof -
  have "entry_ok 0 (bs ''x'', bs ''7'')" by (simp add: entry_ok_def isblank_def)
  then show "\<forall>k v. ht_map demo_ht1 k = Some v \<longrightarrow> entry_ok 0 (k, v)" "card (dom (ht_map demo_ht1)) = 1"
    by (simp_all add: demo_ht1_ok(2) del: bs_simps)
qed

subsection \<open>Properties\<close>

text \<open>
  C1: What \<open>saveenv\<close> reported as saved, the next boot restores: on a NAND device that has no defects outside
  its bad blocks, which may lie anywhere in the range, with the range on block boundaries, the block that was
  exported, checksummed and programmed over the erased good blocks is read back, passes its checksum and is
  imported to a table with the same map, when every name and value survives the text form and the import's table
  has room for them.\<close>
theorem saveenv_then_boot:
  assumes "nand_saveenv malloc nd rng off addr st d = Some (0, d')" "nand_laws nd contents" "0 < ENV_SIZE st"
    and "erasesize nd dvd off" "erasesize nd dvd rng" "off + rng \<le> nand_size nd"
    and "ht_ok (env_htab st)" "\<forall>k v. env_map st k = Some v \<longrightarrow> entry_ok 0 (k, v)"
    and "card (dom (env_map st)) \<le> himport_entries (ENV_SIZE st)"
    and "gd_env_valid st' \<noteq> 0" "cfg_env_size st' = cfg_env_size st"
  shows "\<exists>st''. env_relocate (\<lambda>_. True) denv dsize nd rng off addr' d' st' = Some st''
    \<and> gd_env_ready st'' \<and> ht_ok (env_htab st'') \<and> env_map st'' = env_map st"
  using assms by (rule saveenv_relocate)

theorem saveenv_then_boot_witness:
  "\<exists>d' st''. nand_saveenv (\<lambda>_. True) demo_nand 128 0 0 demo_env1 (\<lambda>_. 7) = Some (0, d')
    \<and> env_relocate (\<lambda>_. True) (\<lambda>_. 0) 2 demo_nand 128 0 0 d' demo_env = Some st'' \<and> env_map st'' = [bs ''x'' \<mapsto> bs ''7'']"
proof -
  have e: "cfg_env_size demo_env1 = 64" "ENV_SIZE demo_env1 = 60" "env_htab demo_env1 = demo_ht1"
    by (simp_all add: demo_env1_def ENV_SIZE_def ENV_HEADER_SIZE_def)
  have "nand_erase_opts demo_nand 0 128 d = Some (erased d 64 64)" for d
    by (simp add: nand_erase_opts_def demo_nand_def numeral_2_eq_2)
  moreover have "writeenv_loop demo_nand 64 128 64 buf 0 0 d = Some (Some 64, programmed d 64 buf)" if "length buf = 64" for buf d
    using that by (simp add: writeenv_loop.simps demo_nand_def)
  moreover have "length (put_le32 (crc32 4 0 (bs ''x=7'' @ replicate 57 0)) @ bs ''x=7'' @ replicate 57 0) = 64" by simp
  moreover have "erasesize demo_nand = 64" by (simp add: demo_nand_def)
  ultimately have "\<exists>d'. nand_saveenv (\<lambda>_. True) demo_nand 128 0 0 demo_env1 (\<lambda>_. 7) = Some (0, d')"
    unfolding nand_saveenv_def writeenv_def e demo_export1 by (simp add: ENV_HEADER_SIZE_def del: bs_simps)
  then obtain d' where d': "nand_saveenv (\<lambda>_. True) demo_nand 128 0 0 demo_env1 (\<lambda>_. 7) = Some (0, d')" ..
  show ?thesis
    using saveenv_then_boot [OF d' demo_nand_laws, of demo_env "\<lambda>_. 0" 2 0] d' demo_entries1
    by (auto simp: e demo_ht1_ok demo_nand_def himport_entries_def simp del: bs_simps)
qed

text \<open>
  C12: For a plain name (no \<open>=\<close>, no console, not the baud rate) that is bound already or for which a slot was
  never used, and with memory to be had, \<open>setenv\<close> updates the map that \<open>getenv\<close> reads: the name gets its value, or is
  removed by an empty or null value, no other name changes, and the return value is 1 only for the removal of a name
  that has no value.
\<close>

theorem setenv_getenv:
  assumes "ht_ok (env_htab st)" "gd_env_ready st" "plain_name name" "\<forall>v \<in> set_option val. 0 \<notin> set v"
    and "env_map st name \<noteq> None \<or> 0 < free_slots (env_htab st)" "0 \<notin> set name'"
  shows "\<exists>rc st'. setenv (\<lambda>_. True) ca name val st = Some (rc, st') \<and> ht_ok (env_htab st')
    \<and> getenv denv name' st' = Some (env_update name val (env_map st) name', st')
    \<and> (rc \<noteq> 0 \<longleftrightarrow> rc = 1 \<and> env_update name val (env_map st) name = None \<and> env_map st name = None)"
proof -
  obtain st' where "setenv (\<lambda>_. True) ca name val st =
      Some (if env_update name val (env_map st) name = None \<and> env_map st name = None then 1 else 0, st')"
    "ht_ok (env_htab st')" "env_map st' = env_update name val (env_map st)" "gd_env_ready st' = gd_env_ready st"
    using setenv_ok [OF assms(1,3,4,5)] .
  then show ?thesis using getenv_ready [of st' name' denv] assms(2,6) by simp
qed

theorem setenv_getenv_witness:
  "\<exists>st'. setenv (\<lambda>_. True) (\<lambda>_ _. True) (bs ''x'') (Some (bs ''7'')) demo_env = Some (0, st')
    \<and> getenv (\<lambda>_. 0) (bs ''x'') st' = Some (Some (bs ''7''), st')"
proof -
  have v: "\<forall>v \<in> set_option (Some (bs ''7'')). 0 \<notin> set v" "0 \<notin> set (bs ''x'')" by simp_all
  show ?thesis
    using setenv_getenv [OF _ _ plain_x v(1) _ v(2), of demo_env "\<lambda>_ _. True" "\<lambda>_. 0"]
    by (auto simp: demo_ht_ok env_update_def)
qed

text \<open>
  Numbers survive their text: after \<open>setenv_ulong\<close> the variable reads back as the number in base 10, and
  after \<open>setenv_addr\<close>, which prints in hexadecimal into an array on the stack, in base 16.\<close>
theorem setenv_number_roundtrip:
  assumes "ht_ok (env_htab st)" "gd_env_ready st" "plain_name name"
    and "env_map st name \<noteq> None \<or> 0 < free_slots (env_htab st)" "str < 2 ^ 31"
  shows "(\<exists>st'. setenv_ulong (\<lambda>_. True) ca name w st = Some (0, st') \<and> getenv_ulong denv name 10 dflt st' = Some (w, st'))
    \<and> (\<exists>st'. setenv_addr (\<lambda>_. True) ca m str name w st = Some (0, st') \<and> getenv_ulong denv name 16 dflt st' = Some (w, st'))"
proof -
  have z: "0 \<notin> set name" using assms(3) by (simp add: plain_name_def)
  have put: "\<exists>st'. setenv (\<lambda>_. True) ca name (Some v) st = Some (0, st') \<and> getenv denv name st' = Some (Some v, st')"
    if v: "v \<noteq> []" "0 \<notin> set v" for v
  proof -
    obtain st' where "setenv (\<lambda>_. True) ca name (Some v) st =
        Some (if env_update name (Some v) (env_map st) name = None \<and> env_map st name = None then 1 else 0, st')"
      "ht_ok (env_htab st')" "env_map st' = env_update name (Some v) (env_map st)" "gd_env_ready st' = gd_env_ready st"
      by (rule setenv_ok [OF assms(1,3) _ assms(4), of "Some v"]) (use v(2) in simp)
    then show ?thesis using getenv_ready [of st' name denv] assms(2) z v(1) by (simp add: env_update_def)
  qed
  let ?d = "decimal (unat w)" and ?h = "digits_text 16 32 (unat w)"
  have "simple_strtoul ?d 10 = (w, [])" using strtoul_decimal [of 10 "[]" "unat w"] by simp
  then have dec: "\<exists>st'. setenv_ulong (\<lambda>_. True) ca name w st = Some (0, st') \<and> getenv_ulong denv name 10 dflt st' = Some (w, st')"
    using put [OF decimal_nonempty decimal_nonzero, of "unat w"]
    by (auto simp: setenv_ulong_def simple_itoa_eq getenv_ulong_def)
  obtain m' where "vsprintf m str (bs ''%lx'') [W32 w] = Some (int (length ?h), m')" "bytes_at m' str (length ?h) = ?h"
    using vsprintf_lx [OF assms(5), of m w] by blast
  moreover have "?h \<noteq> []" by (simp add: digits_text_def)
  moreover have "simple_strtoul ?h 16 = (w, [])" using strtoul_hex_digits [of "unat w"] by simp
  ultimately have "\<exists>st'. setenv_addr (\<lambda>_. True) ca m str name w st = Some (0, st') \<and> getenv_ulong denv name 16 dflt st' = Some (w, st')"
    using put [of ?h] digits_text_nonzero [of "unat w"]
    by (auto simp: setenv_addr_def getenv_ulong_def simp del: bs_simps)
  with dec show ?thesis ..
qed

theorem setenv_number_roundtrip_witness:
  "\<exists>st'. setenv_addr (\<lambda>_. True) (\<lambda>_ _. True) (\<lambda>_. 0) 4096 (bs ''x'') 2147483648 demo_env = Some (0, st')
    \<and> getenv_ulong (\<lambda>_. 0) (bs ''x'') 16 0 st' = Some (2147483648, st')"
  using setenv_number_roundtrip [of demo_env "bs ''x''" 4096 "\<lambda>_ _. True" 2147483648 "\<lambda>_. 0" 0 "\<lambda>_. 0"]
    plain_x by (simp add: demo_ht_ok del: bs_simps)


text \<open>
  C24: A damaged block is never imported: when the data of a block with a valid checksum were changed within
  four consecutive bytes, or its stored checksum was changed, \<open>env_import\<close> installs the default
  environment and returns 0.\<close>
theorem env_import_damaged:
  assumes "length dat = ENV_SIZE st" "0 < length dat"
    and "(\<exists>xs a b ys. dat = xs @ a @ ys \<and> dat' = xs @ b @ ys \<and> length a = 4 \<and> length b = 4 \<and> a \<noteq> b \<and> w = crc32 0 0 dat)
      \<or> dat' = dat \<and> w \<noteq> crc32 0 0 dat"
  shows "env_import malloc denv dsize addr (put_le32 w @ dat') True st =
    map_option (\<lambda>st. (0, st)) (set_default_env malloc denv dsize st)"
proof -
  have len: "length dat' = ENV_SIZE st" using assms(1,3) by auto
  have d: "env_data (ENV_SIZE st) (put_le32 w @ dat') = dat'"
    using len by (simp add: env_data_def ENV_HEADER_SIZE_def)
  have c: "env_crc (put_le32 w @ dat') = w"
    using le32_put_le32 [of w] by (simp add: env_crc_def nth_append)
  have "crc32 (addr + ENV_HEADER_SIZE) 0 dat' \<noteq> w"
    using assms(3) crc32_burst crc32_any_addr by metis
  then show ?thesis by (simp add: env_import_def d c)
qed

theorem env_import_damaged_witness:
  "env_import (\<lambda>_. True) (\<lambda>_. 0) 2 0 (put_le32 (crc32 0 0 (replicate 60 0)) @ [1, 0, 0, 0] @ replicate 56 0) True demo_env =
    map_option (\<lambda>st. (0, st)) (set_default_env (\<lambda>_. True) (\<lambda>_. 0) 2 demo_env)"
proof -
  have "replicate 60 (0 :: u8) = [] @ [0, 0, 0, 0] @ replicate 56 0" by (simp add: numeral_eq_Suc)
  then have "\<exists>xs a b ys. replicate 60 (0 :: u8) = xs @ a @ ys \<and> [1, 0, 0, 0] @ replicate 56 0 = xs @ b @ ys
      \<and> length a = 4 \<and> length b = 4 \<and> a \<noteq> b \<and> crc32 0 0 (replicate 60 0) = crc32 0 0 (replicate 60 0)"
    by (intro exI [of _ "[]"] exI [of _ "[0, 0, 0, 0]"] exI [of _ "[1, 0, 0, 0]"] exI [of _ "replicate 56 0"]) simp
  then show ?thesis by (intro env_import_damaged [of "replicate 60 0"]) (simp_all only: length_replicate demo_env_simps simp_thms zero_less_numeral)
qed



text \<open>
  C26: What \<open>setenv\<close> refuses leaves the table alone: a name with \<open>=\<close> in it, the deletion of a console, a
  device that cannot be a console, and a baud rate that the board does not support return 1 with the
  environment unchanged.\<close>
theorem setenv_refuses:
  assumes "ht_ok (env_htab st)" "0 \<notin> set name"
    and "61 \<in> set name
      \<or> console_of name = Some c \<and> (val = None \<or> \<not> ca c (the val))
      \<or> name = bs ''baudrate'' \<and> env_map st name \<noteq> None \<and> val \<noteq> None \<and> fst (simple_strtoul (the val) 10) \<notin> set baudrate_table"
  shows "\<exists>st'. setenv malloc ca name val st = Some (1, st') \<and> env_htab st' = env_htab st \<and> gd_baudrate st' = gd_baudrate st"
proof -
  have f: "\<exists>ep h. hsearch_r malloc name None FIND (env_htab st) = Some (ep, h) \<and> (env_map st name \<noteq> None \<longrightarrow> retval ep \<noteq> None)"
  proof (cases "env_map st name")
    case (Some d)
    obtain j where "hsearch_r malloc name None FIND (env_htab st) = Some (hfound j j, env_htab st)"
      by (rule find_present [OF assms(1,2) Some])
    then show ?thesis by simp
  qed (simp add: find_absent [OF assms(1,2)])
  have nb: "console_of (bs ''baudrate'') = None" "61 \<notin> set (bs ''baudrate'')" by (simp_all add: console_of_def)
  consider (eq) "61 \<in> set name" | (con) "61 \<notin> set name" "console_of name = Some c" "val = None \<or> \<not> ca c (the val)"
    | (baud) "name = bs ''baudrate''" "env_map st name \<noteq> None" "val \<noteq> None" "fst (simple_strtoul (the val) 10) \<notin> set baudrate_table"
    using assms(3) by blast
  then show ?thesis
  proof cases
    case eq
    then show ?thesis by (auto simp: setenv_def env_set_def split: option.splits)
  next
    case con
    then show ?thesis using f by (auto simp: setenv_def env_set_def Let_def split: option.splits)
  next
    case baud
    then show ?thesis using f nb by (auto simp: setenv_def env_set_def Let_def simp del: bs_simps split: option.splits)
  qed
qed

theorem setenv_refuses_witness:
  "\<exists>st'. setenv (\<lambda>_. True) (\<lambda>_ _. True) (bs ''stdout'') None demo_env = Some (1, st') \<and> env_htab st' = demo_ht"
  using setenv_refuses [of demo_env "bs ''stdout''" 1 None "\<lambda>_ _. True" "\<lambda>_. True"]
  by (auto simp: demo_ht_ok console_of_def)

text \<open>Deleting the baud rate parses a null pointer as its new value.\<close>

theorem baudrate_delete_null:
  assumes "ht_ok (env_htab st)" "env_map st (bs ''baudrate'') = Some d"
  shows "setenv malloc ca (bs ''baudrate'') None st = None"
proof -
  have n: "0 \<notin> set (bs ''baudrate'')" "console_of (bs ''baudrate'') = None" "61 \<notin> set (bs ''baudrate'')"
    by (simp_all add: console_of_def)
  obtain j where "hsearch_r malloc (bs ''baudrate'') None FIND (env_htab st) = Some (hfound j j, env_htab st)"
    by (rule find_present [OF assms(1) n(1) assms(2)])
  then show ?thesis using n by (simp add: setenv_def env_set_def Let_def del: bs_simps)
qed

end
