(* ===== verification/Lmb.thy ===== *)
theory Lmb
  imports Prelude
begin

text \<open>
  The logical memory blocks of \<open>lib/lmb.c\<close>: two tables of address ranges, the memory there is
  and the memory that is taken, and an allocator from the top of memory downwards. Addresses and
  sizes are 32-bit words and wrap; an access outside the array of \<open>MAX_LMB_REGIONS + 1\<close> entries
  is \<open>None\<close>. The count is a number, and \<open>cnt - 1\<close> wraps at zero as it does in the source.
\<close>

record lmb_property =
  pbase :: u32
  psize :: u32

record lmb_region =
  cnt :: nat
  rgn_size :: u32
  region :: "lmb_property list"

record lmb =
  memory :: lmb_region
  reserved :: lmb_region

definition MAX_LMB_REGIONS :: nat where
  "MAX_LMB_REGIONS = 8"

abbreviation mkprop :: "u32 \<Rightarrow> u32 \<Rightarrow> lmb_property" where
  "mkprop b s \<equiv> \<lparr>pbase = b, psize = s\<rparr>"

definition pred32 :: "nat \<Rightarrow> nat" where
  "pred32 n = (n + (2 ^ 32 - 1)) mod 2 ^ 32"

definition lmb_addrs_overlap :: "u32 \<Rightarrow> u32 \<Rightarrow> u32 \<Rightarrow> u32 \<Rightarrow> bool" where
  "lmb_addrs_overlap base1 size1 base2 size2 \<longleftrightarrow> base1 < base2 + size2 \<and> base2 < base1 + size1"

definition lmb_addrs_adjacent :: "u32 \<Rightarrow> u32 \<Rightarrow> u32 \<Rightarrow> u32 \<Rightarrow> int" where
  "lmb_addrs_adjacent base1 size1 base2 size2 =
     (if base2 = base1 + size1 then 1 else if base1 = base2 + size2 then -1 else 0)"

definition lmb_regions_adjacent :: "lmb_region \<Rightarrow> nat \<Rightarrow> nat \<Rightarrow> int option" where
  "lmb_regions_adjacent rgn r1 r2 =
     (case (rd (region rgn) r1, rd (region rgn) r2) of
        (Some p1, Some p2) \<Rightarrow> Some (lmb_addrs_adjacent (pbase p1) (psize p1) (pbase p2) (psize p2))
      | _ \<Rightarrow> None)"

function lmb_shift_down :: "lmb_property list \<Rightarrow> nat \<Rightarrow> nat \<Rightarrow> lmb_property list option" where
  "lmb_shift_down reg i n =
     (if i < n
      then (case rd reg (i + 1) of
              None \<Rightarrow> None
            | Some p \<Rightarrow> lmb_shift_down (reg[i := p]) (i + 1) n)
      else Some reg)"
  by pat_completeness auto
termination by (relation "measure (\<lambda>(reg, i, n). n - i)") auto

declare lmb_shift_down.simps [simp del]

definition lmb_remove_region :: "lmb_region \<Rightarrow> nat \<Rightarrow> lmb_region option" where
  "lmb_remove_region rgn r =
     map_option (\<lambda>reg. rgn\<lparr>region := reg, cnt := pred32 (cnt rgn)\<rparr>)
       (lmb_shift_down (region rgn) r (pred32 (cnt rgn)))"

definition lmb_coalesce_regions :: "lmb_region \<Rightarrow> nat \<Rightarrow> nat \<Rightarrow> lmb_region option" where
  "lmb_coalesce_regions rgn r1 r2 =
     (case (rd (region rgn) r1, rd (region rgn) r2) of
        (Some p1, Some p2) \<Rightarrow>
          lmb_remove_region (rgn\<lparr>region := (region rgn)[r1 := p1\<lparr>psize := psize p1 + psize p2\<rparr>]\<rparr>) r2
      | _ \<Rightarrow> None)"

definition lmb_init :: "lmb \<Rightarrow> lmb" where
  "lmb_init l =
     \<lparr>memory = (memory l)\<lparr>region := (region (memory l))[0 := mkprop 0 0], cnt := 1, rgn_size := 0\<rparr>,
      reserved = (reserved l)\<lparr>region := (region (reserved l))[0 := mkprop 0 0], cnt := 1, rgn_size := 0\<rparr>\<rparr>"

text \<open>
  The loop that looks for a region to merge with: at index \<open>i\<close> it finds the region itself, grows
  region \<open>i\<close>, or goes on; \<open>NoMerge\<close> is the end of the table.
\<close>

datatype lmb_merge = Already | Merged nat "lmb_property list" | NoMerge

function lmb_merge_loop :: "u32 \<Rightarrow> u32 \<Rightarrow> lmb_property list \<Rightarrow> nat \<Rightarrow> nat \<Rightarrow> lmb_merge option" where
  "lmb_merge_loop b s reg n i =
     (if i < n
      then (case rd reg i of
              None \<Rightarrow> None
            | Some p \<Rightarrow>
                if pbase p = b \<and> psize p = s then Some Already
                else let adjacent = lmb_addrs_adjacent b s (pbase p) (psize p) in
                     if adjacent > 0 then Some (Merged i (reg[i := mkprop (pbase p - s) (psize p + s)]))
                     else if adjacent < 0 then Some (Merged i (reg[i := mkprop (pbase p) (psize p + s)]))
                     else lmb_merge_loop b s reg n (i + 1))
      else Some NoMerge)"
  by pat_completeness auto
termination by (relation "measure (\<lambda>(b, s, reg, n, i). n - i)") auto

declare lmb_merge_loop.simps [simp del]

text \<open>The loop that opens a gap in the sorted table, from index \<open>i - 1\<close> down to 0.\<close>

fun lmb_insert_loop :: "u32 \<Rightarrow> u32 \<Rightarrow> lmb_property list \<Rightarrow> nat \<Rightarrow> lmb_property list option" where
  "lmb_insert_loop b s reg 0 = Some reg"
| "lmb_insert_loop b s reg (Suc i) =
     (case rd reg i of
        None \<Rightarrow> None
      | Some p \<Rightarrow>
          if b < pbase p
          then (case wr reg (i + 1) p of None \<Rightarrow> None | Some reg' \<Rightarrow> lmb_insert_loop b s reg' i)
          else wr reg (i + 1) (mkprop b s))"

text \<open>Merging region \<open>i\<close> with its successor; the first component counts the merges.\<close>

definition lmb_coalesce_next :: "lmb_region \<Rightarrow> nat \<Rightarrow> int \<Rightarrow> (int \<times> lmb_region) option" where
  "lmb_coalesce_next rgn i coalesced =
     (if i < pred32 (cnt rgn)
      then (case lmb_regions_adjacent rgn i (i + 1) of
              None \<Rightarrow> None
            | Some a \<Rightarrow>
                if a \<noteq> 0 then map_option (\<lambda>r. (coalesced + 1, r)) (lmb_coalesce_regions rgn i (i + 1))
                else Some (coalesced, rgn))
      else Some (coalesced, rgn))"

text \<open>Adding to the sorted table, when nothing could be merged.\<close>

definition lmb_insert_sorted :: "lmb_region \<Rightarrow> u32 \<Rightarrow> u32 \<Rightarrow> (int \<times> lmb_region) option" where
  "lmb_insert_sorted rgn b s =
     (if cnt rgn \<ge> MAX_LMB_REGIONS then Some (-1, rgn)
      else (case lmb_insert_loop b s (region rgn) (cnt rgn) of
              None \<Rightarrow> None
            | Some reg \<Rightarrow>
                (case rd reg 0 of
                   None \<Rightarrow> None
                 | Some q \<Rightarrow>
                     Some (0, rgn\<lparr>region := (if b < pbase q then reg[0 := mkprop b s] else reg),
                                   cnt := cnt rgn + 1\<rparr>))))"

definition lmb_add_region :: "lmb_region \<Rightarrow> u32 \<Rightarrow> u32 \<Rightarrow> (int \<times> lmb_region) option" where
  "lmb_add_region rgn b s =
     (case rd (region rgn) 0 of
        None \<Rightarrow> None
      | Some p0 \<Rightarrow>
          if cnt rgn = 1 \<and> psize p0 = 0 then Some (0, rgn\<lparr>region := (region rgn)[0 := mkprop b s]\<rparr>)
          else
            (case lmb_merge_loop b s (region rgn) (cnt rgn) 0 of
               None \<Rightarrow> None
             | Some Already \<Rightarrow> Some (0, rgn)
             | Some m \<Rightarrow>
                 let (i, coalesced, rgn1) =
                       (case m of Merged i reg \<Rightarrow> (i, 1, rgn\<lparr>region := reg\<rparr>) | _ \<Rightarrow> (cnt rgn, 0 :: int, rgn))
                 in case lmb_coalesce_next rgn1 i coalesced of
                      None \<Rightarrow> None
                    | Some (c, rgn2) \<Rightarrow>
                        if c \<noteq> 0 then Some (c, rgn2)
                        else lmb_insert_sorted rgn2 b s))"

definition lmb_add :: "lmb \<Rightarrow> u32 \<Rightarrow> u32 \<Rightarrow> (int \<times> lmb) option" where
  "lmb_add l b s = map_option (\<lambda>(r, rgn). (r, l\<lparr>memory := rgn\<rparr>)) (lmb_add_region (memory l) b s)"

definition lmb_reserve :: "lmb \<Rightarrow> u32 \<Rightarrow> u32 \<Rightarrow> (int \<times> lmb) option" where
  "lmb_reserve l b s = map_option (\<lambda>(r, rgn). (r, l\<lparr>reserved := rgn\<rparr>)) (lmb_add_region (reserved l) b s)"

text \<open>
  The shape of the loops that look for a region: the index of the first of the \<open>n\<close> regions with
  \<open>P\<close>, or \<open>n\<close> when the loop runs out.
\<close>

function lmb_scan :: "(lmb_property \<Rightarrow> bool) \<Rightarrow> lmb_property list \<Rightarrow> nat \<Rightarrow> nat \<Rightarrow> nat option" where
  "lmb_scan P reg n i =
     (if i < n
      then (case rd reg i of
              None \<Rightarrow> None
            | Some p \<Rightarrow> if P p then Some i else lmb_scan P reg n (i + 1))
      else Some i)"
  by pat_completeness auto
termination by (relation "measure (\<lambda>(P, reg, n, i). n - i)") auto

declare lmb_scan.simps [simp del]

definition lmb_free :: "lmb \<Rightarrow> u32 \<Rightarrow> u32 \<Rightarrow> (int \<times> lmb) option" where
  "lmb_free l b s =
     (let rgn = reserved l; e = b + s in
      case lmb_scan (\<lambda>p. pbase p \<le> b \<and> e \<le> pbase p + psize p) (region rgn) (cnt rgn) 0 of
        None \<Rightarrow> None
      | Some i \<Rightarrow>
          if i = cnt rgn then Some (-1, l)
          else (case rd (region rgn) i of
             None \<Rightarrow> None
           | Some p \<Rightarrow>
               let rgnbegin = pbase p; rgnend = pbase p + psize p;
                   put = (\<lambda>q. rgn\<lparr>region := (region rgn)[i := q]\<rparr>)
               in if rgnbegin = b \<and> rgnend = e
                  then map_option (\<lambda>r. (0, l\<lparr>reserved := r\<rparr>)) (lmb_remove_region rgn i)
                  else if rgnbegin = b then Some (0, l\<lparr>reserved := put (mkprop e (psize p - s))\<rparr>)
                  else if rgnend = e then Some (0, l\<lparr>reserved := put (mkprop (pbase p) (psize p - s))\<rparr>)
                  else map_option (\<lambda>(r, rgn'). (r, l\<lparr>reserved := rgn'\<rparr>))
                         (lmb_add_region (put (mkprop (pbase p) (b - pbase p))) e (rgnend - e))))"

definition lmb_overlaps_region :: "lmb_region \<Rightarrow> u32 \<Rightarrow> u32 \<Rightarrow> int option" where
  "lmb_overlaps_region rgn b s =
     map_option (\<lambda>i. if i < cnt rgn then int i else -1)
       (lmb_scan (\<lambda>p. lmb_addrs_overlap b s (pbase p) (psize p)) (region rgn) (cnt rgn) 0)"

definition lmb_align_down :: "u32 \<Rightarrow> u32 \<Rightarrow> u32" where
  "lmb_align_down addr al = addr AND NOT (al - 1)"

definition lmb_align_up :: "u32 \<Rightarrow> u32 \<Rightarrow> u32" where
  "lmb_align_up addr al = (addr + (al - 1)) AND NOT (al - 1)"

subsection \<open>Allocation\<close>

lemma lmb_scan_find:
  assumes "i \<le> n" "n \<le> length reg"
  shows "lmb_scan P reg n i = Some (case find (\<lambda>j. P (reg ! j)) [i..<n] of None \<Rightarrow> n | Some j \<Rightarrow> j)"
  using assms
proof (induction "n - i" arbitrary: i)
  case 0
  then show ?case by (subst lmb_scan.simps) simp
next
  case (Suc m)
  then have "i < n" "[i..<n] = i # [i + 1..<n]" "m = n - (i + 1)" by (simp_all add: upt_conv_Cons)
  with Suc show ?case by (subst lmb_scan.simps) auto
qed

lemma lmb_scan_hit: "lmb_scan P reg n i = Some j \<Longrightarrow> j < n \<Longrightarrow> j < length reg \<and> P (reg ! j)"
  by (induction P reg n i rule: lmb_scan.induct)
    (subst (asm) (2) lmb_scan.simps, auto split: if_splits option.splits)

lemma lmb_overlaps_region_hit:
  "lmb_overlaps_region rgn b s = Some j \<Longrightarrow> 0 \<le> j \<Longrightarrow>
     nat j < cnt rgn \<and> nat j < length (region rgn) \<and>
     lmb_addrs_overlap b s (pbase (region rgn ! nat j)) (psize (region rgn ! nat j))"
  by (auto simp: lmb_overlaps_region_def dest!: lmb_scan_hit split: if_splits)

lemma align_down_le: "lmb_align_down a al \<le> a"
  by (simp add: lmb_align_down_def word_and_le2)

text \<open>
  The next candidate lies below the last one, whatever wraps: this ends the \<open>while\<close> loop of the
  allocator.
\<close>

lemma overlap_below:
  fixes b s rb rs :: u32
  assumes "lmb_addrs_overlap b s rb rs" "s \<le> rb"
  shows "rb - s < b"
proof -
  have rb: "unat rb < (unat b + unat s) mod 2 ^ 32"
    using assms(1) by (simp add: lmb_addrs_overlap_def word_less_nat_alt unat_word_ariths)
  have le: "unat s \<le> unat rb" using assms(2) by (simp add: word_le_nat_alt)
  have "unat rb < unat b + unat s"
    using rb mod_less_eq_dividend [of "unat b + unat s" "2 ^ 32"] by linarith
  then show ?thesis
    using le by (simp add: word_less_nat_alt unat_sub_if')
qed

function lmb_alloc_while ::
  "lmb_region \<Rightarrow> u32 \<Rightarrow> u32 \<Rightarrow> u32 \<Rightarrow> u32 \<Rightarrow> (u32 \<times> lmb_region) option option" where
  "lmb_alloc_while rsv lmbbase s al b =
     (if b \<noteq> 0 \<and> lmbbase \<le> b
      then (case lmb_overlaps_region rsv b s of
              None \<Rightarrow> None
            | Some j \<Rightarrow>
                if j < 0
                then (case lmb_add_region rsv b (lmb_align_up s al) of
                        None \<Rightarrow> None
                      | Some (r, rsv') \<Rightarrow> if r < 0 then Some (Some (0, rsv')) else Some (Some (b, rsv')))
                else let res_base = pbase (region rsv ! nat j) in
                     if res_base < s then Some None
                     else lmb_alloc_while rsv lmbbase s al (lmb_align_down (res_base - s) al))
      else Some None)"
  by pat_completeness auto
termination
proof (relation "measure (\<lambda>(rsv, lmbbase, s, al, b). unat b)")
  fix rsv lmbbase s al b j res_base
  assume j: "lmb_overlaps_region rsv b s = Some j" "\<not> j < 0"
    and r: "res_base = pbase (region rsv ! nat j)" "\<not> res_base < s"
  have "res_base - s < b"
    using lmb_overlaps_region_hit [OF j(1)] j(2) r by (intro overlap_below) auto
  then have "lmb_align_down (res_base - s) al < b"
    using align_down_le [of "res_base - s" al] by (rule order.strict_trans1 [rotated])
  then show "((rsv, lmbbase, s, al, lmb_align_down (res_base - s) al), rsv, lmbbase, s, al, b)
      \<in> measure (\<lambda>(rsv, lmbbase, s, al, b). unat b)"
    by (simp add: word_less_nat_alt)
qed simp

declare lmb_alloc_while.simps [simp del]

text \<open>
  The loop over the memory regions, from the last to the first; \<open>max_addr\<close> zero means anywhere.
  The result is the address (0 on failure).
\<close>

fun lmb_alloc_loop :: "lmb \<Rightarrow> u32 \<Rightarrow> u32 \<Rightarrow> u32 \<Rightarrow> nat \<Rightarrow> (u32 \<times> lmb) option" where
  "lmb_alloc_loop l s al max_addr 0 = Some (0, l)"
| "lmb_alloc_loop l s al max_addr (Suc i) =
     (case rd (region (memory l)) i of
        None \<Rightarrow> None
      | Some p \<Rightarrow>
          if psize p < s then lmb_alloc_loop l s al max_addr i
          else if max_addr \<noteq> 0 \<and> \<not> pbase p < max_addr then lmb_alloc_loop l s al max_addr i
          else let b = (if max_addr = 0 then lmb_align_down (pbase p + psize p - s) al
                        else lmb_align_down (min (pbase p + psize p) max_addr - s) al)
               in case lmb_alloc_while (reserved l) (pbase p) s al b of
                    None \<Rightarrow> None
                  | Some None \<Rightarrow> lmb_alloc_loop l s al max_addr i
                  | Some (Some (a, rsv)) \<Rightarrow> Some (a, l\<lparr>reserved := rsv\<rparr>))"

definition lmb_alloc_base :: "lmb \<Rightarrow> u32 \<Rightarrow> u32 \<Rightarrow> u32 \<Rightarrow> (u32 \<times> lmb) option" where
  "lmb_alloc_base l s al max_addr = lmb_alloc_loop l s al max_addr (cnt (memory l))"

definition lmb_alloc :: "lmb \<Rightarrow> u32 \<Rightarrow> u32 \<Rightarrow> (u32 \<times> lmb) option" where
  "lmb_alloc l s al = lmb_alloc_base l s al 0"

definition lmb_is_reserved :: "lmb \<Rightarrow> u32 \<Rightarrow> bool option" where
  "lmb_is_reserved l addr =
     map_option (\<lambda>i. i < cnt (reserved l))
       (lmb_scan (\<lambda>p. pbase p \<le> addr \<and> addr \<le> pbase p + psize p - 1)
          (region (reserved l)) (cnt (reserved l)) 0)"

end
