(* ===== verification/Lmb_Inv.thy ===== *)
theory Lmb_Inv
  imports Lmb
begin

text \<open>
  Correctness of the logical memory blocks. A table that \<open>rgn_ok\<close> holds of lists separated,
  non-empty address ranges in ascending order; \<open>rcover\<close> is the set of addresses it covers.
  Adding a region that is disjoint from the table adds exactly its addresses; freeing removes
  exactly the freed ones; the allocator returns aligned, unreserved addresses of memory.
\<close>

abbreviation pstart :: "lmb_property \<Rightarrow> nat" where
  "pstart p \<equiv> unat (pbase p)"

abbreviation pend :: "lmb_property \<Rightarrow> nat" where
  "pend p \<equiv> unat (pbase p) + unat (psize p)"

definition prange :: "lmb_property \<Rightarrow> nat set" where
  "prange p = {pstart p ..< pend p}"

definition regions :: "lmb_region \<Rightarrow> lmb_property list" where
  "regions rgn = take (cnt rgn) (region rgn)"

definition rcover :: "lmb_region \<Rightarrow> nat set" where
  "rcover rgn = \<Union> (prange ` set (regions rgn))"

definition pgood :: "lmb_property \<Rightarrow> bool" where
  "pgood p \<longleftrightarrow> psize p \<noteq> 0 \<and> pend p < 2 ^ 32"

definition props_ok :: "lmb_property list \<Rightarrow> bool" where
  "props_ok ps \<longleftrightarrow> (\<forall>p \<in> set ps. pgood p) \<and> sorted_wrt (\<lambda>p q. pend p \<le> pstart q) ps"

definition rgn_ok :: "lmb_region \<Rightarrow> bool" where
  "rgn_ok rgn \<longleftrightarrow> length (region rgn) = MAX_LMB_REGIONS + 1 \<and> 1 \<le> cnt rgn \<and> cnt rgn \<le> MAX_LMB_REGIONS \<and>
     (props_ok (regions rgn) \<or> cnt rgn = 1 \<and> region rgn ! 0 = mkprop 0 0)"

lemmas lmb_inv_defs [inv_defs] = rgn_ok_def props_ok_def pgood_def

subsection \<open>Ranges\<close>

lemma unat_add_u32: "unat a + unat b < 2 ^ 32 \<Longrightarrow> unat (a + b :: u32) = unat a + unat b"
  by (simp add: unat_word_ariths)

lemma pgood_pos: "pgood p \<Longrightarrow> pstart p < pend p"
  by (simp add: pgood_def unat_gt_0)

lemma ranges_apart:
  "pgood p \<Longrightarrow> pgood q \<Longrightarrow> prange p \<inter> prange q = {} \<longleftrightarrow> pend p \<le> pstart q \<or> pend q \<le> pstart p"
  using pgood_pos [of p] pgood_pos [of q] by (auto simp: prange_def)

text \<open>The overlap test of the source is overlap of the ranges when neither wraps.\<close>

lemma overlap_iff:
  assumes "unat b + unat s < 2 ^ 32" "pend p < 2 ^ 32"
  shows "lmb_addrs_overlap b s (pbase p) (psize p) \<longleftrightarrow> unat b < pend p \<and> pstart p < unat b + unat s"
  using assms by (simp add: lmb_addrs_overlap_def word_less_nat_alt unat_add_u32)

lemma adjacent_iff:
  assumes "unat b + unat s < 2 ^ 32" "pend p < 2 ^ 32"
  shows "lmb_addrs_adjacent b s (pbase p) (psize p) =
    (if pstart p = unat b + unat s then 1 else if unat b = pend p then - 1 else 0)"
proof -
  have "pbase p = b + s \<longleftrightarrow> pstart p = unat b + unat s" "b = pbase p + psize p \<longleftrightarrow> unat b = pend p"
    using assms by (simp_all add: word_unat_eq_iff unat_add_u32)
  then show ?thesis unfolding lmb_addrs_adjacent_def by presburger
qed

subsection \<open>The array operations as list operations\<close>

lemma pred32_pos: "0 < n \<Longrightarrow> n \<le> 2 ^ 32 \<Longrightarrow> pred32 n = n - 1"
  by (cases n) (simp_all add: pred32_def)

text \<open>Reading an array at a place that a prefix of it shows.\<close>

lemma take_split_nth:
  assumes "take n reg = xs @ p # ys"
  shows "length xs < n" "length xs < length reg" "reg ! length xs = p" "take (length xs) reg = xs"
proof -
  have len: "min (length reg) n = length xs + Suc (length ys)"
    using arg_cong [OF assms, of length] by simp
  then show "length xs < n" "length xs < length reg" by simp_all
  then show "reg ! length xs = p"
    using nth_take [of "length xs" n reg] by (simp add: assms)
  show "take (length xs) reg = xs"
    using arg_cong [OF assms, of "take (length xs)"] \<open>length xs < n\<close> by simp
qed

lemma shift_down_take:
  assumes "i \<le> n" "n < length reg"
  shows "\<exists>reg'. lmb_shift_down reg i n = Some reg' \<and> length reg' = length reg \<and>
    take n reg' = take i reg @ drop (i + 1) (take (n + 1) reg)"
  using assms
proof (induction "n - i" arbitrary: i reg)
  case 0
  then show ?case by (subst lmb_shift_down.simps) simp
next
  case (Suc m)
  let ?reg = "reg[i := reg ! (i + 1)]"
  have "i < n" using Suc.hyps(2) by simp
  then have "lmb_shift_down reg i n = lmb_shift_down ?reg (i + 1) n"
    using Suc.prems by (subst lmb_shift_down.simps) simp
  moreover have "m = n - (i + 1)" "i + 1 \<le> n" using Suc.hyps(2) by linarith+
  then obtain reg' where "lmb_shift_down ?reg (i + 1) n = Some reg'" "length reg' = length reg"
      "take n reg' = take (i + 1) ?reg @ drop (i + 2) (take (n + 1) ?reg)"
    using Suc.hyps(1) [of "i + 1" ?reg] Suc.prems by auto
  moreover have "take (i + 1) ?reg = take i reg @ [reg ! (i + 1)]"
    using Suc.prems by (simp add: take_Suc_conv_app_nth)
  moreover have "drop (i + 1) (take (n + 1) reg) = reg ! (i + 1) # drop (i + 2) (take (n + 1) reg)"
    using Suc.prems Suc.hyps(2) Cons_nth_drop_Suc [of "i + 1" "take (n + 1) reg"] by simp
  moreover have "drop (i + 2) (take (n + 1) ?reg) = drop (i + 2) (take (n + 1) reg)"
    by (simp add: take_update_swap)
  ultimately show ?case by simp
qed

lemma remove_region_list:
  assumes "regions rgn = xs @ p # ys" "cnt rgn < length (region rgn)" "cnt rgn \<le> 2 ^ 32"
  shows "\<exists>rgn'. lmb_remove_region rgn (length xs) = Some rgn' \<and> regions rgn' = xs @ ys \<and>
    length (region rgn') = length (region rgn) \<and> cnt rgn' = cnt rgn - 1"
proof -
  have c: "cnt rgn = length xs + length ys + 1"
    using arg_cong [OF assms(1), of length] assms(2) by (simp add: regions_def)
  then have p: "pred32 (cnt rgn) = cnt rgn - 1" using assms(3) by (intro pred32_pos) auto
  obtain reg' where reg': "lmb_shift_down (region rgn) (length xs) (cnt rgn - 1) = Some reg'"
      "length reg' = length (region rgn)"
      "take (cnt rgn - 1) reg' = take (length xs) (region rgn) @ drop (length xs + 1) (take (cnt rgn - 1 + 1) (region rgn))"
    using shift_down_take [of "length xs" "cnt rgn - 1" "region rgn"] c assms(2) by auto
  have "take (length xs) (region rgn) = xs"
    using assms(1) by (auto simp: regions_def dest: take_split_nth)
  moreover have "drop (length xs + 1) (take (cnt rgn - 1 + 1) (region rgn)) = ys"
    using assms(1) c by (simp add: regions_def)
  ultimately show ?thesis
    using reg' by (simp add: lmb_remove_region_def p regions_def)
qed

lemma coalesce_list:
  assumes "regions rgn = xs @ p # q # ys" "cnt rgn < length (region rgn)" "cnt rgn \<le> 2 ^ 32"
  shows "\<exists>rgn'. lmb_coalesce_regions rgn (length xs) (length xs + 1) = Some rgn' \<and>
    regions rgn' = xs @ p\<lparr>psize := psize p + psize q\<rparr> # ys \<and>
    length (region rgn') = length (region rgn) \<and> cnt rgn' = cnt rgn - 1"
proof -
  let ?p = "p\<lparr>psize := psize p + psize q\<rparr>"
  let ?rgn = "rgn\<lparr>region := (region rgn)[length xs := ?p]\<rparr>"
  have "regions rgn = (xs @ [p]) @ q # ys" using assms(1) by simp
  note split = take_split_nth [OF assms(1) [unfolded regions_def]] take_split_nth [OF this [unfolded regions_def]]
  have "regions ?rgn = (xs @ [?p]) @ q # ys"
    using assms(1) by (simp add: regions_def take_update_swap list_update_append)
  then obtain rgn' where "lmb_remove_region ?rgn (length (xs @ [?p])) = Some rgn'" "regions rgn' = (xs @ [?p]) @ ys"
      "length (region rgn') = length (region ?rgn)" "cnt rgn' = cnt ?rgn - 1"
    using remove_region_list [of ?rgn "xs @ [?p]" q ys] assms(2,3) by auto
  then show ?thesis
    using split by (simp add: lmb_coalesce_regions_def)
qed

text \<open>The merging loop: the first region that is the new one or touches it.\<close>

abbreviation touch :: "u32 \<Rightarrow> u32 \<Rightarrow> lmb_property \<Rightarrow> int" where
  "touch b s p \<equiv> lmb_addrs_adjacent b s (pbase p) (psize p)"

definition grown :: "u32 \<Rightarrow> u32 \<Rightarrow> lmb_property \<Rightarrow> lmb_property" where
  "grown b s p = (if touch b s p > 0 then mkprop (pbase p - s) (psize p + s) else mkprop (pbase p) (psize p + s))"

lemma merge_loop_list:
  assumes "take n reg = done @ ps" "n \<le> length reg"
  shows "lmb_merge_loop b s reg n (length done) = Some
    (case find (\<lambda>i. ps ! i = mkprop b s \<or> touch b s (ps ! i) \<noteq> 0) [0..<length ps] of
       None \<Rightarrow> NoMerge
     | Some i \<Rightarrow> if ps ! i = mkprop b s then Already
                 else Merged (length done + i) (reg[length done + i := grown b s (ps ! i)]))"
  using assms
proof (induction ps arbitrary: "done")
  case Nil
  then have "length done = n" by auto
  then show ?case by (subst lmb_merge_loop.simps) simp
next
  case (Cons p ps)
  note split = take_split_nth [OF Cons.prems(1)]
  have eq: "p = mkprop b s \<longleftrightarrow> pbase p = b \<and> psize p = s" by (cases p) auto
  have upt: "[0..<length (p # ps)] = 0 # map Suc [0..<length ps]"
    by (simp add: upt_conv_Cons map_Suc_upt del: upt_Suc)
  show ?case
  proof (cases "p = mkprop b s \<or> touch b s p \<noteq> 0")
    case True
    then have "find (\<lambda>i. (p # ps) ! i = mkprop b s \<or> touch b s ((p # ps) ! i) \<noteq> 0) [0..<length (p # ps)] = Some 0"
      unfolding upt by simp
    then show ?thesis
      using True split by (subst lmb_merge_loop.simps) (auto simp: eq Let_def grown_def)
  next
    case False
    have "lmb_merge_loop b s reg n (length done) = lmb_merge_loop b s reg n (length (done @ [p]))"
      using False split by (subst lmb_merge_loop.simps) (auto simp: eq Let_def)
    also have "\<dots> = Some (case find (\<lambda>i. ps ! i = mkprop b s \<or> touch b s (ps ! i) \<noteq> 0) [0..<length ps] of
       None \<Rightarrow> NoMerge
     | Some i \<Rightarrow> if ps ! i = mkprop b s then Already
                 else Merged (length (done @ [p]) + i) (reg[length (done @ [p]) + i := grown b s (ps ! i)]))"
      using Cons.prems by (intro Cons.IH) simp_all
    also have "\<dots> = Some (case find (\<lambda>i. (p # ps) ! i = mkprop b s \<or> touch b s ((p # ps) ! i) \<noteq> 0) [0..<length (p # ps)] of
       None \<Rightarrow> NoMerge
     | Some i \<Rightarrow> if (p # ps) ! i = mkprop b s then Already
                 else Merged (length done + i) (reg[length done + i := grown b s ((p # ps) ! i)]))"
      unfolding upt using False by (simp add: find_map_comp o_def option.map_comp split: option.split)
    finally show ?thesis .
  qed
qed

lemma insert_loop_list:
  assumes "take n reg = ps @ qs" "n < length reg" "n = length ps + length qs"
    and "\<forall>q \<in> set qs. b < pbase q" "ps \<noteq> [] \<longrightarrow> pbase (last ps) \<le> b"
  shows "\<exists>reg'. lmb_insert_loop b s reg n = Some reg' \<and> length reg' = length reg \<and>
    drop (n + 1) reg' = drop (n + 1) reg \<and>
    (if ps = [] then drop 1 (take (n + 1) reg') = qs \<and> reg' ! 0 = reg ! 0
     else take (n + 1) reg' = ps @ mkprop b s # qs)"
  using assms
proof (induction qs arbitrary: n reg rule: rev_induct)
  case Nil
  show ?case
  proof (cases "ps = []")
    case True
    then have "n = 0" using Nil.prems(3) by simp
    then show ?thesis using True by (cases reg) auto
  next
    case False
    then obtain m where m: "n = Suc m" using Nil.prems(3) that by (metis add.right_neutral length_0_conv list.size(3) not0_implies_Suc)
    have "take n reg = butlast ps @ last ps # []" using Nil.prems(1) False by simp
    note split = take_split_nth [OF this]
    have "length (butlast ps) = m" using Nil.prems(3) m by simp
    with split have "reg ! m = last ps" "m < length reg" by simp_all
    moreover have "\<not> b < pbase (last ps)" using False Nil.prems(5) by (simp add: not_less)
    ultimately have "lmb_insert_loop b s reg n = Some (reg[n := mkprop b s])"
      using Nil.prems(2) m by simp
    moreover have "take (n + 1) (reg[n := mkprop b s]) = ps @ [mkprop b s]"
      using Nil.prems(1,2) by (simp add: take_Suc_conv_app_nth)
    ultimately show ?thesis using False by simp
  qed
next
  case (snoc q qs)
  obtain m where m: "n = Suc m" "m = length ps + length qs" using snoc.prems(3) by simp
  have "take n reg = (ps @ qs) @ q # []" using snoc.prems(1) by simp
  note split = take_split_nth [OF this]
  let ?reg = "reg[n := q]"
  have q: "reg ! m = q" "m < length reg" using split m by simp_all
  have tm: "take m ?reg = ps @ qs" using split(4) m by simp
  obtain reg' where reg': "lmb_insert_loop b s ?reg m = Some reg'" "length reg' = length ?reg"
    "drop n reg' = drop n ?reg"
    "if ps = [] then drop 1 (take (m + 1) reg') = qs \<and> reg' ! 0 = ?reg ! 0
     else take (m + 1) reg' = ps @ mkprop b s # qs"
    using snoc.IH [OF tm _ m(2)] snoc.prems(2,4,5) m(1) by auto
  have n: "n < length reg'" using reg'(2) snoc.prems(2) by simp
  have "reg' ! n = q"
    using arg_cong [OF reg'(3), of hd] n snoc.prems(2) by (simp add: hd_drop_conv_nth)
  then have t: "take (n + 1) reg' = take (m + 1) reg' @ [q]"
    using n m(1) by (simp add: take_Suc_conv_app_nth)
  have "drop (n + 1) reg' = drop (n + 1) reg"
    using arg_cong [OF reg'(3), of "drop 1"] by simp
  moreover have "lmb_insert_loop b s reg n = Some reg'"
    using reg'(1) q m(1) snoc.prems(2,4) by simp
  moreover have "?reg ! 0 = reg ! 0" using m(1) by simp
  then have "if ps = [] then drop 1 (take (n + 1) reg') = qs @ [q] \<and> reg' ! 0 = reg ! 0
     else take (n + 1) reg' = ps @ mkprop b s # qs @ [q]"
    using reg'(4) n m(1) unfolding t by (cases "ps = []") simp_all
  ultimately show ?case using reg'(2) by (intro exI [of _ reg']) simp
qed

subsection \<open>Separated ranges stay separated\<close>

definition cover :: "lmb_property list \<Rightarrow> nat set" where
  "cover ps = \<Union> (prange ` set ps)"

lemma cover_simps [simp]:
  "cover [] = {}" "cover (p # ps) = prange p \<union> cover ps" "cover (ps @ qs) = cover ps \<union> cover qs"
  by (auto simp: cover_def)

lemma rcover_eq: "rcover rgn = cover (regions rgn)"
  by (simp add: rcover_def cover_def)

lemma props_ok_append [simp]:
  "props_ok (xs @ ys) \<longleftrightarrow> props_ok xs \<and> props_ok ys \<and> (\<forall>x \<in> set xs. \<forall>y \<in> set ys. pend x \<le> pstart y)"
  by (auto simp: props_ok_def sorted_wrt_append)

lemma props_ok_Cons [simp]:
  "props_ok (p # ps) \<longleftrightarrow> pgood p \<and> props_ok ps \<and> (\<forall>y \<in> set ps. pend p \<le> pstart y)"
  by (auto simp: props_ok_def)

lemma props_ok_Nil [simp]: "props_ok []"
  by (simp add: props_ok_def)

lemma props_ok_good: "props_ok ps \<Longrightarrow> p \<in> set ps \<Longrightarrow> pgood p"
  by (simp add: props_ok_def)

lemma apart_from_list:
  assumes "prange p \<inter> cover ps = {}" "props_ok ps" "pgood p" "q \<in> set ps"
  shows "pend p \<le> pstart q \<or> pend q \<le> pstart p"
  using assms ranges_apart [of p q] props_ok_good by (fastforce simp: cover_def)

lemma insert_separated:
  assumes "props_ok (xs @ ys)" "pgood p" "prange p \<inter> cover (xs @ ys) = {}"
    and "\<forall>x \<in> set xs. pbase x \<le> pbase p" "\<forall>y \<in> set ys. pbase p < pbase y"
  shows "props_ok (xs @ p # ys)"
proof -
  have "pend x \<le> pstart p" if "x \<in> set xs" for x
    using apart_from_list [OF assms(3,1,2), of x] that assms(4) pgood_pos [OF assms(2)]
    by (auto simp: word_le_nat_alt)
  moreover have "pend p \<le> pstart y" if "y \<in> set ys" for y
    using apart_from_list [OF assms(3,1,2), of y] that assms(5) pgood_pos [OF props_ok_good [OF assms(1), of y]]
    by (auto simp: word_less_nat_alt)
  ultimately show ?thesis using assms(1,2) by simp
qed

lemma grown_range:
  assumes "pgood p" "pgood (mkprop b s)" "touch b s p \<noteq> 0"
  shows "pgood (grown b s p)" "prange (grown b s p) = prange p \<union> prange (mkprop b s)"
    "pstart p = unat b + unat s \<and> pstart (grown b s p) = unat b \<and> pend (grown b s p) = pend p \<or>
     unat b = pend p \<and> pstart (grown b s p) = pstart p \<and> pend (grown b s p) = unat b + unat s"
proof -
  have nw: "unat b + unat s < 2 ^ 32" "pend p < 2 ^ 32" using assms(1,2) by (auto simp: pgood_def)
  note pos = pgood_pos [OF assms(1)] pgood_pos [OF assms(2)]
  note adj = adjacent_iff [OF nw]
  show range: "pstart p = unat b + unat s \<and> pstart (grown b s p) = unat b \<and> pend (grown b s p) = pend p \<or>
     unat b = pend p \<and> pstart (grown b s p) = pstart p \<and> pend (grown b s p) = unat b + unat s"
  proof (cases "pstart p = unat b + unat s")
    case True
    then have "unat (pbase p - s) = unat b" "unat (psize p + s) = unat (psize p) + unat s"
      using nw pos by (simp_all add: unat_sub_if' unat_add_u32)
    with True adj show ?thesis by (simp add: grown_def)
  next
    case False
    then have b: "unat b = pend p" "\<not> touch b s p > 0" using assms(3) adj by (auto split: if_splits)
    then have "unat (psize p + s) = unat (psize p) + unat s" using nw pos by (simp add: unat_add_u32)
    with b show ?thesis by (simp add: grown_def)
  qed
  then show "prange (grown b s p) = prange p \<union> prange (mkprop b s)"
    using pos by (auto simp: prange_def)
  have "pend (grown b s p) < 2 ^ 32" "pstart (grown b s p) < pend (grown b s p)"
    using range nw pos by auto
  then show "pgood (grown b s p)" by (auto simp: pgood_def)
qed

lemma grown_separated:
  assumes "props_ok (xs @ p # ys)" "pgood (mkprop b s)" "touch b s p \<noteq> 0"
    and "prange (mkprop b s) \<inter> cover (xs @ p # ys) = {}"
  shows "props_ok (xs @ grown b s p # ys)"
    "cover (xs @ grown b s p # ys) = cover (xs @ p # ys) \<union> prange (mkprop b s)"
proof -
  have "pgood p" using assms(1) by simp
  note g = grown_range [OF this assms(2,3)]
  note apart = apart_from_list [OF assms(4,1,2)]
  have "pend x \<le> pstart (grown b s p)" if "x \<in> set xs" for x
    using apart [of x] g(3) that assms(1) pgood_pos [OF props_ok_good [OF assms(1), of x]] by auto
  moreover have "pend (grown b s p) \<le> pstart y" if "y \<in> set ys" for y
    using apart [of y] g(3) that assms(1) pgood_pos [OF props_ok_good [OF assms(1), of y]] by auto
  ultimately show "props_ok (xs @ grown b s p # ys)" using assms(1) g(1) by simp
  show "cover (xs @ grown b s p # ys) = cover (xs @ p # ys) \<union> prange (mkprop b s)"
    using g(2) by auto
qed

lemma coalesced_separated:
  assumes "props_ok (xs @ p # q # ys)" "touch (pbase p) (psize p) q \<noteq> 0"
  defines "p' \<equiv> p\<lparr>psize := psize p + psize q\<rparr>"
  shows "props_ok (xs @ p' # ys)" "cover (xs @ p' # ys) = cover (xs @ p # q # ys)"
proof -
  have good: "pgood p" "pgood q" and le: "pend p \<le> pstart q" using assms(1) by simp_all
  note pos = pgood_pos [OF good(1)] pgood_pos [OF good(2)]
  have "pend p < 2 ^ 32" "pend q < 2 ^ 32" using good by (simp_all add: pgood_def)
  note nw = this adjacent_iff [OF this]
  have eq: "pstart q = pend p" using assms(2) nw(3) le pos by (auto split: if_splits)
  then have size: "unat (psize p') = unat (psize p) + unat (psize q)"
    unfolding p'_def using nw(2) pos by (simp add: unat_add_u32)
  have base: "pbase p' = pbase p" by (simp add: p'_def)
  have "pend p' = pend q" using size base eq by simp
  moreover have "psize p' \<noteq> 0" using size pos by auto
  ultimately show "props_ok (xs @ p' # ys)" using assms(1) nw(2) base by (auto simp: pgood_def)
  have "prange p' = prange p \<union> prange q"
    using eq pos by (auto simp: prange_def base size)
  then show "cover (xs @ p' # ys) = cover (xs @ p # q # ys)" by auto
qed

subsection \<open>Adding a region\<close>

lemma rgn_ok_bounds:
  assumes "rgn_ok rgn"
  shows "length (region rgn) = 9" "0 < cnt rgn" "cnt rgn \<le> 8" "length (regions rgn) = cnt rgn"
    "pred32 (cnt rgn) = cnt rgn - 1" "rd (region rgn) 0 = Some (region rgn ! 0)"
proof -
  show l: "length (region rgn) = 9" and c: "0 < cnt rgn" "cnt rgn \<le> 8"
    using assms by (auto simp: rgn_ok_def MAX_LMB_REGIONS_def)
  then show "length (regions rgn) = cnt rgn" "rd (region rgn) 0 = Some (region rgn ! 0)"
    by (simp_all add: regions_def)
  show "pred32 (cnt rgn) = cnt rgn - 1" using c by (intro pred32_pos) auto
qed

lemma rgn_ok_first:
  assumes "rgn_ok rgn" "props_ok (regions rgn)"
  shows "psize (region rgn ! 0) \<noteq> 0"
proof -
  note bd = rgn_ok_bounds [OF assms(1)]
  have "regions rgn ! 0 \<in> set (regions rgn)" using bd(2,4) by (intro nth_mem) simp
  moreover have "regions rgn ! 0 = region rgn ! 0" using bd(2) by (simp add: regions_def)
  ultimately show ?thesis using props_ok_good [OF assms(2)] by (auto simp: pgood_def)
qed

lemma rgn_ok_cases:
  assumes "rgn_ok rgn"
  obtains (dummy) "cnt rgn = 1" "psize (region rgn ! 0) = 0" "rcover rgn = {}" "regions rgn = [mkprop 0 0]"
  | (props) "props_ok (regions rgn)" "psize (region rgn ! 0) \<noteq> 0"
proof (cases "props_ok (regions rgn)")
  case True
  then show thesis using props rgn_ok_first [OF assms True] by simp
next
  case False
  then have d: "cnt rgn = 1" "region rgn ! 0 = mkprop 0 0" using assms by (auto simp: rgn_ok_def)
  then have "regions rgn = [mkprop 0 0]"
    using rgn_ok_bounds(1) [OF assms] by (cases "region rgn") (auto simp: regions_def)
  then show thesis using dummy d by (simp add: rcover_eq prange_def)
qed

lemma add_region_dummy:
  assumes "rgn_ok rgn" "cnt rgn = 1" "psize (region rgn ! 0) = 0" "pgood (mkprop b s)"
  shows "\<exists>rgn'. lmb_add_region rgn b s = Some (0, rgn') \<and> rgn_ok rgn' \<and> rcover rgn' = prange (mkprop b s)"
proof -
  let ?rgn = "rgn\<lparr>region := (region rgn)[0 := mkprop b s]\<rparr>"
  have r: "regions ?rgn = [mkprop b s]"
    using assms(2) rgn_ok_bounds(1) [OF assms(1)] by (cases "region rgn") (auto simp: regions_def)
  then have "rgn_ok ?rgn" using assms by (simp add: rgn_ok_def)
  then show ?thesis
    using assms(2,3) rgn_ok_bounds(6) [OF assms(1)] r by (simp add: lmb_add_region_def rcover_eq)
qed

lemma find_upt_Some:
  assumes "find P [0..<n] = Some i"
  shows "i < n" "P i" "\<forall>j < i. \<not> P j"
  using assms by (auto simp: find_Some_iff)

lemma coalesce_next_list:
  assumes "length (region rgn) = 9" "0 < cnt rgn" "cnt rgn \<le> 8" "props_ok (regions rgn)" "i < cnt rgn"
  shows "\<exists>c rgn'. lmb_coalesce_next rgn i k = Some (k + c, rgn') \<and> 0 \<le> c \<and> rgn_ok rgn' \<and> rcover rgn' = rcover rgn"
proof -
  have p: "pred32 (cnt rgn) = cnt rgn - 1" using assms(2,3) by (intro pred32_pos) auto
  have len: "length (regions rgn) = cnt rgn" using assms(1,3) by (simp add: regions_def)
  have ok: "rgn_ok rgn" using assms by (simp add: rgn_ok_def MAX_LMB_REGIONS_def)
  show ?thesis
  proof (cases "i < cnt rgn - 1")
    case True
    define xs where "xs = take i (regions rgn)"
    have xs: "length xs = i" using assms(5) len by (simp add: xs_def)
    obtain q q' ys where split: "regions rgn = xs @ q # q' # ys"
      using True len id_take_nth_drop [of i "regions rgn"] Cons_nth_drop_Suc [of "Suc i" "regions rgn"]
      unfolding xs_def by (metis assms(5) less_diff_conv Suc_eq_plus1)
    note nth = take_split_nth [OF split [unfolded regions_def]]
      take_split_nth [of "cnt rgn" "region rgn" "xs @ [q]" q' ys]
    have adj: "lmb_regions_adjacent rgn i (i + 1) = Some (touch (pbase q) (psize q) q')"
      using nth split xs by (simp add: lmb_regions_adjacent_def regions_def)
    show ?thesis
    proof (cases "touch (pbase q) (psize q) q' = 0")
      case True
      then show ?thesis using adj ok \<open>i < cnt rgn - 1\<close> by (simp add: lmb_coalesce_next_def p)
    next
      case False
      obtain rgn' where r: "lmb_coalesce_regions rgn i (i + 1) = Some rgn'"
          "regions rgn' = xs @ q\<lparr>psize := psize q + psize q'\<rparr> # ys"
          "length (region rgn') = 9" "cnt rgn' = cnt rgn - 1"
        using coalesce_list [OF split] assms(1,3) xs by auto
      have "props_ok (regions rgn')" "cover (regions rgn') = cover (regions rgn)"
        using coalesced_separated [OF assms(4) [unfolded split] False] r(2) split by simp_all
      then show ?thesis
        using r adj False \<open>i < cnt rgn - 1\<close> assms(3)
        by (simp add: lmb_coalesce_next_def p rcover_eq rgn_ok_def MAX_LMB_REGIONS_def)
    qed
  next
    case False
    then show ?thesis using ok by (simp add: lmb_coalesce_next_def p)
  qed
qed

lemma add_region_merge:
  assumes ok: "rgn_ok rgn" "props_ok (regions rgn)" and new: "pgood (mkprop b s)" "prange (mkprop b s) \<inter> rcover rgn = {}"
    and find: "find (\<lambda>i. regions rgn ! i = mkprop b s \<or> touch b s (regions rgn ! i) \<noteq> 0) [0..<cnt rgn] = Some i"
      "regions rgn ! i \<noteq> mkprop b s"
  shows "\<exists>c rgn'. lmb_add_region rgn b s = Some (c, rgn') \<and> 0 < c \<and> rgn_ok rgn' \<and>
    rcover rgn' = rcover rgn \<union> prange (mkprop b s)"
proof -
  note bd = rgn_ok_bounds [OF ok(1)]
  have i: "i < cnt rgn" "touch b s (regions rgn ! i) \<noteq> 0" using find_upt_Some [OF find(1)] find(2) by auto
  let ?p = "regions rgn ! i" and ?xs = "take i (regions rgn)" and ?ys = "drop (Suc i) (regions rgn)"
  have split: "regions rgn = ?xs @ ?p # ?ys"
    using i(1) bd(4) by (simp add: id_take_nth_drop [symmetric])
  let ?rgn1 = "rgn\<lparr>region := (region rgn)[i := grown b s ?p]\<rparr>"
  have "regions ?rgn1 = (regions rgn)[i := grown b s ?p]"
    by (simp add: regions_def take_update_swap)
  then have r1: "regions ?rgn1 = ?xs @ grown b s ?p # ?ys"
    using i(1) bd(4) by (simp add: upd_conv_take_nth_drop)
  have g: "props_ok (regions ?rgn1)" "rcover ?rgn1 = rcover rgn \<union> prange (mkprop b s)"
    unfolding rcover_eq r1 using grown_separated [of ?xs ?p ?ys b s] ok(2) new i(2) split
    by (simp_all add: rcover_eq)
  obtain c rgn' where "lmb_coalesce_next ?rgn1 i 1 = Some (1 + c, rgn')" "0 \<le> c" "rgn_ok rgn'" "rcover rgn' = rcover ?rgn1"
    using coalesce_next_list [of ?rgn1 i 1] bd(1-3) g(1) i(1) by auto
  moreover have "lmb_merge_loop b s (region rgn) (cnt rgn) 0 = Some (Merged i ((region rgn)[i := grown b s ?p]))"
    using merge_loop_list [of "cnt rgn" "region rgn" "[]" "regions rgn" b s] bd find by (simp add: regions_def)
  moreover have "\<not> (cnt rgn = 1 \<and> psize (region rgn ! 0) = 0)" using rgn_ok_first [OF ok] by simp
  ultimately show ?thesis
    using g(2) bd(6) by (simp add: lmb_add_region_def)
qed

lemma base_split:
  assumes "props_ok ps"
  obtains xs ys where "ps = xs @ ys" "\<forall>x \<in> set xs. pbase x \<le> b" "\<forall>y \<in> set ys. b < pbase y"
proof -
  let ?P = "\<lambda>p. pbase p \<le> b"
  have "b < pbase y" if y: "y \<in> set (dropWhile ?P ps)" for y
  proof -
    obtain d ds where d: "dropWhile ?P ps = d # ds" using y by (metis list.set_cases)
    then have "b < pbase d" using hd_dropWhile [of ?P ps] by (simp add: not_le)
    moreover have "props_ok (takeWhile ?P ps @ d # ds)" using assms d takeWhile_dropWhile_id [of ?P ps] by simp
    then have "y \<noteq> d \<Longrightarrow> pend d \<le> pstart y" using y d by auto
    then have "pbase d \<le> pbase y" by (cases "y = d") (auto simp: word_le_nat_alt)
    ultimately show ?thesis by (rule order.strict_trans2)
  qed
  moreover have "\<forall>x \<in> set (takeWhile ?P ps). pbase x \<le> b" by (blast dest: set_takeWhileD)
  ultimately show thesis
    by (intro that [of "takeWhile ?P ps" "dropWhile ?P ps"]) simp_all
qed

lemma add_region_insert:
  assumes ok: "rgn_ok rgn" "props_ok (regions rgn)" and new: "pgood (mkprop b s)" "prange (mkprop b s) \<inter> rcover rgn = {}"
    and nomatch: "\<forall>p \<in> set (regions rgn). p \<noteq> mkprop b s \<and> touch b s p = 0"
  shows "if cnt rgn = MAX_LMB_REGIONS then lmb_add_region rgn b s = Some (- 1, rgn)
    else \<exists>rgn'. lmb_add_region rgn b s = Some (0, rgn') \<and> rgn_ok rgn' \<and>
      rcover rgn' = rcover rgn \<union> prange (mkprop b s)"
proof -
  note bd = rgn_ok_bounds [OF ok(1)]
  have "find (\<lambda>i. regions rgn ! i = mkprop b s \<or> touch b s (regions rgn ! i) \<noteq> 0) [0..<cnt rgn] = None"
    using nomatch bd(4) by (auto simp: find_None_iff)
  then have m: "lmb_merge_loop b s (region rgn) (cnt rgn) 0 = Some NoMerge"
    using merge_loop_list [of "cnt rgn" "region rgn" "[]" "regions rgn" b s] bd by (simp add: regions_def)
  have ne: "\<not> (cnt rgn = 1 \<and> psize (region rgn ! 0) = 0)" using rgn_ok_first [OF ok] by simp
  have nx: "lmb_coalesce_next rgn (cnt rgn) 0 = Some (0, rgn)"
    using bd(5) by (auto simp: lmb_coalesce_next_def)
  obtain xs ys where xy: "regions rgn = xs @ ys" "\<forall>x \<in> set xs. pbase x \<le> b" "\<forall>y \<in> set ys. b < pbase y"
    using base_split [OF ok(2)] .
  have n: "cnt rgn = length xs + length ys" using xy(1) bd(4) by simp
  obtain reg' where reg': "lmb_insert_loop b s (region rgn) (cnt rgn) = Some reg'" "length reg' = 9"
    "if xs = [] then drop 1 (take (cnt rgn + 1) reg') = ys \<and> reg' ! 0 = region rgn ! 0
     else take (cnt rgn + 1) reg' = xs @ mkprop b s # ys"
    using insert_loop_list [of "cnt rgn" "region rgn" xs ys b s] xy n bd(1,3)
    by (auto simp: regions_def)
  let ?reg = "if b < pbase (reg' ! 0) then reg'[0 := mkprop b s] else reg'"
  let ?rgn = "rgn\<lparr>region := ?reg, cnt := cnt rgn + 1\<rparr>"
  have r: "regions ?rgn = xs @ mkprop b s # ys"
  proof (cases xs)
    case Nil
    then obtain y ys' where y: "ys = y # ys'" using n bd(2) by (cases ys) auto
    then have "reg' ! 0 = y" using reg'(3) Nil take_split_nth(3) [of "cnt rgn" "region rgn" "[]" y ys'] xy(1)
      by (simp add: regions_def)
    then have "b < pbase (reg' ! 0)" using xy(3) y by simp
    then show ?thesis using reg'(2,3) Nil by (cases reg') (auto simp: regions_def)
  next
    case (Cons x xs')
    then have "reg' ! 0 = x" using reg'(3) take_split_nth(3) [of "cnt rgn + 1" reg' "[]" x] by simp
    then have "\<not> b < pbase (reg' ! 0)" using xy(2) Cons by (simp add: not_less)
    then show ?thesis using reg'(3) Cons by (simp add: regions_def)
  qed
  have "props_ok (regions ?rgn)"
    unfolding r using insert_separated [of xs ys "mkprop b s"] ok(2) new xy by (simp add: rcover_eq)
  then have "rgn_ok ?rgn" if "cnt rgn \<noteq> MAX_LMB_REGIONS"
    using ok(1) reg'(2) that by (simp add: rgn_ok_def MAX_LMB_REGIONS_def)
  moreover have "rcover ?rgn = rcover rgn \<union> prange (mkprop b s)"
    unfolding rcover_eq r xy(1) by auto
  moreover have "lmb_add_region rgn b s = (if cnt rgn = MAX_LMB_REGIONS then Some (- 1, rgn) else Some (0, ?rgn))"
    using m ne nx reg'(1,2) bd(3,6) by (auto simp: lmb_add_region_def lmb_insert_sorted_def MAX_LMB_REGIONS_def)
  ultimately show ?thesis by simp
qed

text \<open>
  The contract of \<open>lmb_add_region\<close>: a new range adds exactly its addresses and keeps the table
  well formed, unless the table is full and nothing touches the range, when it is refused and
  nothing changes.
\<close>

lemma add_region_correct:
  assumes ok: "rgn_ok rgn" and new: "pgood (mkprop b s)" "prange (mkprop b s) \<inter> rcover rgn = {}"
  shows "\<exists>r rgn'. lmb_add_region rgn b s = Some (r, rgn') \<and> rgn_ok rgn' \<and>
    (if r < 0 then rgn' = rgn \<and> cnt rgn = MAX_LMB_REGIONS else rcover rgn' = rcover rgn \<union> prange (mkprop b s))"
  using ok
proof (cases rule: rgn_ok_cases)
  case dummy
  then show ?thesis using add_region_dummy [OF ok dummy(1,2) new(1)] by force
next
  case props
  note bd = rgn_ok_bounds [OF ok]
  have not_in: "mkprop b s \<notin> set (regions rgn)"
  proof
    assume "mkprop b s \<in> set (regions rgn)"
    then have "prange (mkprop b s) \<subseteq> rcover rgn" by (auto simp: rcover_def)
    moreover have "unat b \<in> prange (mkprop b s)" using pgood_pos [OF new(1)] by (simp add: prange_def)
    ultimately show False using new(2) by blast
  qed
  show ?thesis
  proof (cases "find (\<lambda>i. regions rgn ! i = mkprop b s \<or> touch b s (regions rgn ! i) \<noteq> 0) [0..<cnt rgn]")
    case None
    then have "\<forall>p \<in> set (regions rgn). p \<noteq> mkprop b s \<and> touch b s p = 0"
      using bd(4) by (auto simp: find_None_iff in_set_conv_nth)
    then show ?thesis
      using add_region_insert [OF ok props(1) new] ok by (auto split: if_splits)
  next
    case (Some i)
    moreover have "regions rgn ! i \<noteq> mkprop b s"
      using not_in find_upt_Some(1) [OF Some] bd(4) by (metis nth_mem)
    ultimately show ?thesis using add_region_merge [OF ok props(1) new] by force
  qed
qed

subsection \<open>Freeing a region\<close>

text \<open>A scan over a well-formed table, in terms of the list of its regions.\<close>

lemma scan_regions:
  assumes "rgn_ok rgn"
  shows "lmb_scan P (region rgn) (cnt rgn) 0 =
    Some (case find (\<lambda>i. P (regions rgn ! i)) [0..<cnt rgn] of None \<Rightarrow> cnt rgn | Some i \<Rightarrow> i)"
proof -
  have "find (\<lambda>i. P (region rgn ! i)) [0..<cnt rgn] = find (\<lambda>i. P (regions rgn ! i)) [0..<cnt rgn]"
    by (rule find_cong) (auto simp: regions_def)
  then show ?thesis
    using lmb_scan_find [of 0 "cnt rgn" "region rgn" P] rgn_ok_bounds [OF assms] by simp
qed

lemma pend_wrap:
  assumes "rgn_ok rgn" "p \<in> set (regions rgn)"
  shows "pend p < 2 ^ 32"
  using assms(1)
proof (cases rule: rgn_ok_cases)
  case dummy
  then show ?thesis using assms(2) by simp
next
  case props
  then show ?thesis using assms(2) by (simp add: props_ok_def pgood_def)
qed

lemma holds_iff:
  assumes "rgn_ok rgn" "p \<in> set (regions rgn)" "pgood (mkprop b s)"
  shows "pbase p \<le> b \<and> b + s \<le> pbase p + psize p \<longleftrightarrow> prange (mkprop b s) \<subseteq> prange p"
  using pend_wrap [OF assms(1,2)] assms(3) pgood_pos [OF assms(3)]
  by (auto simp: prange_def pgood_def word_le_nat_alt unat_add_u32)

lemma region_split:
  assumes "rgn_ok rgn" "i < cnt rgn"
  obtains xs ys where "regions rgn = xs @ regions rgn ! i # ys" "length xs = i" "region rgn ! i = regions rgn ! i"
    "\<And>q. regions (rgn\<lparr>region := (region rgn)[i := q]\<rparr>) = xs @ q # ys"
proof (rule that [of "take i (regions rgn)" "drop (Suc i) (regions rgn)"])
  note bd = rgn_ok_bounds(4) [OF assms(1)]
  show "regions rgn = take i (regions rgn) @ regions rgn ! i # drop (Suc i) (regions rgn)"
    using assms(2) bd by (simp add: id_take_nth_drop [symmetric])
  show "length (take i (regions rgn)) = i" using assms(2) bd by simp
  show "region rgn ! i = regions rgn ! i" using assms(2) by (simp add: regions_def)
  fix q
  have "regions (rgn\<lparr>region := (region rgn)[i := q]\<rparr>) = (regions rgn)[i := q]"
    by (simp add: regions_def take_update_swap)
  then show "regions (rgn\<lparr>region := (region rgn)[i := q]\<rparr>) = take i (regions rgn) @ q # drop (Suc i) (regions rgn)"
    using assms(2) bd by (simp add: upd_conv_take_nth_drop)
qed

text \<open>Cutting a range out of a list of separated ranges.\<close>

lemma others_apart: "props_ok (xs @ p # ys) \<Longrightarrow> prange p \<inter> cover (xs @ ys) = {}"
  by (fastforce simp: cover_def prange_def)

lemma cut_cover:
  assumes "props_ok (xs @ p # ys)" "R \<subseteq> prange p"
  shows "cover (xs @ p # ys) - R = cover (xs @ ys) \<union> (prange p - R)"
  using others_apart [OF assms(1)] assms(2) by auto

lemma shrunk_ok:
  assumes "props_ok (xs @ p # ys)" "pstart p \<le> pstart q" "pend q \<le> pend p" "psize q \<noteq> 0"
  shows "props_ok (xs @ q # ys)"
  using assms by (auto simp: pgood_def dest: le_trans)

lemma free_missing:
  assumes "rgn_ok (reserved l)" "pgood (mkprop b s)"
    and "\<forall>p \<in> set (regions (reserved l)). \<not> prange (mkprop b s) \<subseteq> prange p"
  shows "lmb_free l b s = Some (- 1, l)"
proof -
  have "find (\<lambda>i. pbase (regions (reserved l) ! i) \<le> b \<and> b + s \<le> pbase (regions (reserved l) ! i) + psize (regions (reserved l) ! i))
      [0..<cnt (reserved l)] = None"
    using assms holds_iff [OF assms(1) _ assms(2)] rgn_ok_bounds(4) [OF assms(1)]
    by (auto simp: find_None_iff)
  then show ?thesis
    unfolding lmb_free_def Let_def scan_regions [OF assms(1)] by simp
qed

lemma props_of_holds:
  assumes "rgn_ok rgn" "pgood (mkprop b s)" "p \<in> set (regions rgn)" "prange (mkprop b s) \<subseteq> prange p"
  shows "props_ok (regions rgn)" "pstart p \<le> unat b" "unat b + unat s \<le> pend p" "unat b < unat b + unat s"
    "unat b + unat s < 2 ^ 32" "unat (b + s) = unat b + unat s" "unat (pbase p + psize p) = pend p"
proof -
  have b: "unat b \<in> prange (mkprop b s)" "unat b + unat s - 1 \<in> prange (mkprop b s)"
    using pgood_pos [OF assms(2)] by (auto simp: prange_def)
  then have bp: "unat b \<in> prange p" "unat b + unat s - 1 \<in> prange p" using assms(4) by blast+
  show pos: "unat b < unat b + unat s" using pgood_pos [OF assms(2)] by simp
  show "props_ok (regions rgn)"
    using assms(1)
  proof (cases rule: rgn_ok_cases)
    case dummy
    then show ?thesis using bp(1) assms(3) by (auto simp: rcover_def)
  qed
  show "pstart p \<le> unat b" "unat b + unat s \<le> pend p" using bp pos by (auto simp: prange_def)
  show nw: "unat b + unat s < 2 ^ 32" using assms(2) by (simp add: pgood_def)
  show "unat (b + s) = unat b + unat s" by (rule unat_add_u32 [OF nw])
  show "unat (pbase p + psize p) = pend p" by (rule unat_add_u32 [OF pend_wrap [OF assms(1,3)]])
qed

lemma free_at:
  assumes ok: "rgn_ok (reserved l)" and new: "pgood (mkprop b s)"
    and ex: "\<exists>p \<in> set (regions (reserved l)). prange (mkprop b s) \<subseteq> prange p"
  obtains i where "i < cnt (reserved l)" "prange (mkprop b s) \<subseteq> prange (regions (reserved l) ! i)"
    "lmb_free l b s =
      (let rgn = reserved l; p = regions rgn ! i; put = (\<lambda>q. rgn\<lparr>region := (region rgn)[i := q]\<rparr>) in
       if pstart p = unat b \<and> pend p = unat b + unat s
       then map_option (\<lambda>r. (0, l\<lparr>reserved := r\<rparr>)) (lmb_remove_region rgn i)
       else if pstart p = unat b then Some (0, l\<lparr>reserved := put (mkprop (b + s) (psize p - s))\<rparr>)
       else if pend p = unat b + unat s then Some (0, l\<lparr>reserved := put (mkprop (pbase p) (psize p - s))\<rparr>)
       else map_option (\<lambda>(r, rgn'). (r, l\<lparr>reserved := rgn'\<rparr>))
              (lmb_add_region (put (mkprop (pbase p) (b - pbase p))) (b + s) (pbase p + psize p - (b + s))))"
proof -
  note bd = rgn_ok_bounds [OF ok]
  let ?P = "\<lambda>i. pbase (regions (reserved l) ! i) \<le> b \<and> b + s \<le> pbase (regions (reserved l) ! i) + psize (regions (reserved l) ! i)"
  obtain j where j: "j < cnt (reserved l)" "prange (mkprop b s) \<subseteq> prange (regions (reserved l) ! j)"
    using ex bd(4) by (metis in_set_conv_nth)
  then have "?P j" using holds_iff [OF ok nth_mem new, of j] bd(4) by simp
  with j(1) have "find ?P [0..<cnt (reserved l)] \<noteq> None" by (auto simp: find_None_iff)
  then obtain i where i: "find ?P [0..<cnt (reserved l)] = Some i" by blast
  note f = find_upt_Some [OF i]
  let ?p = "regions (reserved l) ! i"
  have mem: "?p \<in> set (regions (reserved l))" using f(1) bd(4) by simp
  have sub: "prange (mkprop b s) \<subseteq> prange ?p" using f(2) holds_iff [OF ok mem new] by simp
  note p = props_of_holds [OF ok new mem sub]
  have nth: "region (reserved l) ! i = ?p" using f(1) by (simp add: regions_def)
  have eqs: "pbase ?p = b \<longleftrightarrow> pstart ?p = unat b" "pbase ?p + psize ?p = b + s \<longleftrightarrow> pend ?p = unat b + unat s"
    using p(6,7) by (simp_all add: word_unat_eq_iff)
  show thesis
    by (rule that [of i]) (use f(1) sub bd(1,3) in \<open>simp_all add: lmb_free_def Let_def scan_regions [OF ok] i nth eqs\<close>)
qed

lemma free_correct:
  assumes ok: "rgn_ok (reserved l)" and new: "pgood (mkprop b s)"
    and ex: "\<exists>p \<in> set (regions (reserved l)). prange (mkprop b s) \<subseteq> prange p"
  shows "\<exists>r l'. lmb_free l b s = Some (r, l') \<and> memory l' = memory l \<and>
    (if r < 0
     then cnt (reserved l) = MAX_LMB_REGIONS \<and> rgn_ok (reserved l') \<and>
          (\<exists>p \<in> set (regions (reserved l)). prange (mkprop b s) \<subseteq> prange p \<and>
             rcover (reserved l') = rcover (reserved l) - {unat b..<pend p})
     else rcover (reserved l') = rcover (reserved l) - prange (mkprop b s) \<and>
          (rgn_ok (reserved l') \<or> cnt (reserved l) = 1 \<and> cnt (reserved l') = 0))"
proof -
  note bd = rgn_ok_bounds [OF ok]
  obtain i where i: "i < cnt (reserved l)" "prange (mkprop b s) \<subseteq> prange (regions (reserved l) ! i)"
    and eq: "lmb_free l b s =
      (let rgn = reserved l; p = regions rgn ! i; put = (\<lambda>q. rgn\<lparr>region := (region rgn)[i := q]\<rparr>) in
       if pstart p = unat b \<and> pend p = unat b + unat s
       then map_option (\<lambda>r. (0, l\<lparr>reserved := r\<rparr>)) (lmb_remove_region rgn i)
       else if pstart p = unat b then Some (0, l\<lparr>reserved := put (mkprop (b + s) (psize p - s))\<rparr>)
       else if pend p = unat b + unat s then Some (0, l\<lparr>reserved := put (mkprop (pbase p) (psize p - s))\<rparr>)
       else map_option (\<lambda>(r, rgn'). (r, l\<lparr>reserved := rgn'\<rparr>))
              (lmb_add_region (put (mkprop (pbase p) (b - pbase p))) (b + s) (pbase p + psize p - (b + s))))"
    by (rule free_at [OF assms])
  define p where "p = regions (reserved l) ! i"
  obtain xs ys where r: "regions (reserved l) = xs @ p # ys" "length xs = i"
    "\<And>q. regions ((reserved l)\<lparr>region := (region (reserved l))[i := q]\<rparr>) = xs @ q # ys"
    using region_split [OF ok i(1)] unfolding p_def by metis
  have "p \<in> set (regions (reserved l))" using r(1) by simp
  note pp = props_of_holds [OF ok new this i(2) [folded p_def]]
  have props: "props_ok (xs @ p # ys)" using pp(1) r(1) by simp
  note cut = cut_cover [OF props i(2) [folded p_def], folded r(1)]
  let ?R = "prange (mkprop b s)"
  let ?put = "\<lambda>q. (reserved l)\<lparr>region := (region (reserved l))[i := q]\<rparr>"
  have put: "rgn_ok (?put q) \<and> rcover (?put q) = cover (xs @ ys) \<union> prange q"
    if "pstart p \<le> pstart q" "pend q \<le> pend p" "psize q \<noteq> 0" for q
    using shrunk_ok [OF props that] ok r(3) [of q] by (auto simp: rgn_ok_def rcover_eq)
  consider (whole) "pstart p = unat b" "pend p = unat b + unat s"
    | (front) "pstart p = unat b" "pend p \<noteq> unat b + unat s"
    | (tail) "pstart p \<noteq> unat b" "pend p = unat b + unat s"
    | (middle) "pstart p \<noteq> unat b" "pend p \<noteq> unat b + unat s" by blast
  then show ?thesis
  proof cases
    case whole
    obtain rgn' where "lmb_remove_region (reserved l) i = Some rgn'" "regions rgn' = xs @ ys"
        "length (region rgn') = 9" "cnt rgn' = cnt (reserved l) - 1"
      using remove_region_list [OF r(1)] bd(1,3) r(2) by auto
    moreover have "prange p - ?R = {}" using whole by (simp add: prange_def)
    ultimately show ?thesis
      using eq whole cut props bd(2,3) by (auto simp: p_def [symmetric] rcover_eq rgn_ok_def MAX_LMB_REGIONS_def)
  next
    case front
    let ?q = "mkprop (b + s) (psize p - s)"
    have "unat (psize p - s) = unat (psize p) - unat s" using front pp(3) by (simp add: unat_sub word_le_nat_alt)
    then have q: "pstart ?q = unat b + unat s" "pend ?q = pend p" using front pp(3,6) by simp_all
    then have "prange p - ?R = prange ?q" using front by (auto simp: prange_def)
    moreover have "psize ?q \<noteq> 0" using q front pp(6) by auto
    moreover have "lmb_free l b s = Some (0, l\<lparr>reserved := ?put ?q\<rparr>)"
      using eq front by (simp add: p_def [symmetric] Let_def)
    ultimately show ?thesis
      using put [of ?q] q pp(2) cut by (intro exI [of _ 0] exI [of _ "l\<lparr>reserved := ?put ?q\<rparr>"]) (simp add: rcover_eq)
  next
    case tail
    let ?q = "mkprop (pbase p) (psize p - s)"
    have "unat (psize p - s) = unat (psize p) - unat s" using tail pp(2) by (simp add: unat_sub word_le_nat_alt)
    then have q: "pstart ?q = pstart p" "pend ?q = unat b" using tail pp(2,4) by simp_all
    then have "prange p - ?R = prange ?q" using tail by (auto simp: prange_def)
    moreover have "psize ?q \<noteq> 0" using q tail by auto
    moreover have "lmb_free l b s = Some (0, l\<lparr>reserved := ?put ?q\<rparr>)"
      using eq tail by (simp add: p_def [symmetric] Let_def)
    ultimately show ?thesis
      using put [of ?q] q pp(2,3) cut by (intro exI [of _ 0] exI [of _ "l\<lparr>reserved := ?put ?q\<rparr>"]) (simp add: rcover_eq)
  next
    case middle
    let ?q = "mkprop (pbase p) (b - pbase p)" and ?t = "mkprop (b + s) (pbase p + psize p - (b + s))"
    have q: "pstart ?q = pstart p" "pend ?q = unat b" using pp(2) by (simp_all add: unat_sub word_le_nat_alt)
    have t: "pstart ?t = unat b + unat s" "pend ?t = pend p" using pp(3,6,7) by (simp_all add: unat_sub word_le_nat_alt)
    have "psize ?q \<noteq> 0" using q middle by auto
    with q put [of ?q] pp(3) have ok': "rgn_ok (?put ?q)" "rcover (?put ?q) = cover (xs @ ys) \<union> prange ?q" by simp_all
    have "psize ?t \<noteq> 0" using t middle by auto
    with t pend_wrap [OF ok \<open>p \<in> set _\<close>] have "pgood ?t" by (simp add: pgood_def)
    moreover have "prange ?t \<subseteq> prange p" "prange ?t \<inter> prange ?q = {}"
      using q t pp(2) by (auto simp: prange_def)
    then have "prange ?t \<inter> rcover (?put ?q) = {}" using others_apart [OF props] ok'(2) by blast
    ultimately obtain c rgn' where add: "lmb_add_region (?put ?q) (b + s) (pbase p + psize p - (b + s)) = Some (c, rgn')"
        "rgn_ok rgn'" "if c < 0 then rgn' = ?put ?q \<and> cnt (?put ?q) = MAX_LMB_REGIONS
           else rcover rgn' = rcover (?put ?q) \<union> prange ?t"
      using add_region_correct [OF ok'(1)] by blast
    have run: "lmb_free l b s = Some (c, l\<lparr>reserved := rgn'\<rparr>)"
      using eq middle add(1) by (simp add: p_def [symmetric] Let_def)
    show ?thesis
    proof (cases "c < 0")
      case True
      have "{unat b..<pend p} \<subseteq> prange p" "prange p - {unat b..<pend p} = prange ?q" using pp(2,3,4) q by (auto simp: prange_def)
      then have "rcover (reserved l) - {unat b..<pend p} = rcover (?put ?q)"
        using cut_cover [OF props] ok'(2) r(1) by (simp add: rcover_eq)
      moreover have "p \<in> set (regions (reserved l))" "cnt (reserved l) = MAX_LMB_REGIONS" "rgn' = ?put ?q"
        using r(1) add(3) True by simp_all
      ultimately show ?thesis
        using run True add(2) i(2) [folded p_def]
        by (intro exI [of _ c] exI [of _ "l\<lparr>reserved := rgn'\<rparr>"]) (simp, metis)
    next
      case False
      moreover have "prange p - ?R = prange ?q \<union> prange ?t" using q t pp(2,3,4) by (auto simp: prange_def)
      ultimately have "rcover rgn' = rcover (reserved l) - ?R" using add(3) ok'(2) cut by (auto simp: rcover_eq)
      with run False add(2) show ?thesis by simp
    qed
  qed
qed

subsection \<open>Allocation\<close>

text \<open>Adding never leaves the array, whatever the range.\<close>

lemma insert_loop_total:
  "n < length reg \<Longrightarrow> \<exists>reg'. lmb_insert_loop b s reg n = Some reg' \<and> length reg' = length reg"
proof (induction n arbitrary: reg)
  case (Suc n)
  then show ?case using Suc.IH [of "reg[Suc n := reg ! n]"] by simp
qed simp

lemma coalesce_next_total:
  assumes "length (region rgn) = 9" "0 < cnt rgn" "cnt rgn \<le> 8"
  shows "\<exists>c rgn'. lmb_coalesce_next rgn i k = Some (c, rgn') \<and> (c = k \<and> rgn' = rgn \<or> c = k + 1)"
proof (cases "i < cnt rgn - 1")
  case True
  have p: "pred32 (cnt rgn) = cnt rgn - 1" using assms(2,3) by (intro pred32_pos) auto
  let ?reg = "(region rgn)[i := (region rgn ! i)\<lparr>psize := psize (region rgn ! i) + psize (region rgn ! (i + 1))\<rparr>]"
  have "i + 1 \<le> cnt rgn - 1" "cnt rgn - 1 < length ?reg" using True assms by simp_all
  then obtain reg' where "lmb_shift_down ?reg (i + 1) (cnt rgn - 1) = Some reg'"
    using shift_down_take [of "i + 1" "cnt rgn - 1" ?reg] by blast
  then show ?thesis
    using True assms p
    by (simp add: lmb_coalesce_next_def lmb_regions_adjacent_def lmb_coalesce_regions_def lmb_remove_region_def)
next
  case False
  then show ?thesis
    using assms pred32_pos [of "cnt rgn"] by (simp add: lmb_coalesce_next_def)
qed

lemma add_region_total:
  assumes "length (region rgn) = 9" "0 < cnt rgn" "cnt rgn \<le> 8"
  shows "\<exists>r rgn'. lmb_add_region rgn b s = Some (r, rgn')"
proof -
  let ?m = "lmb_merge_loop b s (region rgn) (cnt rgn) 0"
  have m: "?m = Some Already \<or> ?m = Some NoMerge \<or> (\<exists>i p. ?m = Some (Merged i ((region rgn)[i := p])))"
    using merge_loop_list [of "cnt rgn" "region rgn" "[]" "regions rgn" b s] assms
    by (auto simp: regions_def split: option.split)
  have ins: "\<exists>r rgn'. lmb_insert_sorted rgn b s = Some (r, rgn')"
    using insert_loop_total [of "cnt rgn" "region rgn" b s] assms by (auto simp: lmb_insert_sorted_def)
  have none: "\<exists>c rgn'. lmb_coalesce_next rgn (cnt rgn) 0 = Some (c, rgn') \<and> (c = 0 \<and> rgn' = rgn \<or> c = 1)"
    using coalesce_next_total [OF assms, of "cnt rgn" 0] by simp
  have merged: "\<exists>c rgn'. lmb_coalesce_next (rgn\<lparr>region := (region rgn)[i := p]\<rparr>) i 1 = Some (c, rgn') \<and> c \<noteq> 0" for i p
    using coalesce_next_total [of "rgn\<lparr>region := (region rgn)[i := p]\<rparr>" i 1] assms by force
  have rd0: "rd (region rgn) 0 = Some (region rgn ! 0)" using assms(1) by simp
  from m show ?thesis
  proof (elim disjE exE)
    assume "?m = Some NoMerge"
    then show ?thesis using none ins rd0 by (auto simp: lmb_add_region_def)
  next
    fix i p assume "?m = Some (Merged i ((region rgn)[i := p]))"
    then show ?thesis using merged [of i p] rd0 by (auto simp: lmb_add_region_def)
  qed (simp add: lmb_add_region_def rd0)
qed

lemma overlaps_region_iff:
  assumes "rgn_ok rsv" "s \<noteq> 0" "unat b + unat s < 2 ^ 32"
  shows "\<exists>j. lmb_overlaps_region rsv b s = Some j \<and>
    (if j < 0 then {unat b ..< unat b + unat s} \<inter> rcover rsv = {}
     else \<exists>p \<in> set (regions rsv). region rsv ! nat j = p \<and> pgood p \<and> unat b < pend p \<and> pstart p < unat b + unat s)"
proof -
  note bd = rgn_ok_bounds [OF assms(1)]
  let ?P = "\<lambda>p. lmb_addrs_overlap b s (pbase p) (psize p)"
  have P: "?P p \<longleftrightarrow> unat b < pend p \<and> pstart p < unat b + unat s" if "p \<in> set (regions rsv)" for p
    using overlap_iff [OF assms(3) pend_wrap [OF assms(1) that]] .
  have good: "pgood p" if "p \<in> set (regions rsv)" "unat b < pend p" for p
    using assms(1) that by (cases rule: rgn_ok_cases) (auto simp: props_ok_def)
  show ?thesis
  proof (cases "find (\<lambda>i. ?P (regions rsv ! i)) [0..<cnt rsv]")
    case None
    then have "\<forall>p \<in> set (regions rsv). \<not> ?P p" using bd(4) by (auto simp: find_None_iff in_set_conv_nth)
    then have "{unat b ..< unat b + unat s} \<inter> rcover rsv = {}"
      using P by (fastforce simp: rcover_def prange_def)
    with None show ?thesis by (simp add: lmb_overlaps_region_def scan_regions [OF assms(1)])
  next
    case (Some i)
    note f = find_upt_Some [OF Some]
    have mem: "regions rsv ! i \<in> set (regions rsv)" using f(1) bd(4) by simp
    have "region rsv ! i = regions rsv ! i" using f(1) by (simp add: regions_def)
    with Some f(1,2) mem P [OF mem] good [OF mem] show ?thesis
      by (simp add: lmb_overlaps_region_def scan_regions [OF assms(1)])
  qed
qed

definition aligned :: "u32 \<Rightarrow> u32 \<Rightarrow> bool" where
  "aligned al a \<longleftrightarrow> a AND (al - 1) = 0"

lemma align_down_aligned: "aligned al (lmb_align_down a al)"
  by (simp add: aligned_def lmb_align_down_def and.assoc)

lemma power2_mask: "k < 32 \<Longrightarrow> (2 ^ k :: u32) - 1 = mask k"
  by (simp add: mask_eq_decr_exp)

lemma align_down_unat:
  assumes "k < 32"
  shows "unat (lmb_align_down a (2 ^ k)) = (unat a div 2 ^ k) * 2 ^ k"
proof -
  have "a - take_bit k a = a AND NOT (take_bit k a)"
    by (rule disjunctive_diff) (simp add: bit_take_bit_iff)
  also have "\<dots> = lmb_align_down a (2 ^ k)"
    unfolding lmb_align_down_def power2_mask [OF assms] by (rule bit_word_eqI) (auto simp: bit_simps)
  finally have "lmb_align_down a (2 ^ k) = a - take_bit k a" by simp
  moreover have "take_bit k a \<le> a"
    by (simp add: word_le_nat_alt unat_take_bit)
  ultimately show ?thesis by (simp add: unat_sub unat_take_bit minus_mod_eq_div_mult)
qed

lemma aligned_dvd: "k < 32 \<Longrightarrow> aligned (2 ^ k) a \<longleftrightarrow> 2 ^ k dvd unat a"
  unfolding aligned_def power2_mask take_bit_eq_mask [symmetric]
  by (simp add: dvd_eq_mod_eq_0 unat_take_bit [symmetric] unat_eq_zero)

text \<open>Rounding down gives the largest aligned address not above.\<close>

lemma align_down_greatest:
  assumes "k < 32" "aligned (2 ^ k) a" "a \<le> x"
  shows "a \<le> lmb_align_down x (2 ^ k)"
proof -
  obtain c where c: "unat a = 2 ^ k * c" using assms(1,2) by (auto simp: aligned_dvd)
  have "c \<le> unat x div 2 ^ k"
    using assms(3) c by (simp add: word_le_nat_alt less_eq_div_iff_mult_less_eq mult.commute)
  then show ?thesis using c by (simp add: word_le_nat_alt align_down_unat [OF assms(1)] mult.commute)
qed

end
