(* ===== verification/Lmb_Alloc.thy ===== *)
theory Lmb_Alloc
  imports Lmb_Inv
begin

text \<open>
  Correctness of the allocator of \<open>lib/lmb.c\<close>: what it returns is aligned, lies in one memory
  region, is not reserved and is recorded as reserved; it is the highest such address of the
  region it was found in; and it returns 0 only when there is no such address or the table is full.
\<close>

definition block :: "u32 \<Rightarrow> u32 \<Rightarrow> nat set" where
  "block a s = {unat a ..< unat a + unat s}"

lemma block_eq: "block a s = prange (mkprop a s)"
  by (simp add: block_def prange_def)

lemma block_hits:
  assumes "pgood p" "s \<noteq> 0" "unat a < pend p" "pstart p < unat a + unat s"
  shows "block a s \<inter> prange p \<noteq> {}"
proof -
  have "max (unat a) (pstart p) \<in> block a s \<inter> prange p"
    using assms pgood_pos [OF assms(1)] unat_gt_0 [of s] by (auto simp: block_def prange_def)
  then show ?thesis by blast
qed

text \<open>The places where a block of \<open>s\<close> bytes can go: aligned, not null, between \<open>lb\<close> and \<open>b\<close>, not reserved.\<close>

definition free_places :: "nat \<Rightarrow> u32 \<Rightarrow> lmb_region \<Rightarrow> u32 \<Rightarrow> u32 \<Rightarrow> u32 set" where
  "free_places k s rsv lb b =
     {c. aligned (2 ^ k) c \<and> c \<noteq> 0 \<and> lb \<le> c \<and> c \<le> b \<and> block c s \<inter> rcover rsv = {}}"

lemma overlapped_taken:
  assumes "p \<in> set (regions rsv)" "pgood p" "s \<noteq> 0" "unat b < pend p" "c \<le> b" "pstart p < unat c + unat s"
  shows "block c s \<inter> rcover rsv \<noteq> {}"
proof -
  have "unat c < pend p" using assms(4,5) by (simp add: word_le_nat_alt)
  then show ?thesis using block_hits [OF assms(2,3) _ assms(6)] assms(1) by (auto simp: rcover_def)
qed

text \<open>The step below an overlapping region skips only places that overlap it.\<close>

lemma skip_reserved:
  assumes "p \<in> set (regions rsv)" "pgood p" "s \<noteq> 0" "unat b < pend p" "pstart p < unat b + unat s" "k < 32" "s \<le> pbase p"
  shows "free_places k s rsv lb b = free_places k s rsv lb (lmb_align_down (pbase p - s) (2 ^ k))"
    "lmb_align_down (pbase p - s) (2 ^ k) < b"
proof -
  let ?b = "lmb_align_down (pbase p - s) (2 ^ k)"
  have x: "unat (pbase p - s) = pstart p - unat s" "unat s \<le> pstart p"
    using assms(7) by (simp_all add: unat_sub word_le_nat_alt)
  then have "pbase p - s < b" using assms(5) by (simp add: word_less_nat_alt)
  then show lt: "?b < b" using align_down_le [of "pbase p - s" "2 ^ k"] by (rule order.strict_trans1 [rotated])
  have "c \<le> ?b" if "c \<in> free_places k s rsv lb b" for c
  proof (rule align_down_greatest [OF assms(6)])
    show "aligned (2 ^ k) c" using that by (simp add: free_places_def)
    have "\<not> pstart p < unat c + unat s"
      using that overlapped_taken [OF assms(1-4)] by (auto simp: free_places_def)
    then show "c \<le> pbase p - s" using x by (simp add: word_le_nat_alt)
  qed
  with lt show "free_places k s rsv lb b = free_places k s rsv lb ?b"
    by (auto simp: free_places_def dest: le_less_trans)
qed

text \<open>
  The \<open>while\<close> loop, started at an aligned address \<open>b\<close>: it gives up when there is no free place
  at \<open>b\<close> or below, and otherwise stops at the highest one.
\<close>

lemma alloc_while_spec:
  assumes "rgn_ok rsv" "s \<noteq> 0" "k < 32" "unat b + unat s < 2 ^ 32" "aligned (2 ^ k) b"
  shows "\<exists>res. lmb_alloc_while rsv lb s (2 ^ k) b = Some res \<and>
    (case res of
       None \<Rightarrow> free_places k s rsv lb b = {}
     | Some (a, rsv') \<Rightarrow> \<exists>a0 r. a0 \<in> free_places k s rsv lb b \<and> (\<forall>c \<in> free_places k s rsv lb b. c \<le> a0) \<and>
         lmb_add_region rsv a0 (lmb_align_up s (2 ^ k)) = Some (r, rsv') \<and> a = (if r < 0 then 0 else a0))"
  using assms(4,5)
proof (induction "unat b" arbitrary: b rule: less_induct)
  case less
  obtain j where j: "lmb_overlaps_region rsv b s = Some j"
    "if j < 0 then block b s \<inter> rcover rsv = {}
     else \<exists>p \<in> set (regions rsv). region rsv ! nat j = p \<and> pgood p \<and> unat b < pend p \<and> pstart p < unat b + unat s"
    using overlaps_region_iff [OF assms(1,2) less.prems(1)] unfolding block_def by blast
  note unfold = lmb_alloc_while.simps [of rsv lb s "2 ^ k" b]
  show ?case
  proof (cases "b \<noteq> 0 \<and> lb \<le> b")
    case False
    then have "lmb_alloc_while rsv lb s (2 ^ k) b = Some None" using unfold by auto
    moreover have "free_places k s rsv lb b = {}"
      using False by (auto simp: free_places_def)
    ultimately show ?thesis by simp
  next
    case in_range: True
    show ?thesis
    proof (cases "j < 0")
      case True
      obtain r rsv' where r: "lmb_add_region rsv b (lmb_align_up s (2 ^ k)) = Some (r, rsv')"
        using add_region_total rgn_ok_bounds [OF assms(1)] by blast
      moreover from this have "lmb_alloc_while rsv lb s (2 ^ k) b = Some (Some (if r < 0 then 0 else b, rsv'))"
        using in_range j(1) True unfold by simp
      moreover have "b \<in> free_places k s rsv lb b" "\<forall>c \<in> free_places k s rsv lb b. c \<le> b"
        using in_range j(2) True less.prems(2) by (auto simp: free_places_def)
      ultimately show ?thesis by auto
    next
      case False
      then obtain p where p: "p \<in> set (regions rsv)" "region rsv ! nat j = p" "pgood p" "unat b < pend p" "pstart p < unat b + unat s"
        using j(2) by auto
      show ?thesis
      proof (cases "pbase p < s")
        case True
        then have "lmb_alloc_while rsv lb s (2 ^ k) b = Some None"
          using in_range j(1) False p(2) unfold by simp
        moreover have "pstart p < unat c + unat s" for c using True by (simp add: word_less_nat_alt)
        then have "free_places k s rsv lb b = {}"
          using overlapped_taken [OF p(1,3) assms(2) p(4)] by (auto simp: free_places_def)
        ultimately show ?thesis by simp
      next
        case ge: False
        let ?b = "lmb_align_down (pbase p - s) (2 ^ k)"
        have step: "lmb_alloc_while rsv lb s (2 ^ k) b = lmb_alloc_while rsv lb s (2 ^ k) ?b"
          using in_range j(1) False p(2) ge unfold by simp
        have le: "s \<le> pbase p" using ge by simp
        note skip = skip_reserved(1) [OF p(1,3) assms(2) p(4,5) assms(3) le, of lb]
          skip_reserved(2) [OF p(1,3) assms(2) p(4,5) assms(3) le]
        have "unat ?b < unat b" "unat ?b + unat s < 2 ^ 32"
          using skip(2) less.prems(1) by (simp_all add: word_less_nat_alt)
        then show ?thesis
          unfolding step skip(1) by (rule less.hyps [OF _ _ align_down_aligned])
      qed
    qed
  qed
qed

text \<open>
  The start of the search in a region: the highest aligned place for \<open>s\<close> bytes below \<open>top\<close>,
  the end of the region or the address limit if that is lower.
\<close>

definition alloc_top :: "lmb_property \<Rightarrow> u32 \<Rightarrow> nat" where
  "alloc_top p max_addr = (if max_addr = 0 then pend p else min (pend p) (unat max_addr))"

lemma alloc_start:
  assumes "pgood p" "s \<le> psize p" "max_addr = 0 \<or> s \<le> max_addr" "k < 32"
  defines "b \<equiv> (if max_addr = 0 then lmb_align_down (pbase p + psize p - s) (2 ^ k)
                else lmb_align_down (min (pbase p + psize p) max_addr - s) (2 ^ k))"
  shows "unat b + unat s \<le> alloc_top p max_addr" "aligned (2 ^ k) b"
    "aligned (2 ^ k) c \<Longrightarrow> unat c + unat s \<le> alloc_top p max_addr \<Longrightarrow> c \<le> b"
proof -
  define x where "x = (if max_addr = 0 then pbase p + psize p - s else min (pbase p + psize p) max_addr - s)"
  have b: "b = lmb_align_down x (2 ^ k)" by (simp add: b_def x_def)
  have e: "unat (pbase p + psize p) = pend p" using assms(1) by (intro unat_add_u32) (simp add: pgood_def)
  have s: "unat s \<le> pend p" using assms(2) by (simp add: word_le_nat_alt)
  have "unat (min (pbase p + psize p) max_addr) = min (pend p) (unat max_addr)"
    using e by (simp add: min_def word_le_nat_alt)
  then have x: "unat x + unat s = alloc_top p max_addr"
    using assms(3) e s by (auto simp: x_def alloc_top_def unat_sub word_le_nat_alt)
  show "unat b + unat s \<le> alloc_top p max_addr"
    using align_down_le [of x "2 ^ k"] x by (simp add: b word_le_nat_alt)
  show "aligned (2 ^ k) b" unfolding b by (rule align_down_aligned)
  show "c \<le> b" if "aligned (2 ^ k) c" "unat c + unat s \<le> alloc_top p max_addr"
    unfolding b using that x by (intro align_down_greatest assms(4)) (simp_all add: word_le_nat_alt)
qed

text \<open>The places the whole allocation can use: in one memory region and below the limit.\<close>

definition places :: "nat \<Rightarrow> u32 \<Rightarrow> u32 \<Rightarrow> lmb_region \<Rightarrow> lmb_property \<Rightarrow> u32 set" where
  "places k s max_addr rsv p =
     {c. aligned (2 ^ k) c \<and> c \<noteq> 0 \<and> block c s \<subseteq> prange p \<and> unat c + unat s \<le> alloc_top p max_addr \<and>
         block c s \<inter> rcover rsv = {}}"

lemma block_in_range:
  "s \<noteq> 0 \<Longrightarrow> block c s \<subseteq> prange p \<longleftrightarrow> pstart p \<le> unat c \<and> unat c + unat s \<le> pend p"
  using unat_gt_0 [of s] by (auto simp: block_def prange_def)

lemma places_eq:
  assumes "pgood p" "s \<noteq> 0" "s \<le> psize p" "max_addr = 0 \<or> s \<le> max_addr" "k < 32"
  defines "b \<equiv> (if max_addr = 0 then lmb_align_down (pbase p + psize p - s) (2 ^ k)
                else lmb_align_down (min (pbase p + psize p) max_addr - s) (2 ^ k))"
  shows "free_places k s rsv (pbase p) b = places k s max_addr rsv p"
proof -
  note st = alloc_start [OF assms(1,3,4,5), folded b_def]
  have "alloc_top p max_addr \<le> pend p" by (simp add: alloc_top_def)
  then show ?thesis
    using st unfolding free_places_def places_def block_in_range [OF assms(2)]
    by (fastforce simp: word_le_nat_alt)
qed

lemma places_small:
  assumes "s \<noteq> 0" "psize p < s \<or> max_addr \<noteq> 0 \<and> max_addr \<le> pbase p"
  shows "places k s max_addr rsv p = {}"
  using assms(2) unat_gt_0 [of s] unfolding places_def block_in_range [OF assms(1)]
  by (auto simp: word_le_nat_alt word_less_nat_alt alloc_top_def assms(1))

text \<open>
  What a search over the first \<open>n\<close> regions leaves: nothing when there is no place in any of them,
  else the highest place of the last region that has one, reserved with \<open>z\<close> bytes.
\<close>

definition alloc_result :: "(nat \<Rightarrow> u32 set) \<Rightarrow> nat \<Rightarrow> u32 \<Rightarrow> lmb \<Rightarrow> u32 \<Rightarrow> lmb \<Rightarrow> bool" where
  "alloc_result pl n z l a l' \<longleftrightarrow> memory l' = memory l \<and>
    (a = 0 \<and> l' = l \<and> (\<forall>i < n. pl i = {}) \<or>
     (\<exists>i < n. \<exists>a0 r. a0 \<in> pl i \<and> (\<forall>c \<in> pl i. c \<le> a0) \<and> (\<forall>i' < n. i < i' \<longrightarrow> pl i' = {}) \<and>
        lmb_add_region (reserved l) a0 z = Some (r, reserved l') \<and> a = (if r < 0 then 0 else a0)))"

lemma alloc_result_skip:
  assumes "alloc_result pl n z l a l'" "pl n = {}"
  shows "alloc_result pl (Suc n) z l a l'"
proof -
  have "(\<forall>i < Suc n. P i \<longrightarrow> pl i = {}) \<longleftrightarrow> (\<forall>i < n. P i \<longrightarrow> pl i = {})" for P
    using assms(2) by (auto simp: less_Suc_eq)
  note all = this [of "\<lambda>_. True", simplified] this
  show ?thesis
    using assms(1) less_SucI [of _ n] unfolding alloc_result_def all by blast
qed

lemma alloc_loop_spec:
  assumes ok: "rgn_ok (memory l)" "rgn_ok (reserved l)"
    and s: "s \<noteq> 0" "k < 32" "max_addr = 0 \<or> s \<le> max_addr" and n: "n \<le> cnt (memory l)"
  defines "pl \<equiv> \<lambda>i. places k s max_addr (reserved l) (regions (memory l) ! i)"
  shows "\<exists>a l'. lmb_alloc_loop l s (2 ^ k) max_addr n = Some (a, l') \<and>
    alloc_result pl n (lmb_align_up s (2 ^ k)) l a l'"
  using n
proof (induction n)
  case 0
  then show ?case by (simp add: alloc_result_def)
next
  case (Suc n)
  note bd = rgn_ok_bounds [OF ok(1)]
  let ?p = "regions (memory l) ! n"
  have rd: "rd (region (memory l)) n = Some ?p" using Suc.prems bd(1,3) by (simp add: regions_def)
  have mem: "?p \<in> set (regions (memory l))" using Suc.prems bd(4) by simp
  have skip: ?case if "pl n = {}" "lmb_alloc_loop l s (2 ^ k) max_addr (Suc n) = lmb_alloc_loop l s (2 ^ k) max_addr n"
    using Suc.IH Suc.prems alloc_result_skip that by auto
  show ?case
  proof (cases "psize ?p < s \<or> max_addr \<noteq> 0 \<and> max_addr \<le> pbase ?p")
    case True
    then show ?thesis
      using places_small [OF s(1) True] rd by (intro skip) (auto simp: pl_def not_less)
  next
    case False
    then have le: "s \<le> psize ?p" and lt: "max_addr = 0 \<or> pbase ?p < max_addr" by auto
    have good: "pgood ?p"
      using ok(1) by (cases rule: rgn_ok_cases) (use mem le s(1) in \<open>auto simp: props_ok_def\<close>)
    let ?b = "if max_addr = 0 then lmb_align_down (pbase ?p + psize ?p - s) (2 ^ k)
              else lmb_align_down (min (pbase ?p + psize ?p) max_addr - s) (2 ^ k)"
    note st = alloc_start(1,2) [OF good le s(3,2)]
    have "alloc_top ?p max_addr \<le> pend ?p" by (simp add: alloc_top_def)
    then have "unat ?b + unat s < 2 ^ 32" using st(1) good unfolding pgood_def by linarith
    from alloc_while_spec [OF ok(2) s(1,2) this st(2), of "pbase ?p"] obtain res where
      res: "lmb_alloc_while (reserved l) (pbase ?p) s (2 ^ k) ?b = Some res" and
      post: "case res of None \<Rightarrow> pl n = {}
       | Some (a, rsv') \<Rightarrow> \<exists>a0 r. a0 \<in> pl n \<and> (\<forall>c \<in> pl n. c \<le> a0) \<and>
           lmb_add_region (reserved l) a0 (lmb_align_up s (2 ^ k)) = Some (r, rsv') \<and> a = (if r < 0 then 0 else a0)"
      unfolding places_eq [OF good s(1) le s(3,2)] pl_def by blast
    have unfold: "lmb_alloc_loop l s (2 ^ k) max_addr (Suc n) = (case res of
        None \<Rightarrow> lmb_alloc_loop l s (2 ^ k) max_addr n
      | Some (a, rsv) \<Rightarrow> Some (a, l\<lparr>reserved := rsv\<rparr>))"
      using rd le lt res by (auto simp: Let_def split: option.split)
    show ?thesis
    proof (cases res)
      case None
      then show ?thesis using post unfold by (intro skip) simp_all
    next
      case (Some ar)
      moreover obtain a rsv' where "ar = (a, rsv')" by (cases ar)
      ultimately have "alloc_result pl (Suc n) (lmb_align_up s (2 ^ k)) l a (l\<lparr>reserved := rsv'\<rparr>)"
        using post by (fastforce simp: alloc_result_def)
      then show ?thesis using unfold Some \<open>ar = _\<close> by simp
    qed
  qed
qed

lemma unat_2p32: "k < 32 \<Longrightarrow> unat (2 ^ k :: u32) = 2 ^ k"
proof -
  assume "k < 32"
  then have "(2 :: nat) ^ k < 2 ^ 32" by (intro power_strict_increasing) simp_all
  moreover have "(2 ^ k :: u32) = word_of_nat (2 ^ k)" by simp
  ultimately show ?thesis by (simp only: unat_of_nat) simp
qed

lemma align_up_multiple:
  assumes "k < 32" "aligned (2 ^ k) s"
  shows "lmb_align_up s (2 ^ k) = s"
proof -
  obtain c where c: "unat s = 2 ^ k * c" using assms by (auto simp: aligned_dvd)
  have m: "unat ((2 ^ k :: u32) - 1) = 2 ^ k - 1"
    using unat_2p32 [OF assms(1)] by (subst unat_sub) (simp_all add: word_le_nat_alt)
  have p: "(2 ^ 32 :: nat) = 2 ^ k * 2 ^ (32 - k)" using assms(1) by (simp flip: power_add)
  have "2 ^ k * c < 2 ^ k * 2 ^ (32 - k)" using c unat_u32_lt [of s] p by simp
  then have "c + 1 \<le> 2 ^ (32 - k)" by simp
  then have "2 ^ k * (c + 1) \<le> 2 ^ 32" unfolding p by (intro mult_le_mono) auto
  then have "unat s + unat ((2 ^ k :: u32) - 1) < 2 ^ 32" using c m by simp
  then have "unat (s + (2 ^ k - 1)) = 2 ^ k * c + (2 ^ k - 1)" using c m by (simp only: unat_add_u32)
  moreover have "(2 ^ k * c + (2 ^ k - 1)) div 2 ^ k = (c :: nat)"
  proof (rule div_nat_eqI)
    have pos: "0 < (2 :: nat) ^ k" by simp
    show "2 ^ k * c \<le> 2 ^ k * c + (2 ^ k - 1)" by linarith
    show "2 ^ k * c + (2 ^ k - 1) < 2 ^ k * Suc c" using pos unfolding mult_Suc_right by linarith
  qed
  ultimately have "unat (lmb_align_down (s + (2 ^ k - 1)) (2 ^ k)) = unat s"
    unfolding align_down_unat [OF assms(1)] c by simp
  then show ?thesis
    by (simp add: lmb_align_up_def lmb_align_down_def word_unat_eq_iff)
qed

text \<open>The contract of \<open>lmb_alloc_base\<close> for sizes that are a multiple of the alignment.\<close>

lemma alloc_base_correct:
  assumes ok: "rgn_ok (memory l)" "rgn_ok (reserved l)"
    and s: "s \<noteq> 0" "k < 32" "aligned (2 ^ k) s" "max_addr = 0 \<or> s \<le> max_addr"
  shows "\<exists>a l'. lmb_alloc_base l s (2 ^ k) max_addr = Some (a, l') \<and> memory l' = memory l \<and> rgn_ok (reserved l') \<and>
    (if a = 0 then l' = l \<and> (cnt (reserved l) = MAX_LMB_REGIONS \<or>
        (\<forall>p \<in> set (regions (memory l)). places k s max_addr (reserved l) p = {}))
     else (\<exists>p \<in> set (regions (memory l)). a \<in> places k s max_addr (reserved l) p) \<and>
        rcover (reserved l') = rcover (reserved l) \<union> block a s)"
proof -
  let ?pl = "\<lambda>i. places k s max_addr (reserved l) (regions (memory l) ! i)"
  note bd = rgn_ok_bounds [OF ok(1)]
  obtain a l' where al: "lmb_alloc_base l s (2 ^ k) max_addr = Some (a, l')"
    and res: "alloc_result ?pl (cnt (memory l)) s l a l'"
    using alloc_loop_spec [OF ok s(1,2,4), of "cnt (memory l)"] align_up_multiple [OF s(2,3)]
    by (auto simp: lmb_alloc_base_def)
  show ?thesis
  proof (cases "a = 0 \<and> l' = l \<and> (\<forall>i < cnt (memory l). ?pl i = {})")
    case True
    then have "\<forall>p \<in> set (regions (memory l)). places k s max_addr (reserved l) p = {}"
      using bd(4) by (metis in_set_conv_nth)
    with True al ok show ?thesis by auto
  next
    case False
    then obtain i a0 r where i: "i < cnt (memory l)" "a0 \<in> ?pl i"
        "lmb_add_region (reserved l) a0 s = Some (r, reserved l')" "a = (if r < 0 then 0 else a0)" "memory l' = memory l"
      using res unfolding alloc_result_def by blast
    have mem: "regions (memory l) ! i \<in> set (regions (memory l))" using i(1) bd(4) by simp
    have a0: "a0 \<noteq> 0" "block a0 s \<subseteq> prange (regions (memory l) ! i)" "prange (mkprop a0 s) \<inter> rcover (reserved l) = {}"
      using i(2) by (auto simp: places_def block_eq)
    have "pgood (mkprop a0 s)"
      using a0(2) s(1) pend_wrap [OF ok(1) mem] by (simp add: pgood_def block_in_range)
    from add_region_correct [OF ok(2) this a0(3)] i(3)
    have "rgn_ok (reserved l')" and "if r < 0 then reserved l' = reserved l \<and> cnt (reserved l) = MAX_LMB_REGIONS
        else rcover (reserved l') = rcover (reserved l) \<union> prange (mkprop a0 s)"
      by auto
    with al i mem a0(1) show ?thesis by (cases "r < 0") (auto simp: block_eq)
  qed
qed

text \<open>\<open>lmb_is_reserved\<close> is membership in the covered addresses.\<close>

lemma is_reserved_correct:
  assumes "rgn_ok (reserved l)" "props_ok (regions (reserved l))"
  shows "lmb_is_reserved l addr = Some (unat addr \<in> rcover (reserved l))"
proof -
  let ?P = "\<lambda>p. pbase p \<le> addr \<and> addr \<le> pbase p + psize p - 1"
  have P: "?P p \<longleftrightarrow> unat addr \<in> prange p" if "p \<in> set (regions (reserved l))" for p
  proof -
    have g: "pgood p" using props_ok_good [OF assms(2) that] .
    then have e: "unat (pbase p + psize p) = pend p" by (intro unat_add_u32) (simp add: pgood_def)
    then have "unat (pbase p + psize p - 1) = pend p - 1"
      using pgood_pos [OF g] by (subst unat_sub) (auto simp: word_le_nat_alt)
    then show ?thesis using pgood_pos [OF g] by (auto simp: prange_def word_le_nat_alt)
  qed
  have "(case find (\<lambda>i. ?P (regions (reserved l) ! i)) [0..<cnt (reserved l)] of
      None \<Rightarrow> cnt (reserved l) | Some i \<Rightarrow> i) < cnt (reserved l) \<longleftrightarrow> (\<exists>p \<in> set (regions (reserved l)). ?P p)"
  proof (cases "find (\<lambda>i. ?P (regions (reserved l) ! i)) [0..<cnt (reserved l)]")
    case None
    then have "\<forall>p \<in> set (regions (reserved l)). \<not> ?P p"
      using rgn_ok_bounds(4) [OF assms(1)] unfolding find_None_iff by (auto simp: in_set_conv_nth)
    with None show ?thesis by simp
  next
    case (Some i)
    then show ?thesis
      using find_upt_Some [OF Some] rgn_ok_bounds(4) [OF assms(1)] nth_mem [of i "regions (reserved l)"] by auto
  qed
  then show ?thesis
    using P by (auto simp: lmb_is_reserved_def scan_regions [OF assms(1)] rcover_def)
qed

subsection \<open>The contract of a table of ranges\<close>

text \<open>
  \<open>lmb_add\<close> and \<open>lmb_reserve\<close> are two instances of one contract: adding a range that is disjoint from
  what the table covers adds exactly its addresses, or the table is full and nothing changes.
\<close>

fun add_all :: "('t \<Rightarrow> u32 \<Rightarrow> u32 \<Rightarrow> (int \<times> 't) option) \<Rightarrow> 't \<Rightarrow> lmb_property list \<Rightarrow> (bool \<times> 't) option" where
  "add_all add t [] = Some (True, t)"
| "add_all add t (p # ps) =
     (case add t (pbase p) (psize p) of
        None \<Rightarrow> None
      | Some (r, t') \<Rightarrow> if r < 0 then Some (False, t') else add_all add t' ps)"

locale range_table =
  fixes add :: "'t \<Rightarrow> u32 \<Rightarrow> u32 \<Rightarrow> (int \<times> 't) option"
    and cover :: "'t \<Rightarrow> nat set" and ok :: "'t \<Rightarrow> bool" and full :: "'t \<Rightarrow> bool"
  assumes add_law: "ok t \<Longrightarrow> pgood (mkprop b s) \<Longrightarrow> prange (mkprop b s) \<inter> cover t = {} \<Longrightarrow>
      \<exists>r t'. add t b s = Some (r, t') \<and> ok t' \<and>
        (if r < 0 then t' = t \<and> full t else cover t' = cover t \<union> prange (mkprop b s))"
begin

lemma add_all_cover:
  assumes "ok t" "\<forall>p \<in> set ps. pgood p \<and> prange p \<inter> cover t = {}"
    and "sorted_wrt (\<lambda>p q. prange p \<inter> prange q = {}) ps"
  shows "\<exists>b t'. add_all add t ps = Some (b, t') \<and> ok t' \<and>
    (if b then cover t' = cover t \<union> (\<Union>p \<in> set ps. prange p) else full t')"
  using assms
proof (induction ps arbitrary: t)
  case (Cons p ps)
  have p: "mkprop (pbase p) (psize p) = p" by simp
  obtain r t' where t': "add t (pbase p) (psize p) = Some (r, t')" "ok t'"
    "if r < 0 then t' = t \<and> full t else cover t' = cover t \<union> prange p"
    using add_law [of t "pbase p" "psize p"] Cons.prems(1,2) unfolding p by (metis list.set_intros(1))
  show ?case
  proof (cases "r < 0")
    case True
    then show ?thesis using t' by auto
  next
    case False
    then have c: "cover t' = cover t \<union> prange p" using t'(3) by simp
    have "\<forall>q \<in> set ps. pgood q \<and> prange q \<inter> cover t' = {}"
      using Cons.prems(2,3) unfolding c by fastforce
    moreover have "sorted_wrt (\<lambda>p q. prange p \<inter> prange q = {}) ps" using Cons.prems(3) by simp
    ultimately obtain b t'' where "add_all add t' ps = Some (b, t'')" "ok t''"
      "if b then cover t'' = cover t' \<union> (\<Union>p \<in> set ps. prange p) else full t''"
      using Cons.IH [OF t'(2)] by blast
    then show ?thesis
      using t'(1) False c by (intro exI [of _ b] exI [of _ t'']) (simp add: Un_assoc)
  qed
qed auto

end

interpretation lmem: range_table lmb_add "\<lambda>l. rcover (memory l)" "\<lambda>l. rgn_ok (memory l)" "\<lambda>l. cnt (memory l) = MAX_LMB_REGIONS"
proof
  fix t :: lmb and b s
  assume a: "rgn_ok (memory t)" "pgood (mkprop b s)" "prange (mkprop b s) \<inter> rcover (memory t) = {}"
  from add_region_correct [OF a] obtain r rgn where "lmb_add_region (memory t) b s = Some (r, rgn)" "rgn_ok rgn"
    "if r < 0 then rgn = memory t \<and> cnt (memory t) = MAX_LMB_REGIONS else rcover rgn = rcover (memory t) \<union> prange (mkprop b s)"
    by blast
  then show "\<exists>r t'. lmb_add t b s = Some (r, t') \<and> rgn_ok (memory t') \<and>
      (if r < 0 then t' = t \<and> cnt (memory t) = MAX_LMB_REGIONS
       else rcover (memory t') = rcover (memory t) \<union> prange (mkprop b s))"
    by (auto simp: lmb_add_def split: if_splits)
qed

interpretation lrsv: range_table lmb_reserve "\<lambda>l. rcover (reserved l)" "\<lambda>l. rgn_ok (reserved l)" "\<lambda>l. cnt (reserved l) = MAX_LMB_REGIONS"
proof
  fix t :: lmb and b s
  assume a: "rgn_ok (reserved t)" "pgood (mkprop b s)" "prange (mkprop b s) \<inter> rcover (reserved t) = {}"
  from add_region_correct [OF a] obtain r rgn where "lmb_add_region (reserved t) b s = Some (r, rgn)" "rgn_ok rgn"
    "if r < 0 then rgn = reserved t \<and> cnt (reserved t) = MAX_LMB_REGIONS else rcover rgn = rcover (reserved t) \<union> prange (mkprop b s)"
    by blast
  then show "\<exists>r t'. lmb_reserve t b s = Some (r, t') \<and> rgn_ok (reserved t') \<and>
      (if r < 0 then t' = t \<and> cnt (reserved t) = MAX_LMB_REGIONS
       else rcover (reserved t') = rcover (reserved t) \<union> prange (mkprop b s))"
    by (auto simp: lmb_reserve_def split: if_splits)
qed

subsection \<open>Properties\<close>

definition lmb_blank :: lmb where
  "lmb_blank = (let r = \<lparr>cnt = 0, rgn_size = 0, region = replicate 9 (mkprop 0 0)\<rparr> in \<lparr>memory = r, reserved = r\<rparr>)"

definition demo_lmb :: lmb where
  "demo_lmb = (lmb_init lmb_blank)\<lparr>memory := \<lparr>cnt = 1, rgn_size = 0, region = mkprop 0x80000000 0x10000000 # replicate 8 (mkprop 0 0)\<rparr>\<rparr>"

lemma replicate_9: "replicate 9 x = [x, x, x, x, x, x, x, x, x]" "replicate 8 x = [x, x, x, x, x, x, x, x]"
  by (simp_all add: numeral_eq_Suc)

lemma demo_lmb_regions:
  "regions (memory demo_lmb) = [mkprop 0x80000000 0x10000000]" "regions (reserved demo_lmb) = [mkprop 0 0]"
  by (simp_all add: demo_lmb_def lmb_init_def lmb_blank_def regions_def replicate_9 Let_def)

lemma demo_lmb_ok:
  "rgn_ok (memory demo_lmb)" "rgn_ok (reserved demo_lmb)" "rcover (reserved demo_lmb) = {}"
proof -
  show "rgn_ok (memory demo_lmb)"
    unfolding rgn_ok_def demo_lmb_regions
    by (simp add: demo_lmb_def MAX_LMB_REGIONS_def props_ok_def pgood_def)
  show "rgn_ok (reserved demo_lmb)"
    by (simp add: rgn_ok_def demo_lmb_def lmb_init_def lmb_blank_def MAX_LMB_REGIONS_def replicate_9 Let_def)
  show "rcover (reserved demo_lmb) = {}"
    by (simp add: rcover_def demo_lmb_regions prange_def)
qed

lemmas lmb_run_simps = lmb_reserve_def lmb_add_def lmb_free_def lmb_add_region_def lmb_init_def lmb_blank_def
  lmb_remove_region_def lmb_coalesce_next_def lmb_insert_sorted_def lmb_regions_adjacent_def lmb_addrs_adjacent_def
  lmb_overlaps_region_def lmb_addrs_overlap_def lmb_align_down_def lmb_align_up_def lmb_alloc_base_def
  lmb_scan.simps lmb_shift_down.simps lmb_merge_loop.simps lmb_alloc_while.simps
  MAX_LMB_REGIONS_def pred32_def replicate_9 regions_def Let_def

text \<open>
  C20: For a size that is a multiple of the alignment \<open>2 ^ k\<close> and no limit, or a limit that is not below the size,
  the allocator is correct and complete. The address it returns is aligned, lies with the whole block in one memory
  region below the limit and touches nothing reserved, and exactly the block is reserved afterwards. It returns 0
  and changes nothing only when the table of reservations is full or there is no such address at all. (What happens
  for other sizes and limits is in \<open>alloc_overlaps_reserved\<close> and \<open>alloc_outside_memory\<close>.)
\<close>

theorem lmb_alloc_correct:
  assumes "rgn_ok (memory l)" "rgn_ok (reserved l)"
    and "s \<noteq> 0" "k < 32" "aligned (2 ^ k) s" "max_addr = 0 \<or> s \<le> max_addr"
  shows "\<exists>a l'. lmb_alloc_base l s (2 ^ k) max_addr = Some (a, l') \<and> memory l' = memory l \<and> rgn_ok (reserved l') \<and>
    (if a = 0 then l' = l \<and> (cnt (reserved l) = MAX_LMB_REGIONS \<or>
        (\<forall>p \<in> set (regions (memory l)). places k s max_addr (reserved l) p = {}))
     else (\<exists>p \<in> set (regions (memory l)). a \<in> places k s max_addr (reserved l) p) \<and>
        rcover (reserved l') = rcover (reserved l) \<union> block a s)"
  using assms by (rule alloc_base_correct)

theorem lmb_alloc_correct_witness:
  "\<exists>l'. lmb_alloc_base demo_lmb 0x1000 (2 ^ 12) 0 = Some (0x8FFFF000, l') \<and> rgn_ok (reserved l') \<and>
     rcover (reserved l') = block 0x8FFFF000 0x1000"
proof -
  have "\<exists>l'. lmb_alloc_base demo_lmb 0x1000 (2 ^ 12) 0 = Some (0x8FFFF000, l')"
    by (simp add: lmb_run_simps demo_lmb_def)
  then show ?thesis
    using lmb_alloc_correct [OF demo_lmb_ok(1,2), of "0x1000" 12 0] by (auto simp: aligned_def demo_lmb_ok(3))
qed

text \<open>
  C35: Reserving ranges that are disjoint from each other and from what is reserved already covers exactly
  the union of their addresses, however they are merged in the table, unless the table runs full; the
  table stays sorted and disjoint.
\<close>

theorem lmb_reserve_all:
  assumes "rgn_ok (reserved l)" "\<forall>p \<in> set ps. pgood p \<and> prange p \<inter> rcover (reserved l) = {}"
    and "sorted_wrt (\<lambda>p q. prange p \<inter> prange q = {}) ps"
  shows "\<exists>b l'. add_all lmb_reserve l ps = Some (b, l') \<and> rgn_ok (reserved l') \<and>
    (if b then rcover (reserved l') = rcover (reserved l) \<union> (\<Union>p \<in> set ps. prange p)
     else cnt (reserved l') = MAX_LMB_REGIONS)"
  using assms by (rule lrsv.add_all_cover)

theorem lmb_reserve_all_witness:
  "\<exists>b l'. add_all lmb_reserve demo_lmb [mkprop 0x1000 0x1000, mkprop 0x2000 0x1000] = Some (b, l') \<and> rgn_ok (reserved l')"
  using lmb_reserve_all [OF demo_lmb_ok(2), of "[mkprop 0x1000 0x1000, mkprop 0x2000 0x1000]"]
  by (auto simp: demo_lmb_ok pgood_def prange_def)

text \<open>
  Adding memory that is disjoint from the memory already known adds exactly its addresses to the
  memory table and leaves the reservations alone, or reports -1 on a full table and changes nothing.
\<close>

theorem lmb_add_correct:
  assumes "rgn_ok (memory l)" "pgood (mkprop b s)" "prange (mkprop b s) \<inter> rcover (memory l) = {}"
  shows "\<exists>r l'. lmb_add l b s = Some (r, l') \<and> rgn_ok (memory l') \<and> reserved l' = reserved l \<and>
    (if r < 0 then l' = l \<and> cnt (memory l) = MAX_LMB_REGIONS
     else rcover (memory l') = rcover (memory l) \<union> prange (mkprop b s))"
proof -
  obtain r l' where "lmb_add l b s = Some (r, l')" "rgn_ok (memory l')"
    "if r < 0 then l' = l \<and> cnt (memory l) = MAX_LMB_REGIONS
     else rcover (memory l') = rcover (memory l) \<union> prange (mkprop b s)"
    using lmem.add_law [OF assms] by blast
  moreover from this(1) have "reserved l' = reserved l" by (auto simp: lmb_add_def)
  ultimately show ?thesis by blast
qed

theorem lmb_add_correct_witness:
  "\<exists>r l'. lmb_add demo_lmb 0x1000 0x1000 = Some (r, l') \<and> rgn_ok (memory l') \<and> reserved l' = reserved demo_lmb"
  using lmb_add_correct [OF demo_lmb_ok(1), of "0x1000" "0x1000"]
  by (auto simp: pgood_def prange_def rcover_def demo_lmb_regions)

text \<open>
  C36: Freeing a range that one reservation covers removes exactly its addresses from what is reserved and
  leaves memory alone; the table stays well-formed unless its last region went away. It fails only when the table
  is full, and then what the reservation held behind the start of the range, beyond the range too, is no longer
  reserved although -1 is returned. Freeing a range that no reservation covers reports -1 and changes nothing.
\<close>

theorem lmb_free_correct:
  assumes "rgn_ok (reserved l)" "pgood (mkprop b s)"
  shows "if \<exists>p \<in> set (regions (reserved l)). prange (mkprop b s) \<subseteq> prange p
    then \<exists>r l'. lmb_free l b s = Some (r, l') \<and> memory l' = memory l \<and>
      (if r < 0
       then cnt (reserved l) = MAX_LMB_REGIONS \<and> rgn_ok (reserved l') \<and>
            (\<exists>p \<in> set (regions (reserved l)). prange (mkprop b s) \<subseteq> prange p \<and>
               rcover (reserved l') = rcover (reserved l) - {unat b..<pend p})
       else rcover (reserved l') = rcover (reserved l) - prange (mkprop b s) \<and>
            (rgn_ok (reserved l') \<or> cnt (reserved l) = 1 \<and> cnt (reserved l') = 0))
    else lmb_free l b s = Some (- 1, l)"
  using free_correct [OF assms] free_missing [OF assms] by simp

definition demo_taken :: lmb where
  "demo_taken = demo_lmb\<lparr>reserved := \<lparr>cnt = 1, rgn_size = 0, region = mkprop 0x1000 0x3000 # replicate 8 (mkprop 0 0)\<rparr>\<rparr>"

lemma demo_taken_regions: "regions (reserved demo_taken) = [mkprop 0x1000 0x3000]" "rgn_ok (reserved demo_taken)"
  by (simp_all add: demo_taken_def regions_def rgn_ok_def props_ok_def pgood_def MAX_LMB_REGIONS_def replicate_9)

theorem lmb_free_correct_witness:
  "\<exists>r l'. lmb_free demo_taken 0x2000 0x1000 = Some (r, l') \<and> 0 \<le> r \<and> rcover (reserved l') = {0x1000..<0x2000} \<union> {0x3000..<0x4000}"
proof -
  have "\<exists>p \<in> set (regions (reserved demo_taken)). prange (mkprop 0x2000 0x1000) \<subseteq> prange p"
    by (auto simp: demo_taken_regions prange_def)
  moreover have "cnt (reserved demo_taken) \<noteq> MAX_LMB_REGIONS" by (simp add: demo_taken_def MAX_LMB_REGIONS_def)
  moreover have "rcover (reserved demo_taken) - prange (mkprop 0x2000 0x1000) = {0x1000..<0x2000} \<union> {0x3000..<0x4000}"
    by (auto simp: rcover_def demo_taken_regions prange_def)
  ultimately show ?thesis
    using lmb_free_correct [OF demo_taken_regions(2), of "0x2000" "0x1000"] by (auto simp: pgood_def not_less split: if_splits)
qed

text \<open>
  \<open>lmb_is_reserved\<close> answers whether an address is among the reserved ones.
\<close>

theorem lmb_is_reserved_correct:
  assumes "rgn_ok (reserved l)" "props_ok (regions (reserved l))"
  shows "lmb_is_reserved l addr = Some (unat addr \<in> rcover (reserved l))"
  using assms by (rule is_reserved_correct)

theorem lmb_is_reserved_correct_witness:
  "lmb_is_reserved (demo_lmb\<lparr>reserved := memory demo_lmb\<rparr>) 0x80000001 = Some True"
proof -
  have "props_ok (regions (memory demo_lmb))" by (simp add: demo_lmb_regions props_ok_def pgood_def)
  then show ?thesis
    using lmb_is_reserved_correct [of "demo_lmb\<lparr>reserved := memory demo_lmb\<rparr>" "0x80000001"] demo_lmb_ok(1)
    by (simp add: rcover_def demo_lmb_regions prange_def)
qed

subsection \<open>Where the tables go wrong\<close>

text \<open>
  After the only reservation is freed the table is empty but its first entry is stale: the next
  reservation is dropped and the freed one comes back.
\<close>

theorem reserve_after_free_lost:
  "\<exists>l1 l2 l3. lmb_reserve (lmb_init lmb_blank) 0x1000 0x1000 = Some (0, l1) \<and> lmb_free l1 0x1000 0x1000 = Some (0, l2) \<and>
     lmb_reserve l2 0x5000 0x1000 = Some (0, l3) \<and> regions (reserved l3) = [mkprop 0x1000 0x1000]"
  by (simp add: lmb_run_simps)

text \<open>With a limit below the size, the subtraction wraps and the address is outside all memory.\<close>

theorem alloc_outside_memory:
  "\<exists>l1 l2. lmb_add (lmb_init lmb_blank) 0x1000 0x100000 = Some (0, l1) \<and>
     lmb_alloc_base l1 0x8000 0x1000 0x2000 = Some (0xFFFFA000, l2)"
  by (simp add: lmb_run_simps)

text \<open>
  A size that is not a multiple of the alignment is rounded up for the reservation only: the block that is
  recorded can overlap a reservation above it.
\<close>

theorem alloc_overlaps_reserved:
  "\<exists>l1 l2 l3. lmb_add (lmb_init lmb_blank) 0x10000 0x10000 = Some (0, l1) \<and> lmb_reserve l1 0x18100 0x7F00 = Some (0, l2) \<and>
     lmb_alloc_base l2 0x100 0x1000 0 = Some (0x18000, l3) \<and>
     regions (reserved l3) = [mkprop 0x18000 0x1000, mkprop 0x18100 0x7F00]"
  by (simp add: lmb_run_simps)

end
