(* ===== verification/Digest.thy ===== *)
theory Digest
  imports Prelude
begin

text \<open>
  What the message digests \<open>lib/sha1.c\<close>, \<open>lib/sha256.c\<close> and \<open>lib/md5.c\<close> share: a message is
  consumed in blocks of 64 bytes by a \<open>process\<close> function, and what does not fill a block waits in
  a buffer. The locale \<open>md_stream\<close> is the contract of an update function; its lemmas say that it
  does not matter how a message is cut into updates, and what the padding at the end computes.
\<close>

subsection \<open>Blocks\<close>

definition splice :: "bytes \<Rightarrow> nat \<Rightarrow> bytes \<Rightarrow> bytes" where
  "splice buf off xs = take off buf @ xs @ drop (off + length xs) buf"

function md_blocks :: "('st \<Rightarrow> bytes \<Rightarrow> 'st) \<Rightarrow> 'st \<Rightarrow> bytes \<Rightarrow> 'st \<times> bytes" where
  "md_blocks process st input =
     (if length input \<ge> 64 then md_blocks process (process st (take 64 input)) (drop 64 input)
      else (st, input))"
  by pat_completeness auto
termination by (relation "measure (\<lambda>(process, st, input). length input)") auto

declare md_blocks.simps [simp del]

text \<open>The body of \<open>sha1_update\<close> and \<open>sha256_update\<close> after the counters.\<close>

definition md_feed :: "('st \<Rightarrow> bytes \<Rightarrow> 'st) \<Rightarrow> 'st \<Rightarrow> bytes \<Rightarrow> nat \<Rightarrow> bytes \<Rightarrow> 'st \<times> bytes" where
  "md_feed process st buffer left input =
     (let fill = 64 - left;
          (st1, buffer1, input1, left1) =
            (if left \<noteq> 0 \<and> length input \<ge> fill
             then let buffer' = splice buffer left (take fill input)
                  in (process st buffer', buffer', drop fill input, 0)
             else (st, buffer, input, left));
          (st2, input2) = md_blocks process st1 input1
      in (st2, if length input2 > 0 then splice buffer1 left1 input2 else buffer1))"

text \<open>
  Updating in chunks, as the variants with a watchdog do; a chunk size of zero never ends.
\<close>

partial_function (option) md_chunks :: "('c \<Rightarrow> bytes \<Rightarrow> 'c) \<Rightarrow> 'c \<Rightarrow> bytes \<Rightarrow> nat \<Rightarrow> 'c option" where
  "md_chunks upd ctx cur chunk_sz =
     (if cur = [] then Some ctx
      else let chunk = min (length cur) chunk_sz
           in md_chunks upd (upd ctx (take chunk cur)) (drop chunk cur) chunk_sz)"

text \<open>Big-endian words: \<open>GET_UINT32_BE\<close> and \<open>PUT_UINT32_BE\<close>.\<close>

definition GET_UINT32_BE :: "bytes \<Rightarrow> nat \<Rightarrow> u32" where
  "GET_UINT32_BE b i =
     push_bit 24 (ucast (b ! i)) OR push_bit 16 (ucast (b ! (i + 1))) OR push_bit 8 (ucast (b ! (i + 2)))
       OR ucast (b ! (i + 3))"

definition PUT_UINT32_BE :: "u32 \<Rightarrow> bytes" where
  "PUT_UINT32_BE n = [ucast (drop_bit 24 n), ucast (drop_bit 16 n), ucast (drop_bit 8 n), ucast n]"

subsection \<open>Facts on blocks\<close>

lemma md_blocks_short: "length input < 64 \<Longrightarrow> md_blocks process st input = (st, input)"
  by (subst md_blocks.simps) simp

lemma md_blocks_block:
  "length block = 64 \<Longrightarrow> md_blocks process st (block @ input) = md_blocks process (process st block) input"
  by (subst md_blocks.simps) simp

lemma md_blocks_append:
  "md_blocks process st (xs @ ys) = (case md_blocks process st xs of (st', r) \<Rightarrow> md_blocks process st' (r @ ys))"
proof (induction process st xs rule: md_blocks.induct)
  case (1 process st xs)
  show ?case
  proof (cases "length xs \<ge> 64")
    case True
    then have "xs @ ys = take 64 xs @ (drop 64 xs @ ys)" "length (take 64 xs) = 64" by simp_all
    then have "md_blocks process st (xs @ ys) = md_blocks process (process st (take 64 xs)) (drop 64 xs @ ys)"
      using md_blocks_block by metis
    with True "1.IH" show ?thesis
      using md_blocks_block [of "take 64 xs" process st "drop 64 xs"] by simp
  next
    case False
    then show ?thesis by (simp add: md_blocks_short)
  qed
qed

lemma md_blocks_rest: "length (snd (md_blocks process st input)) = length input mod 64"
proof (induction process st input rule: md_blocks.induct)
  case (1 process st input)
  then show ?case
    by (cases "length input \<ge> 64") (simp_all add: md_blocks.simps [of _ _ input] le_mod_geq)
qed

lemma length_splice [simp]: "off + length xs \<le> length buf \<Longrightarrow> length (splice buf off xs) = length buf"
  by (simp add: splice_def)

lemma md_feed_blocks:
  assumes "length buffer = 64" "left < 64"
  shows "\<exists>st' buffer' rest. md_feed process st buffer left input = (st', buffer') \<and> length buffer' = 64 \<and>
    md_blocks process st (take left buffer @ input) = (st', rest) \<and> take (length rest) buffer' = rest"
proof (cases "left \<noteq> 0 \<and> length input \<ge> 64 - left")
  case True
  let ?blk = "splice buffer left (take (64 - left) input)"
  have blk: "?blk = take left buffer @ take (64 - left) input" "length ?blk = 64"
    using True assms by (simp_all add: splice_def)
  obtain st' rest where r: "md_blocks process (process st ?blk) (drop (64 - left) input) = (st', rest)" by force
  have len: "length rest < 64" using md_blocks_rest [of process "process st ?blk" "drop (64 - left) input"] r by simp
  have "take left buffer @ input = ?blk @ drop (64 - left) input" by (simp add: blk(1))
  then have "md_blocks process st (take left buffer @ input) = (st', rest)"
    using r md_blocks_block [OF blk(2), of process st] by simp
  moreover have "md_feed process st buffer left input = (st', if length rest > 0 then splice ?blk 0 rest else ?blk)"
    using True r by (simp add: md_feed_def Let_def)
  moreover have "length (splice ?blk 0 rest) = 64" using len blk(2) by simp
  moreover have "take (length rest) (splice ?blk 0 rest) = rest" by (simp add: splice_def)
  ultimately show ?thesis using blk(2) by auto
next
  case False
  obtain st' rest where r: "md_blocks process st input = (st', rest)" by force
  show ?thesis
  proof (cases "left = 0")
    case True
    have "length rest < 64" using md_blocks_rest [of process st input] r by simp
    with True r assms show ?thesis by (auto simp: md_feed_def splice_def)
  next
    case left: False
    with False have len: "left + length input < 64" by simp
    then have "md_blocks process st input = (st, input)"
      "md_blocks process st (take left buffer @ input) = (st, take left buffer @ input)"
      using assms by (simp_all add: md_blocks_short)
    with False len assms show ?thesis by (auto simp: md_feed_def splice_def)
  qed
qed

lemma md_chunks_foldl:
  assumes "0 < chunk_sz" "length cur < lim"
  shows "\<exists>xss. md_chunks upd ctx cur chunk_sz = Some (foldl upd ctx xss) \<and> concat xss = cur \<and>
    (\<forall>x \<in> set xss. length x < lim)"
  using assms(2)
proof (induction "length cur" arbitrary: ctx cur rule: less_induct)
  case less
  show ?case
  proof (cases "cur = []")
    case True
    then have "md_chunks upd ctx cur chunk_sz = Some ctx" by (subst md_chunks.simps) simp
    then show ?thesis using True by (intro exI [of _ "[]"]) simp
  next
    case False
    let ?n = "min (length cur) chunk_sz"
    have lt: "length (drop ?n cur) < length cur" using False assms(1) by simp
    have "length (drop ?n cur) < lim" using less.prems by simp
    from less.hyps [OF lt this, of "upd ctx (take ?n cur)"] obtain xss where "md_chunks upd (upd ctx (take ?n cur)) (drop ?n cur) chunk_sz
        = Some (foldl upd (upd ctx (take ?n cur)) xss)" "concat xss = drop ?n cur"
        "\<forall>x \<in> set xss. length x < lim"
      by blast
    moreover have "md_chunks upd ctx cur chunk_sz = md_chunks upd (upd ctx (take ?n cur)) (drop ?n cur) chunk_sz"
      using False by (subst md_chunks.simps) (simp only: Let_def if_False)
    moreover have "length (take ?n cur) < lim" using less.prems by simp
    ultimately show ?thesis
      using append_take_drop_id [of ?n cur] by (intro exI [of _ "take ?n cur # xss"]) (simp del: take_take)
  qed
qed

subsection \<open>The contract of an update function\<close>

text \<open>
  \<open>st\<close>, \<open>pend\<close> and \<open>bits\<close> are the chaining value, the bytes that wait in the buffer and the
  number of bits so far; \<open>lim\<close> bounds the length of one update.
\<close>

locale md_stream =
  fixes process :: "'st \<Rightarrow> bytes \<Rightarrow> 'st" and update :: "'c \<Rightarrow> bytes \<Rightarrow> 'c"
    and st :: "'c \<Rightarrow> 'st" and pend :: "'c \<Rightarrow> bytes" and bits :: "'c \<Rightarrow> nat" and ok :: "'c \<Rightarrow> bool" and lim :: nat
  assumes update_ok: "ok c \<Longrightarrow> length input < lim \<Longrightarrow> ok (update c input)"
    and update_blocks: "ok c \<Longrightarrow> length input < lim \<Longrightarrow>
      (st (update c input), pend (update c input)) = md_blocks process (st c) (pend c @ input)"
    and update_bits: "ok c \<Longrightarrow> length input < lim \<Longrightarrow>
      bits (update c input) = (bits c + 8 * length input) mod 2 ^ 64"
    and bits_range: "ok c \<Longrightarrow> bits c < 2 ^ 64"
    and pend_short: "ok c \<Longrightarrow> length (pend c) < 64"
begin

definition view :: "'c \<Rightarrow> ('st \<times> bytes) \<times> nat" where
  "view c = ((st c, pend c), bits c)"

lemma update_view:
  assumes "ok c" "length input < lim"
  shows "view (update c input) = (md_blocks process (st c) (pend c @ input), (bits c + 8 * length input) mod 2 ^ 64)"
  using update_blocks [OF assms] update_bits [OF assms] by (simp add: view_def)

text \<open>Any way of cutting a message into updates gives the same context.\<close>

lemma update_chunks:
  assumes "ok c" "\<forall>x \<in> set xss. length x < lim"
  shows "ok (foldl update c xss) \<and> view (foldl update c xss) =
      (md_blocks process (st c) (pend c @ concat xss), (bits c + 8 * length (concat xss)) mod 2 ^ 64)"
  using assms
proof (induction xss arbitrary: c)
  case Nil
  then show ?case using bits_range [of c] by (simp add: view_def md_blocks_short pend_short)
next
  case (Cons x xss)
  let ?c = "update c x"
  have c: "ok ?c" using Cons.prems by (simp add: update_ok)
  have "(st ?c, pend ?c) = md_blocks process (st c) (pend c @ x)" "bits ?c = (bits c + 8 * length x) mod 2 ^ 64"
    using Cons.prems by (simp_all add: update_blocks update_bits)
  then have "md_blocks process (st ?c) (pend ?c @ concat xss) = md_blocks process (st c) (pend c @ concat (x # xss))"
    "(bits ?c + 8 * length (concat xss)) mod 2 ^ 64 = (bits c + 8 * length (concat (x # xss))) mod 2 ^ 64"
    using md_blocks_append [of process "st c" "pend c @ x" "concat xss"]
    by (auto split: prod.splits simp: mod_add_left_eq mod_add_right_eq algebra_simps)
  then show ?case using Cons.IH [OF c] Cons.prems(2) by simp
qed

lemma update_append:
  assumes "ok c" "length xs < lim" "length ys < lim" "length (xs @ ys) < lim"
  shows "view (update (update c xs) ys) = view (update c (xs @ ys))"
  using update_chunks [OF assms(1), of "[xs, ys]"] update_chunks [OF assms(1), of "[xs @ ys]"] assms by simp

end

subsection \<open>Padding\<close>

text \<open>The padding after a message of \<open>n\<close> bytes: a one bit, zeros, and eight bytes that fill the last block.\<close>

definition md_padding :: "nat \<Rightarrow> bytes" where
  "md_padding n = 0x80 # replicate ((119 - n mod 64) mod 64) 0"

definition md_digest :: "('st \<Rightarrow> bytes \<Rightarrow> 'st) \<Rightarrow> 'st \<Rightarrow> (nat \<Rightarrow> bytes) \<Rightarrow> bytes \<Rightarrow> 'st" where
  "md_digest process iv enc msg =
     fst (md_blocks process iv (msg @ md_padding (length msg) @ enc (8 * length msg mod 2 ^ 64)))"

lemma md_padding_length: "(n + length (md_padding n) + 8) mod 64 = 0"
proof -
  obtain q r where n: "n = 64 * q + r" "r < 64" by (metis mod_less_divisor mult_div_mod_eq zero_less_numeral)
  show ?thesis
  proof (cases "r < 56")
    case True
    then have "(119 - r) mod 64 = 55 - r" by (simp add: mod_if)
    then show ?thesis using n True by (simp add: md_padding_def)
  next
    case False
    then have "(119 - r) mod 64 = 119 - r" using n(2) by simp
    then show ?thesis using n False by (simp add: md_padding_def)
  qed
qed

text \<open>The padding as the source cuts it from its constant table.\<close>

lemma md_padding_take:
  assumes "l = n mod 64"
  shows "take (if l < 56 then 56 - l else 120 - l) (0x80 # replicate 63 0) = md_padding n"
proof (cases "l < 56")
  case True
  then have "(119 - l) mod 64 = 55 - l" by (simp add: mod_if)
  then show ?thesis using True assms by (simp add: md_padding_def take_Cons')
next
  case False
  have "l < 64" using assms by simp
  then have "(119 - l) mod 64 = 119 - l" using False by simp
  then show ?thesis using False assms by (simp add: md_padding_def take_Cons')
qed

context md_stream
begin

text \<open>
  Feeding the padding and the encoded bit count after the message of a fresh context leaves the
  digest in the chaining value.
\<close>

lemma pad_blocks:
  assumes "ok c0" "pend c0 = []" "bits c0 = 0" "\<forall>x \<in> set xss. length x < lim" "c = foldl update c0 xss"
  shows "fst (md_blocks process (st c) (pend c @ md_padding (length (concat xss)) @ enc (bits c)))
    = md_digest process (st c0) enc (concat xss)"
proof -
  note ch = update_chunks [OF assms(1,4), folded assms(5)]
  have "bits c = 8 * length (concat xss) mod 2 ^ 64" "md_blocks process (st c0) (concat xss) = (st c, pend c)"
    using ch assms(2,3) by (simp_all add: view_def)
  then show ?thesis
    unfolding md_digest_def by (subst md_blocks_append [of process _ "concat xss"]) simp
qed

lemma finish_digest:
  assumes "ok c0" "pend c0 = []" "bits c0 = 0" "\<forall>x \<in> set xss. length x < lim" "64 < lim"
    and "c = foldl update c0 xss" "length (enc (bits c)) = 8"
  shows "st (update (update c (md_padding (length (concat xss)))) (enc (bits c))) = md_digest process (st c0) enc (concat xss)"
proof -
  let ?pad = "md_padding (length (concat xss))"
  have pad: "length ?pad < lim" using assms(5) by (simp add: md_padding_def)
  have "ok c" using update_chunks [OF assms(1,4)] assms(6) by simp
  then have "view (foldl update c [?pad, enc (bits c)]) =
      (md_blocks process (st c) (pend c @ ?pad @ enc (bits c)), (bits c + 8 * length (?pad @ enc (bits c))) mod 2 ^ 64)"
    using update_chunks [of c "[?pad, enc (bits c)]"] assms(5,7) pad by simp
  then show ?thesis
    using pad_blocks [OF assms(1-4,6), of enc] by (simp add: view_def) (metis fst_conv)
qed

end

subsection \<open>Byte counters of two words\<close>

definition byte_count :: "u32 \<Rightarrow> u32 \<Rightarrow> nat" where
  "byte_count t1 t0 = unat t1 * 2 ^ 32 + unat t0"

text \<open>The counter after \<open>n\<close> more bytes, as the update functions of SHA-1 and SHA-256 compute it.\<close>

definition count_add :: "u32 \<Rightarrow> u32 \<Rightarrow> nat \<Rightarrow> u32 \<times> u32" where
  "count_add t1 t0 n =
     (let t0' = (t0 + word_of_nat n) AND 0xFFFFFFFF
      in (if t0' < word_of_nat n then t1 + 1 else t1, t0'))"

definition be64 :: "nat \<Rightarrow> bytes" where
  "be64 n = PUT_UINT32_BE (word_of_nat (n div 2 ^ 32)) @ PUT_UINT32_BE (word_of_nat n)"

lemma be64_length [simp]: "length (be64 n) = 8"
  by (simp add: be64_def PUT_UINT32_BE_def)

lemma and_63: "unat ((w :: u32) AND 0x3F) = unat w mod 64"
proof -
  have "(0x3F :: u32) = mask 6" by (simp add: mask_eq_exp_minus_1)
  then have "w AND 0x3F = take_bit 6 w" by (simp add: take_bit_eq_mask)
  then show ?thesis using unat_take_bit [of 6 w] by simp
qed

lemma and_ffffffff: "(w :: u32) AND 0xFFFFFFFF = w"
proof -
  have "(0xFFFFFFFF :: u32) = mask 32" by (simp add: mask_eq_exp_minus_1)
  moreover have "w AND mask 32 = w" by (rule bit_word_eqI) (auto simp: bit_simps)
  ultimately show ?thesis by simp
qed

lemma count_add_unat:
  assumes "n < 2 ^ 32" "count_add t1 t0 n = (t1', t0')"
  shows "byte_count t1' t0' = (byte_count t1 t0 + n) mod 2 ^ 64" "unat t0' mod 64 = (unat t0 + n) mod 64"
proof -
  have n: "unat (word_of_nat n :: u32) = n" using assms(1) by (simp add: unat_of_nat)
  have t0': "t0' = t0 + word_of_nat n" "t1' = (if t0' < word_of_nat n then t1 + 1 else t1)"
    using assms(2) by (auto simp: count_add_def Let_def and_ffffffff)
  have u0: "unat t0' = (unat t0 + n) mod 2 ^ 32" by (simp add: t0' unat_word_ariths n)
  then show "unat t0' mod 64 = (unat t0 + n) mod 64" by (simp add: mod_mod_cancel)
  have b: "unat t0 \<le> 4294967295" "unat t1 \<le> 4294967295"
    using unat_u32_lt [of t0] unat_u32_lt [of t1] by linarith+
  show "byte_count t1' t0' = (byte_count t1 t0 + n) mod 2 ^ 64"
  proof (cases "unat t0 + n < 2 ^ 32")
    case True
    then have "unat t0' = unat t0 + n" "\<not> t0' < word_of_nat n" using u0 n by (simp_all add: word_less_nat_alt)
    moreover have "unat t1 * 2 ^ 32 + (unat t0 + n) < 2 ^ 64" using True b(2) by simp
    ultimately show ?thesis using t0'(2) by (simp add: byte_count_def add.assoc)
  next
    case False
    then have s: "unat t0' = unat t0 + n - 2 ^ 32" using u0 b assms(1) by (simp add: mod_if)
    then have "t0' < word_of_nat n" using n b False by (simp add: word_less_nat_alt)
    then have "unat t1' = (unat t1 + 1) mod 2 ^ 32" using t0'(2) by (simp add: unat_word_ariths)
    then have "byte_count t1' t0' = (unat t1 + 1) mod 2 ^ 32 * 2 ^ 32 + (unat t0 + n - 2 ^ 32)"
      by (simp add: byte_count_def s)
    also have "\<dots> = (unat t1 * 2 ^ 32 + (unat t0 + n)) mod 2 ^ 64"
    proof (cases "unat t1 + 1 = 2 ^ 32")
      case True
      then show ?thesis using False b assms(1) by (simp add: mod_if)
    next
      case t1: False
      then have "unat t1 * 2 ^ 32 + (unat t0 + n) < 2 ^ 64" using b assms(1) by simp
      then show ?thesis using t1 False b by simp
    qed
    finally show ?thesis by (simp add: byte_count_def add.assoc)
  qed
qed

text \<open>The bit count as the source writes it into the last block.\<close>

lemma count_be64:
  "PUT_UINT32_BE (drop_bit 29 t0 OR push_bit 3 t1) @ PUT_UINT32_BE (push_bit 3 t0)
    = be64 (8 * byte_count t1 t0 mod 2 ^ 64)"
proof -
  let ?n = "8 * byte_count t1 t0"
  have "drop_bit 29 t0 AND push_bit 3 t1 = 0"
    by (rule bit_word_eqI) (auto simp: bit_simps dest: bit_u32_lt)
  then have hi: "drop_bit 29 t0 OR push_bit 3 t1 = drop_bit 29 t0 + push_bit 3 t1"
    by (simp add: disjunctive_add_eq_or)
  have "?n mod 2 ^ 64 div 2 ^ 32 = ?n div 2 ^ 32 mod 2 ^ 32"
    using mod_mult2_eq [of ?n "2 ^ 32" "2 ^ 32"] by simp
  then have "word_of_nat (?n mod 2 ^ 64 div 2 ^ 32) = (word_of_nat (?n div 2 ^ 32) :: u32)"
    by (simp add: word_unat_eq_iff unat_of_nat)
  also have "?n div 2 ^ 32 = 8 * unat t1 + unat t0 div 2 ^ 29"
    by (simp add: byte_count_def)
  also have "word_of_nat (8 * unat t1 + unat t0 div 2 ^ 29) = drop_bit 29 t0 + push_bit 3 t1"
  proof -
    have "unat t0 div 2 ^ 29 = unat (drop_bit 29 t0)"
      unfolding unat_drop_bit_eq by (rule drop_bit_eq_div [symmetric])
    then have "word_of_nat (unat t0 div 2 ^ 29) = drop_bit 29 t0" by simp
    then show ?thesis by (simp add: push_bit_eq_mult)
  qed
  finally have "word_of_nat (?n mod 2 ^ 64 div 2 ^ 32) = drop_bit 29 t0 OR push_bit 3 t1" using hi by simp
  moreover have "?n = 8 * unat t0 + (8 * unat t1) * 2 ^ 32" by (simp add: byte_count_def)
  then have "?n mod 2 ^ 32 = 8 * unat t0 mod 2 ^ 32" by (simp only: mod_mult_self1)
  then have "word_of_nat (?n mod 2 ^ 64) = push_bit 3 t0"
    by (simp add: word_unat_eq_iff unat_of_nat push_bit_eq_mult unat_word_ariths mod_mod_cancel mult.commute)
  ultimately show ?thesis by (simp add: be64_def)
qed

end
