(* ===== verification/Sha1.thy ===== *)
theory Sha1
  imports Digest
begin

text \<open>
  SHA-1, \<open>lib/sha1.c\<close>. \<open>unsigned long\<close> is 32 bits wide. The macro \<open>P\<close> of the source is called
  with its five variables rotated by one each time; here the variables are rotated instead, and
  80 calls are 16 full turns. \<open>sha1_update\<close> is shown to satisfy the contract \<open>md_stream\<close>, so the
  digest does not depend on how the message is cut, and \<open>sha1_csum\<close> is the digest of the padded
  message.
\<close>

record sha1_context =
  sha1_total0 :: u32
  sha1_total1 :: u32
  sha1_state :: "u32 list"
  sha1_buffer :: bytes

definition sha1_starts :: "sha1_context \<Rightarrow> sha1_context" where
  "sha1_starts ctx = ctx\<lparr>sha1_total0 := 0, sha1_total1 := 0,
     sha1_state := [0x67452301, 0xEFCDAB89, 0x98BADCFE, 0x10325476, 0xC3D2E1F0]\<rparr>"

definition sha1_S :: "u32 \<Rightarrow> nat \<Rightarrow> u32" where
  "sha1_S x n = push_bit n x OR drop_bit (32 - n) (x AND 0xFFFFFFFF)"

definition sha1_R :: "u32 list \<Rightarrow> nat \<Rightarrow> u32 list" where
  "sha1_R W t =
     (let temp = W ! ((t - 3) mod 16) XOR W ! ((t - 8) mod 16) XOR W ! ((t - 14) mod 16) XOR W ! (t mod 16)
      in W[t mod 16 := sha1_S temp 1])"

definition sha1_F :: "nat \<Rightarrow> u32 \<Rightarrow> u32 \<Rightarrow> u32 \<Rightarrow> u32" where
  "sha1_F t x y z =
     (if t < 20 then z XOR (x AND (y XOR z))
      else if t < 40 then x XOR y XOR z
      else if t < 60 then (x AND y) OR (z AND (x OR y))
      else x XOR y XOR z)"

definition sha1_K :: "nat \<Rightarrow> u32" where
  "sha1_K t = (if t < 20 then 0x5A827999 else if t < 40 then 0x6ED9EBA1 else if t < 60 then 0x8F1BBCDC else 0xCA62C1D6)"

fun sha1_P :: "nat \<Rightarrow> u32 list \<times> u32 \<times> u32 \<times> u32 \<times> u32 \<times> u32 \<Rightarrow> u32 list \<times> u32 \<times> u32 \<times> u32 \<times> u32 \<times> u32" where
  "sha1_P t (W, a, b, c, d, e) =
     (let W' = (if t < 16 then W else sha1_R W t);
          e' = e + (sha1_S a 5 + sha1_F t b c d + sha1_K t + W' ! (t mod 16))
      in (W', e', a, sha1_S b 30, c, d))"

definition sha1_process :: "u32 list \<Rightarrow> bytes \<Rightarrow> u32 list" where
  "sha1_process state data =
     (let W = map (GET_UINT32_BE data) [0, 4, 8, 12, 16, 20, 24, 28, 32, 36, 40, 44, 48, 52, 56, 60];
          (W', A, B, C, D, E) =
            fold sha1_P [0..<80] (W, state ! 0, state ! 1, state ! 2, state ! 3, state ! 4)
      in [state ! 0 + A, state ! 1 + B, state ! 2 + C, state ! 3 + D, state ! 4 + E])"

definition sha1_update :: "sha1_context \<Rightarrow> bytes \<Rightarrow> sha1_context" where
  "sha1_update ctx input =
     (if length input = 0 then ctx
      else let left = unat (sha1_total0 ctx AND 0x3F);
               (t1, t0) = count_add (sha1_total1 ctx) (sha1_total0 ctx) (length input);
               (st, buf) = md_feed sha1_process (sha1_state ctx) (sha1_buffer ctx) left input
           in ctx\<lparr>sha1_total0 := t0, sha1_total1 := t1, sha1_state := st, sha1_buffer := buf\<rparr>)"

definition sha1_padding :: bytes where
  "sha1_padding = 0x80 # replicate 63 0"

definition sha1_finish :: "sha1_context \<Rightarrow> bytes" where
  "sha1_finish ctx =
     (let high = drop_bit 29 (sha1_total0 ctx) OR push_bit 3 (sha1_total1 ctx);
          low = push_bit 3 (sha1_total0 ctx);
          msglen = PUT_UINT32_BE high @ PUT_UINT32_BE low;
          last = unat (sha1_total0 ctx AND 0x3F);
          padn = (if last < 56 then 56 - last else 120 - last);
          ctx1 = sha1_update ctx (take padn sha1_padding);
          ctx2 = sha1_update ctx1 msglen
      in PUT_UINT32_BE (sha1_state ctx2 ! 0) @ PUT_UINT32_BE (sha1_state ctx2 ! 1) @ PUT_UINT32_BE (sha1_state ctx2 ! 2)
         @ PUT_UINT32_BE (sha1_state ctx2 ! 3) @ PUT_UINT32_BE (sha1_state ctx2 ! 4))"

text \<open>The context is a local variable that is not initialised: it is an argument here.\<close>

definition sha1_csum :: "sha1_context \<Rightarrow> bytes \<Rightarrow> bytes" where
  "sha1_csum ctx input = sha1_finish (sha1_update (sha1_starts ctx) input)"

definition sha1_csum_wd :: "bool \<Rightarrow> sha1_context \<Rightarrow> bytes \<Rightarrow> nat \<Rightarrow> bytes option" where
  "sha1_csum_wd watchdog ctx input chunk_sz =
     map_option sha1_finish
       (if watchdog then md_chunks sha1_update (sha1_starts ctx) input chunk_sz
        else Some (sha1_update (sha1_starts ctx) input))"

definition sha1_hmac :: "sha1_context \<Rightarrow> bytes \<Rightarrow> bytes \<Rightarrow> bytes" where
  "sha1_hmac ctx key input =
     (let k = take 64 key;
          k_ipad = map2 (XOR) k (replicate (length k) 0x36) @ replicate (64 - length k) 0x36;
          k_opad = map2 (XOR) k (replicate (length k) 0x5C) @ replicate (64 - length k) 0x5C;
          tmpbuf = sha1_finish (sha1_update (sha1_update (sha1_starts ctx) k_ipad) input)
      in sha1_finish (sha1_update (sha1_update (sha1_starts ctx) k_opad) tmpbuf))"

subsection \<open>The contract\<close>

definition sha1_ok :: "sha1_context \<Rightarrow> bool" where
  "sha1_ok ctx \<longleftrightarrow> length (sha1_buffer ctx) = 64"

definition sha1_pend :: "sha1_context \<Rightarrow> bytes" where
  "sha1_pend ctx = take (unat (sha1_total0 ctx) mod 64) (sha1_buffer ctx)"

definition sha1_bits :: "sha1_context \<Rightarrow> nat" where
  "sha1_bits ctx = 8 * byte_count (sha1_total1 ctx) (sha1_total0 ctx) mod 2 ^ 64"

interpretation sha1: md_stream sha1_process sha1_update sha1_state sha1_pend sha1_bits sha1_ok "2 ^ 31"
proof
  fix c :: sha1_context and input :: bytes
  assume ok: "sha1_ok c" and len: "length input < 2 ^ 31"
  obtain t1 t0 where t: "count_add (sha1_total1 c) (sha1_total0 c) (length input) = (t1, t0)" by force
  note cnt = count_add_unat [OF _ t]
  let ?left = "unat (sha1_total0 c) mod 64"
  obtain st buf rest where f: "md_feed sha1_process (sha1_state c) (sha1_buffer c) ?left input = (st, buf)" "length buf = 64"
    "md_blocks sha1_process (sha1_state c) (sha1_pend c @ input) = (st, rest)" "take (length rest) buf = rest"
    using md_feed_blocks [of "sha1_buffer c" ?left] ok by (fastforce simp: sha1_ok_def sha1_pend_def)
  have u: "input \<noteq> [] \<Longrightarrow> sha1_update c input = c\<lparr>sha1_total0 := t0, sha1_total1 := t1, sha1_state := st, sha1_buffer := buf\<rparr>"
    using t f(1) by (simp add: sha1_update_def and_63 Let_def)
  show "sha1_ok (sha1_update c input)"
    using u ok f(2) by (cases "input = []") (simp_all add: sha1_ok_def sha1_update_def)
  have "length rest = length (sha1_pend c @ input) mod 64"
    using md_blocks_rest [of sha1_process "sha1_state c" "sha1_pend c @ input"] f(3) by simp
  then have "length rest = unat t0 mod 64"
    using cnt(2) len ok by (simp add: sha1_pend_def sha1_ok_def mod_add_left_eq)
  then show "(sha1_state (sha1_update c input), sha1_pend (sha1_update c input)) =
      md_blocks sha1_process (sha1_state c) (sha1_pend c @ input)"
    using u f(3,4) ok
    by (cases "input = []") (simp_all add: sha1_update_def md_blocks_short sha1_pend_def sha1_ok_def)
  show "sha1_bits (sha1_update c input) = (sha1_bits c + 8 * length input) mod 2 ^ 64"
    using u cnt(1) len by (cases "input = []") (simp_all add: sha1_update_def sha1_bits_def mod_simps algebra_simps)
qed (simp_all add: sha1_bits_def sha1_pend_def sha1_ok_def)

subsection \<open>The digest\<close>

definition sha1_out :: "u32 list \<Rightarrow> bytes" where
  "sha1_out st = concat (map (\<lambda>i. PUT_UINT32_BE (st ! i)) [0, 1, 2, 3, 4])"

definition sha1_iv :: "u32 list" where
  "sha1_iv = [0x67452301, 0xEFCDAB89, 0x98BADCFE, 0x10325476, 0xC3D2E1F0]"

text \<open>The digest of a message: the chaining value after the blocks of the padded message.\<close>

definition sha1_spec :: "bytes \<Rightarrow> bytes" where
  "sha1_spec msg = sha1_out (md_digest sha1_process sha1_iv be64 msg)"

lemma sha1_starts_view:
  "sha1_state (sha1_starts ctx) = sha1_iv" "sha1_pend (sha1_starts ctx) = []" "sha1_bits (sha1_starts ctx) = 0"
  "sha1_ok (sha1_starts ctx) = sha1_ok ctx"
  by (simp_all add: sha1_starts_def sha1_iv_def sha1_pend_def sha1_bits_def sha1_ok_def byte_count_def)

lemma sha1_finish_spec:
  assumes "sha1_ok ctx" "\<forall>x \<in> set xss. length x < 2 ^ 31"
  shows "sha1_finish (foldl sha1_update (sha1_starts ctx) xss) = sha1_spec (concat xss)"
proof -
  let ?c = "foldl sha1_update (sha1_starts ctx) xss"
  have ok0: "sha1_ok (sha1_starts ctx)" using assms(1) by (simp add: sha1_starts_view)
  note ch = sha1.update_chunks [OF ok0 assms(2)]
  have "length (sha1_pend ?c) = length (concat xss) mod 64"
    using ch md_blocks_rest [of sha1_process sha1_iv "concat xss"]
    by (auto simp: sha1.view_def sha1_starts_view) (metis snd_conv)
  then have l: "unat (sha1_total0 ?c AND 0x3F) = length (concat xss) mod 64"
    using ch by (simp add: and_63 sha1_pend_def sha1_ok_def)
  have "sha1_state (sha1_update (sha1_update ?c (md_padding (length (concat xss)))) (be64 (sha1_bits ?c)))
      = md_digest sha1_process sha1_iv be64 (concat xss)"
    using sha1.finish_digest [OF ok0 _ _ assms(2), of ?c be64]
    by (simp add: sha1_starts_view)
  then show ?thesis
    unfolding sha1_finish_def Let_def sha1_padding_def md_padding_take [OF l] count_be64
    by (simp add: sha1_spec_def sha1_out_def sha1_bits_def)
qed

subsection \<open>Properties\<close>

text \<open>
  However a message is cut into updates, the finished digest is that of the padded message: the
  message, a one bit, zeros and the bit count, in blocks of 64 bytes.
\<close>

theorem sha1_stream:
  assumes "sha1_ok ctx" "\<forall>x \<in> set xss. length x < 2 ^ 31"
  shows "sha1_finish (foldl sha1_update (sha1_starts ctx) xss) = sha1_spec (concat xss)"
  using assms by (rule sha1_finish_spec)

theorem sha1_stream_witness:
  "sha1_finish (sha1_update (sha1_update (sha1_starts
     \<lparr>sha1_total0 = 0, sha1_total1 = 0, sha1_state = [], sha1_buffer = replicate 64 0\<rparr>) (bs ''ab'')) (bs ''c'')) = sha1_spec (bs ''abc'')"
  using sha1_stream [of "\<lparr>sha1_total0 = 0, sha1_total1 = 0, sha1_state = [], sha1_buffer = replicate 64 0\<rparr>" "[bs ''ab'', bs ''c'']"]
  by (simp add: sha1_ok_def)

text \<open>
  \<open>sha1_csum_wd\<close> gives the same digest as \<open>sha1_csum\<close>, whether the message is processed in chunks or
  at once, for every chunk size but zero.
\<close>

theorem sha1_csum_wd_eq:
  assumes "sha1_ok ctx" "length input < 2 ^ 31" "0 < chunk_sz"
  shows "sha1_csum_wd watchdog ctx input chunk_sz = Some (sha1_csum ctx input)"
proof -
  have one: "sha1_csum ctx input = sha1_spec input"
    using sha1_finish_spec [OF assms(1), of "[input]"] assms(2) by (simp add: sha1_csum_def)
  obtain xss where "md_chunks sha1_update (sha1_starts ctx) input chunk_sz = Some (foldl sha1_update (sha1_starts ctx) xss)"
    and xss: "concat xss = input" "\<forall>x \<in> set xss. length x < 2 ^ 31"
    using md_chunks_foldl [OF assms(3,2), of sha1_update "sha1_starts ctx"] by metis
  moreover have "sha1_finish (foldl sha1_update (sha1_starts ctx) xss) = sha1_spec input"
    using sha1_finish_spec [OF assms(1) xss(2)] xss(1) by simp
  ultimately show ?thesis
    using one by (simp add: sha1_csum_wd_def sha1_csum_def)
qed

theorem sha1_csum_wd_eq_witness:
  "sha1_csum_wd True \<lparr>sha1_total0 = 0, sha1_total1 = 0, sha1_state = [], sha1_buffer = replicate 64 0\<rparr> (bs ''abc'') 2
     = Some (sha1_csum \<lparr>sha1_total0 = 0, sha1_total1 = 0, sha1_state = [], sha1_buffer = replicate 64 0\<rparr> (bs ''abc''))"
  by (rule sha1_csum_wd_eq) (simp_all add: sha1_ok_def)

end
