(* ===== verification/Sha256.thy ===== *)
theory Sha256
  imports Digest
begin

text \<open>
  SHA-256, \<open>lib/sha256.c\<close>. The macro \<open>P\<close> is called with its eight variables rotated by one each
  time; here the variables are rotated, and 64 calls are eight full turns. The message schedule
  grows from 16 to 64 words. As for SHA-1, \<open>sha256_update\<close> satisfies \<open>md_stream\<close> and the finished
  digest is the one of the padded message.
\<close>

record sha256_context =
  sha256_total0 :: u32
  sha256_total1 :: u32
  sha256_state :: "u32 list"
  sha256_buffer :: bytes

definition sha256_starts :: "sha256_context \<Rightarrow> sha256_context" where
  "sha256_starts ctx = ctx\<lparr>sha256_total0 := 0, sha256_total1 := 0,
     sha256_state := [0x6A09E667, 0xBB67AE85, 0x3C6EF372, 0xA54FF53A, 0x510E527F, 0x9B05688C, 0x1F83D9AB, 0x5BE0CD19]\<rparr>"

definition sha256_SHR :: "u32 \<Rightarrow> nat \<Rightarrow> u32" where
  "sha256_SHR x n = drop_bit n (x AND 0xFFFFFFFF)"

definition sha256_ROTR :: "u32 \<Rightarrow> nat \<Rightarrow> u32" where
  "sha256_ROTR x n = sha256_SHR x n OR push_bit (32 - n) x"

definition sha256_S0 :: "u32 \<Rightarrow> u32" where
  "sha256_S0 x = sha256_ROTR x 7 XOR sha256_ROTR x 18 XOR sha256_SHR x 3"

definition sha256_S1 :: "u32 \<Rightarrow> u32" where
  "sha256_S1 x = sha256_ROTR x 17 XOR sha256_ROTR x 19 XOR sha256_SHR x 10"

definition sha256_S2 :: "u32 \<Rightarrow> u32" where
  "sha256_S2 x = sha256_ROTR x 2 XOR sha256_ROTR x 13 XOR sha256_ROTR x 22"

definition sha256_S3 :: "u32 \<Rightarrow> u32" where
  "sha256_S3 x = sha256_ROTR x 6 XOR sha256_ROTR x 11 XOR sha256_ROTR x 25"

definition sha256_F0 :: "u32 \<Rightarrow> u32 \<Rightarrow> u32 \<Rightarrow> u32" where
  "sha256_F0 x y z = (x AND y) OR (z AND (x OR y))"

definition sha256_F1 :: "u32 \<Rightarrow> u32 \<Rightarrow> u32 \<Rightarrow> u32" where
  "sha256_F1 x y z = z XOR (x AND (y XOR z))"

definition sha256_K :: "u32 list" where
  "sha256_K = [
     0x428A2F98, 0x71374491, 0xB5C0FBCF, 0xE9B5DBA5, 0x3956C25B, 0x59F111F1, 0x923F82A4, 0xAB1C5ED5,
     0xD807AA98, 0x12835B01, 0x243185BE, 0x550C7DC3, 0x72BE5D74, 0x80DEB1FE, 0x9BDC06A7, 0xC19BF174,
     0xE49B69C1, 0xEFBE4786, 0x0FC19DC6, 0x240CA1CC, 0x2DE92C6F, 0x4A7484AA, 0x5CB0A9DC, 0x76F988DA,
     0x983E5152, 0xA831C66D, 0xB00327C8, 0xBF597FC7, 0xC6E00BF3, 0xD5A79147, 0x06CA6351, 0x14292967,
     0x27B70A85, 0x2E1B2138, 0x4D2C6DFC, 0x53380D13, 0x650A7354, 0x766A0ABB, 0x81C2C92E, 0x92722C85,
     0xA2BFE8A1, 0xA81A664B, 0xC24B8B70, 0xC76C51A3, 0xD192E819, 0xD6990624, 0xF40E3585, 0x106AA070,
     0x19A4C116, 0x1E376C08, 0x2748774C, 0x34B0BCB5, 0x391C0CB3, 0x4ED8AA4A, 0x5B9CCA4F, 0x682E6FF3,
     0x748F82EE, 0x78A5636F, 0x84C87814, 0x8CC70208, 0x90BEFFFA, 0xA4506CEB, 0xBEF9A3F7, 0xC67178F2]"

definition sha256_R :: "u32 list \<Rightarrow> nat \<Rightarrow> u32" where
  "sha256_R W t = sha256_S1 (W ! (t - 2)) + W ! (t - 7) + sha256_S0 (W ! (t - 15)) + W ! (t - 16)"

fun sha256_P ::
  "nat \<Rightarrow> u32 list \<times> u32 \<times> u32 \<times> u32 \<times> u32 \<times> u32 \<times> u32 \<times> u32 \<times> u32
     \<Rightarrow> u32 list \<times> u32 \<times> u32 \<times> u32 \<times> u32 \<times> u32 \<times> u32 \<times> u32 \<times> u32" where
  "sha256_P t (W, a, b, c, d, e, f, g, h) =
     (let W' = (if t < 16 then W else W @ [sha256_R W t]);
          temp1 = h + sha256_S3 e + sha256_F1 e f g + sha256_K ! t + W' ! t;
          temp2 = sha256_S2 a + sha256_F0 a b c
      in (W', temp1 + temp2, a, b, c, d + temp1, e, f, g))"

definition sha256_process :: "u32 list \<Rightarrow> bytes \<Rightarrow> u32 list" where
  "sha256_process state data =
     (let W = map (GET_UINT32_BE data) [0, 4, 8, 12, 16, 20, 24, 28, 32, 36, 40, 44, 48, 52, 56, 60];
          (W', A, B, C, D, E, F, G, H) =
            fold sha256_P [0..<64]
              (W, state ! 0, state ! 1, state ! 2, state ! 3, state ! 4, state ! 5, state ! 6, state ! 7)
      in [state ! 0 + A, state ! 1 + B, state ! 2 + C, state ! 3 + D,
          state ! 4 + E, state ! 5 + F, state ! 6 + G, state ! 7 + H])"

definition sha256_update :: "sha256_context \<Rightarrow> bytes \<Rightarrow> sha256_context" where
  "sha256_update ctx input =
     (if length input = 0 then ctx
      else let left = unat (sha256_total0 ctx AND 0x3F);
               (t1, t0) = count_add (sha256_total1 ctx) (sha256_total0 ctx) (length input);
               (st, buf) = md_feed sha256_process (sha256_state ctx) (sha256_buffer ctx) left input
           in ctx\<lparr>sha256_total0 := t0, sha256_total1 := t1, sha256_state := st, sha256_buffer := buf\<rparr>)"

definition sha256_padding :: bytes where
  "sha256_padding = 0x80 # replicate 63 0"

definition sha256_finish :: "sha256_context \<Rightarrow> bytes" where
  "sha256_finish ctx =
     (let high = drop_bit 29 (sha256_total0 ctx) OR push_bit 3 (sha256_total1 ctx);
          low = push_bit 3 (sha256_total0 ctx);
          msglen = PUT_UINT32_BE high @ PUT_UINT32_BE low;
          last = unat (sha256_total0 ctx AND 0x3F);
          padn = (if last < 56 then 56 - last else 120 - last);
          ctx1 = sha256_update ctx (take padn sha256_padding);
          ctx2 = sha256_update ctx1 msglen;
          st = sha256_state ctx2
      in PUT_UINT32_BE (st ! 0) @ PUT_UINT32_BE (st ! 1) @ PUT_UINT32_BE (st ! 2) @ PUT_UINT32_BE (st ! 3)
         @ PUT_UINT32_BE (st ! 4) @ PUT_UINT32_BE (st ! 5) @ PUT_UINT32_BE (st ! 6) @ PUT_UINT32_BE (st ! 7))"

subsection \<open>The contract\<close>

definition sha256_ok :: "sha256_context \<Rightarrow> bool" where
  "sha256_ok ctx \<longleftrightarrow> length (sha256_buffer ctx) = 64"

definition sha256_pend :: "sha256_context \<Rightarrow> bytes" where
  "sha256_pend ctx = take (unat (sha256_total0 ctx) mod 64) (sha256_buffer ctx)"

definition sha256_bits :: "sha256_context \<Rightarrow> nat" where
  "sha256_bits ctx = 8 * byte_count (sha256_total1 ctx) (sha256_total0 ctx) mod 2 ^ 64"

interpretation sha256: md_stream sha256_process sha256_update sha256_state sha256_pend sha256_bits sha256_ok "2 ^ 32"
proof
  fix c :: sha256_context and input :: bytes
  assume ok: "sha256_ok c" and len: "length input < 2 ^ 32"
  obtain t1 t0 where t: "count_add (sha256_total1 c) (sha256_total0 c) (length input) = (t1, t0)" by force
  note cnt = count_add_unat [OF _ t]
  let ?left = "unat (sha256_total0 c) mod 64"
  obtain st buf rest where f: "md_feed sha256_process (sha256_state c) (sha256_buffer c) ?left input = (st, buf)" "length buf = 64"
    "md_blocks sha256_process (sha256_state c) (sha256_pend c @ input) = (st, rest)" "take (length rest) buf = rest"
    using md_feed_blocks [of "sha256_buffer c" ?left] ok by (fastforce simp: sha256_ok_def sha256_pend_def)
  have u: "input \<noteq> [] \<Longrightarrow> sha256_update c input = c\<lparr>sha256_total0 := t0, sha256_total1 := t1, sha256_state := st, sha256_buffer := buf\<rparr>"
    using t f(1) by (simp add: sha256_update_def and_63 Let_def)
  show "sha256_ok (sha256_update c input)"
    using u ok f(2) by (cases "input = []") (simp_all add: sha256_ok_def sha256_update_def)
  have "length rest = length (sha256_pend c @ input) mod 64"
    using md_blocks_rest [of sha256_process "sha256_state c" "sha256_pend c @ input"] f(3) by simp
  then have "length rest = unat t0 mod 64"
    using cnt(2) len ok by (simp add: sha256_pend_def sha256_ok_def mod_add_left_eq)
  then show "(sha256_state (sha256_update c input), sha256_pend (sha256_update c input)) =
      md_blocks sha256_process (sha256_state c) (sha256_pend c @ input)"
    using u f(3,4) ok
    by (cases "input = []") (simp_all add: sha256_update_def md_blocks_short sha256_pend_def sha256_ok_def)
  show "sha256_bits (sha256_update c input) = (sha256_bits c + 8 * length input) mod 2 ^ 64"
    using u cnt(1) len by (cases "input = []") (simp_all add: sha256_update_def sha256_bits_def mod_simps algebra_simps)
qed (simp_all add: sha256_bits_def sha256_pend_def sha256_ok_def)

subsection \<open>The digest\<close>

definition sha256_out :: "u32 list \<Rightarrow> bytes" where
  "sha256_out st = concat (map (\<lambda>i. PUT_UINT32_BE (st ! i)) [0, 1, 2, 3, 4, 5, 6, 7])"

definition sha256_iv :: "u32 list" where
  "sha256_iv = [0x6A09E667, 0xBB67AE85, 0x3C6EF372, 0xA54FF53A, 0x510E527F, 0x9B05688C, 0x1F83D9AB, 0x5BE0CD19]"

text \<open>The digest of a message: the chaining value after the blocks of the padded message.\<close>

definition sha256_spec :: "bytes \<Rightarrow> bytes" where
  "sha256_spec msg = sha256_out (md_digest sha256_process sha256_iv be64 msg)"

lemma sha256_starts_view:
  "sha256_state (sha256_starts ctx) = sha256_iv" "sha256_pend (sha256_starts ctx) = []" "sha256_bits (sha256_starts ctx) = 0"
  "sha256_ok (sha256_starts ctx) = sha256_ok ctx"
  by (simp_all add: sha256_starts_def sha256_iv_def sha256_pend_def sha256_bits_def sha256_ok_def byte_count_def)

lemma sha256_finish_spec:
  assumes "sha256_ok ctx" "\<forall>x \<in> set xss. length x < 2 ^ 32"
  shows "sha256_finish (foldl sha256_update (sha256_starts ctx) xss) = sha256_spec (concat xss)"
proof -
  let ?c = "foldl sha256_update (sha256_starts ctx) xss"
  have ok0: "sha256_ok (sha256_starts ctx)" using assms(1) by (simp add: sha256_starts_view)
  note ch = sha256.update_chunks [OF ok0 assms(2)]
  have "length (sha256_pend ?c) = length (concat xss) mod 64"
    using ch md_blocks_rest [of sha256_process sha256_iv "concat xss"]
    by (auto simp: sha256.view_def sha256_starts_view) (metis snd_conv)
  then have l: "unat (sha256_total0 ?c AND 0x3F) = length (concat xss) mod 64"
    using ch by (simp add: and_63 sha256_pend_def sha256_ok_def)
  have "sha256_state (sha256_update (sha256_update ?c (md_padding (length (concat xss)))) (be64 (sha256_bits ?c)))
      = md_digest sha256_process sha256_iv be64 (concat xss)"
    using sha256.finish_digest [OF ok0 _ _ assms(2), of ?c be64]
    by (simp add: sha256_starts_view)
  then show ?thesis
    unfolding sha256_finish_def Let_def sha256_padding_def md_padding_take [OF l] count_be64
    by (simp add: sha256_spec_def sha256_out_def sha256_bits_def)
qed

subsection \<open>Properties\<close>

text \<open>
  However a message is cut into updates, the finished digest is that of the padded message: the
  message, a one bit, zeros and the bit count, in blocks of 64 bytes.
\<close>

theorem sha256_stream:
  assumes "sha256_ok ctx" "\<forall>x \<in> set xss. length x < 2 ^ 32"
  shows "sha256_finish (foldl sha256_update (sha256_starts ctx) xss) = sha256_spec (concat xss)"
  using assms by (rule sha256_finish_spec)

theorem sha256_stream_witness:
  "sha256_finish (sha256_update (sha256_update (sha256_starts
     \<lparr>sha256_total0 = 0, sha256_total1 = 0, sha256_state = [], sha256_buffer = replicate 64 0\<rparr>) (bs ''ab'')) (bs ''c'')) = sha256_spec (bs ''abc'')"
  using sha256_stream [of "\<lparr>sha256_total0 = 0, sha256_total1 = 0, sha256_state = [], sha256_buffer = replicate 64 0\<rparr>" "[bs ''ab'', bs ''c'']"]
  by (simp add: sha256_ok_def)

end
