(* ===== verification/Fips.thy ===== *)
theory Fips
  imports Sha1 Sha256
begin

text \<open>
  The compression functions of FIPS 180 written as the standard has them (a message schedule of full
  length, rotations, \<open>Ch\<close>, \<open>Maj\<close> and \<open>Parity\<close>), and that the optimised code of \<open>lib/sha1.c\<close>, with its rolling
  schedule of 16 words and its rewritten round functions, and of \<open>lib/sha256.c\<close> computes them.
\<close>

definition Ch :: "u32 \<Rightarrow> u32 \<Rightarrow> u32 \<Rightarrow> u32" where
  "Ch x y z = (x AND y) XOR (NOT x AND z)"

definition Maj :: "u32 \<Rightarrow> u32 \<Rightarrow> u32 \<Rightarrow> u32" where
  "Maj x y z = (x AND y) XOR (x AND z) XOR (y AND z)"

definition Parity :: "u32 \<Rightarrow> u32 \<Rightarrow> u32 \<Rightarrow> u32" where
  "Parity x y z = x XOR y XOR z"

lemma Ch_eq: "z XOR (x AND (y XOR z)) = Ch x y z"
  by (rule bit_word_eqI) (auto simp: Ch_def bit_simps)

lemma Maj_eq: "(x AND y) OR (z AND (x OR y)) = Maj x y z"
  by (rule bit_word_eqI) (auto simp: Maj_def bit_simps)

definition block_words :: "bytes \<Rightarrow> u32 list" where
  "block_words M = map (\<lambda>i. GET_UINT32_BE M (4 * i)) [0..<16]"

lemma block_words_16:
  "map (GET_UINT32_BE M) [0, 4, 8, 12, 16, 20, 24, 28, 32, 36, 40, 44, 48, 52, 56, 60] = block_words M"
  by (simp add: block_words_def upt_rec)

lemma length_block_words [simp]: "length (block_words M) = 16"
  by (simp add: block_words_def)

subsection \<open>SHA-1\<close>

definition sha1_schedule :: "u32 list \<Rightarrow> nat \<Rightarrow> u32 list" where
  "sha1_schedule M n =
     fold (\<lambda>t W. W @ [word_rotl 1 (W ! (t - 3) XOR W ! (t - 8) XOR W ! (t - 14) XOR W ! (t - 16))]) [16..<n] M"

definition fips_f :: "nat \<Rightarrow> u32 \<Rightarrow> u32 \<Rightarrow> u32 \<Rightarrow> u32" where
  "fips_f t = (if t < 20 then Ch else if t < 40 then Parity else if t < 60 then Maj else Parity)"

definition fips_K :: "nat \<Rightarrow> u32" where
  "fips_K t = (if t < 20 then 0x5A827999 else if t < 40 then 0x6ED9EBA1 else if t < 60 then 0x8F1BBCDC else 0xCA62C1D6)"

fun fips_round :: "u32 list \<Rightarrow> nat \<Rightarrow> u32 \<times> u32 \<times> u32 \<times> u32 \<times> u32 \<Rightarrow> u32 \<times> u32 \<times> u32 \<times> u32 \<times> u32" where
  "fips_round W t (a, b, c, d, e) =
     (word_rotl 5 a + fips_f t b c d + e + fips_K t + W ! t, a, word_rotl 30 b, c, d)"

definition fips_sha1 :: "u32 list \<Rightarrow> bytes \<Rightarrow> u32 list" where
  "fips_sha1 H M =
     (let W = sha1_schedule (block_words M) 80;
          (a, b, c, d, e) = fold (fips_round W) [0..<80] (H ! 0, H ! 1, H ! 2, H ! 3, H ! 4)
      in [H ! 0 + a, H ! 1 + b, H ! 2 + c, H ! 3 + d, H ! 4 + e])"

lemma sha1_S_rotl: "0 < n \<Longrightarrow> n < 32 \<Longrightarrow> sha1_S x n = word_rotl n x"
proof (rule bit_word_eqI)
  fix i assume n: "0 < n" "n < 32" and i: "i < LENGTH(32)"
  show "bit (sha1_S x n) i \<longleftrightarrow> bit (word_rotl n x) i"
  proof (cases "n \<le> i")
    case True
    then have "(i + (32 - n)) mod 32 = i - n" using n i by (simp add: mod_if)
    then show ?thesis
      using True n i by (auto simp: sha1_S_def and_ffffffff bit_simps bit_word_rotl_iff dest: bit_u32_lt)
  next
    case False
    then have "(i + (32 - n)) mod 32 = 32 - n + i" using n i by simp
    then show ?thesis
      using False n i by (auto simp: sha1_S_def and_ffffffff bit_simps bit_word_rotl_iff)
  qed
qed

lemma schedule_length: "length M = 16 \<Longrightarrow> length (sha1_schedule M n) = max 16 n"
proof (induction n)
  case (Suc n)
  then show ?case
    by (cases "16 \<le> n") (simp_all add: sha1_schedule_def)
qed (simp add: sha1_schedule_def)

lemma schedule_prefix: "length M = 16 \<Longrightarrow> n \<le> m \<Longrightarrow> i < max 16 n \<Longrightarrow> sha1_schedule M m ! i = sha1_schedule M n ! i"
proof (induction m)
  case (Suc m)
  show ?case
  proof (cases "n = Suc m")
    case False
    then have "n \<le> m" using Suc.prems by simp
    moreover from this have "i < length (sha1_schedule M m)" using Suc.prems by (simp add: schedule_length)
    ultimately show ?thesis
      using Suc by (cases "16 \<le> m") (simp_all add: sha1_schedule_def nth_append)
  qed simp
qed simp

lemma schedule_next:
  assumes "length M = 16" "16 \<le> t" "t < n"
  shows "sha1_schedule M n ! t = word_rotl 1 (sha1_schedule M n ! (t - 3) XOR sha1_schedule M n ! (t - 8)
    XOR sha1_schedule M n ! (t - 14) XOR sha1_schedule M n ! (t - 16))"
proof -
  have p: "sha1_schedule M n ! i = sha1_schedule M t ! i" if "i < t" for i
    using assms that by (intro schedule_prefix) auto
  have "sha1_schedule M n ! t = sha1_schedule M (Suc t) ! t"
    using assms by (intro schedule_prefix) auto
  also have "\<dots> = word_rotl 1 (sha1_schedule M t ! (t - 3) XOR sha1_schedule M t ! (t - 8)
      XOR sha1_schedule M t ! (t - 14) XOR sha1_schedule M t ! (t - 16))"
    using assms schedule_length [OF assms(1), of t] by (simp add: sha1_schedule_def nth_append)
  finally show ?thesis using assms(2) by (simp add: p)
qed

text \<open>The rolling window: after round \<open>t\<close> it holds the last 16 words of the schedule.\<close>

definition window :: "u32 list \<Rightarrow> nat \<Rightarrow> u32 list \<Rightarrow> bool" where
  "window W t V \<longleftrightarrow> length V = 16 \<and> (\<forall>i. t \<le> i + 16 \<and> i < max 16 t \<longrightarrow> V ! (i mod 16) = W ! i)"

lemma window_step:
  assumes "window W t V" "16 \<le> t"
    "W ! t = word_rotl 1 (W ! (t - 3) XOR W ! (t - 8) XOR W ! (t - 14) XOR W ! (t - 16))"
  shows "window W (Suc t) (sha1_R V t)"
proof -
  have w: "V ! (i mod 16) = W ! i" if "t \<le> i + 16" "i < t" for i
    using assms(1,2) that by (auto simp: window_def)
  have t: "V ! (t mod 16) = W ! (t - 16)"
    using w [of "t - 16"] assms(2) by (simp add: le_mod_geq)
  have "sha1_R V t = V[t mod 16 := W ! t]"
    using w [of "t - 3"] w [of "t - 8"] w [of "t - 14"] assms(2,3) t
    by (simp add: sha1_R_def sha1_S_rotl)
  moreover have "(V[t mod 16 := W ! t]) ! (i mod 16) = W ! i" if i: "t < i + 16" "i \<le> t" for i
  proof (cases "i = t")
    case True
    then show ?thesis using assms(1) by (simp add: window_def)
  next
    case False
    have "i mod 16 \<noteq> t mod 16"
    proof
      assume "i mod 16 = t mod 16"
      then have "16 dvd t - i" using mod_eq_dvd_iff_nat [of i t 16] i by simp
      with i False show False using nat_dvd_not_less [of "t - i" 16] by simp
    qed
    then show ?thesis using w [of i] i False by simp
  qed
  ultimately show ?thesis using assms(1,2) by (simp add: window_def)
qed

lemma sha1_F_fips: "sha1_F t x y z = fips_f t x y z" "sha1_K t = fips_K t"
  by (auto simp: sha1_F_def fips_f_def sha1_K_def fips_K_def Ch_eq Maj_eq Parity_def)

lemma sha1_rounds:
  assumes "length M = 16" "t \<le> 80"
  shows "\<exists>V. fold sha1_P [0..<t] (M, s) = (V, fold (fips_round (sha1_schedule M 80)) [0..<t] s) \<and>
    window (sha1_schedule M 80) t V"
  using assms(2)
proof (induction t)
  case 0
  have "sha1_schedule M 0 = M" by (simp add: sha1_schedule_def)
  then have "sha1_schedule M 80 ! i = M ! i" if "i < 16" for i
    using schedule_prefix [OF assms(1), of 0 80 i] that by simp
  then show ?case using assms(1) by (simp add: window_def)
next
  case (Suc t)
  let ?W = "sha1_schedule M 80"
  obtain V where V: "fold sha1_P [0..<t] (M, s) = (V, fold (fips_round ?W) [0..<t] s)" "window ?W t V"
    using Suc by auto
  obtain a b c d e where s: "fold (fips_round ?W) [0..<t] s = (a, b, c, d, e)" by (metis prod_cases5)
  define V' where "V' = (if t < 16 then V else sha1_R V t)"
  have win: "window ?W (Suc t) V'"
  proof (cases "t < 16")
    case True
    then have "max 16 t = 16" "max 16 (Suc t) = 16" by simp_all
    then show ?thesis using V(2) True unfolding V'_def window_def by simp
  next
    case False
    then show ?thesis
      using window_step [OF V(2)] schedule_next [OF assms(1), of t 80] Suc.prems by (simp add: V'_def)
  qed
  then have "V' ! (t mod 16) = ?W ! t" by (auto simp: window_def)
  then show ?case
    using V(1) s win by (auto simp: V'_def [symmetric] sha1_F_fips sha1_S_rotl algebra_simps intro!: exI [of _ V'])
qed

subsection \<open>SHA-256\<close>

definition fips_sigma0 :: "u32 \<Rightarrow> u32" where
  "fips_sigma0 x = word_rotr 7 x XOR word_rotr 18 x XOR drop_bit 3 x"

definition fips_sigma1 :: "u32 \<Rightarrow> u32" where
  "fips_sigma1 x = word_rotr 17 x XOR word_rotr 19 x XOR drop_bit 10 x"

definition fips_Sigma0 :: "u32 \<Rightarrow> u32" where
  "fips_Sigma0 x = word_rotr 2 x XOR word_rotr 13 x XOR word_rotr 22 x"

definition fips_Sigma1 :: "u32 \<Rightarrow> u32" where
  "fips_Sigma1 x = word_rotr 6 x XOR word_rotr 11 x XOR word_rotr 25 x"

definition sha256_schedule :: "u32 list \<Rightarrow> nat \<Rightarrow> u32 list" where
  "sha256_schedule M n =
     fold (\<lambda>t W. W @ [fips_sigma1 (W ! (t - 2)) + W ! (t - 7) + fips_sigma0 (W ! (t - 15)) + W ! (t - 16)]) [16..<n] M"

text \<open>The constants of the standard: the fractional parts of the cube roots of the first 64 primes.\<close>

definition first_primes :: "nat list" where
  "first_primes = [2, 3, 5, 7, 11, 13, 17, 19, 23, 29, 31, 37, 41, 43, 47, 53, 59, 61, 67, 71, 73, 79, 83, 89, 97, 101,
     103, 107, 109, 113, 127, 131, 137, 139, 149, 151, 157, 163, 167, 173, 179, 181, 191, 193, 197, 199, 211, 223, 227,
     229, 233, 239, 241, 251, 257, 263, 269, 271, 277, 281, 283, 293, 307, 311]"

definition is_cbrt_frac :: "nat \<Rightarrow> u32 \<Rightarrow> bool" where
  "is_cbrt_frac p k \<longleftrightarrow>
     (let n = length (filter (\<lambda>c. c ^ 3 \<le> p) [1, 2, 3, 4, 5, 6, 7]) * 2 ^ 32 + unat k
      in n ^ 3 \<le> p * 2 ^ 96 \<and> p * 2 ^ 96 < (n + 1) ^ 3)"

fun fips_round256 ::
  "u32 list \<Rightarrow> nat \<Rightarrow> u32 \<times> u32 \<times> u32 \<times> u32 \<times> u32 \<times> u32 \<times> u32 \<times> u32
     \<Rightarrow> u32 \<times> u32 \<times> u32 \<times> u32 \<times> u32 \<times> u32 \<times> u32 \<times> u32" where
  "fips_round256 W t (a, b, c, d, e, f, g, h) =
     (let T1 = h + fips_Sigma1 e + Ch e f g + sha256_K ! t + W ! t;
          T2 = fips_Sigma0 a + Maj a b c
      in (T1 + T2, a, b, c, d + T1, e, f, g))"

definition fips_sha256 :: "u32 list \<Rightarrow> bytes \<Rightarrow> u32 list" where
  "fips_sha256 H M =
     (let W = sha256_schedule (block_words M) 64;
          (a, b, c, d, e, f, g, h) = fold (fips_round256 W) [0..<64] (H ! 0, H ! 1, H ! 2, H ! 3, H ! 4, H ! 5, H ! 6, H ! 7)
      in [H ! 0 + a, H ! 1 + b, H ! 2 + c, H ! 3 + d, H ! 4 + e, H ! 5 + f, H ! 6 + g, H ! 7 + h])"

lemma ROTR_rotr: "0 < n \<Longrightarrow> n < 32 \<Longrightarrow> sha256_ROTR x n = word_rotr n x"
proof (rule bit_word_eqI)
  fix i assume n: "0 < n" "n < 32" and i: "i < LENGTH(32)"
  show "bit (sha256_ROTR x n) i \<longleftrightarrow> bit (word_rotr n x) i"
  proof (cases "i + n < 32")
    case True
    then show ?thesis
      using n i by (auto simp: sha256_ROTR_def sha256_SHR_def and_ffffffff bit_simps bit_word_rotr_iff add.commute)
  next
    case False
    then have "(i + n) mod 32 = i - (32 - n)" using n i by (simp add: mod_if)
    then show ?thesis
      using False n i
      by (auto simp: sha256_ROTR_def sha256_SHR_def and_ffffffff bit_simps bit_word_rotr_iff add.commute dest: bit_u32_lt)
  qed
qed

lemmas sha256_fips_defs = sha256_S0_def sha256_S1_def sha256_S2_def sha256_S3_def sha256_F0_def sha256_F1_def
  fips_sigma0_def fips_sigma1_def fips_Sigma0_def fips_Sigma1_def

lemma sha256_functions:
  "sha256_S0 = fips_sigma0" "sha256_S1 = fips_sigma1" "sha256_S2 = fips_Sigma0" "sha256_S3 = fips_Sigma1"
  "sha256_F0 = Maj" "sha256_F1 = Ch"
  by (simp_all add: fun_eq_iff sha256_fips_defs ROTR_rotr sha256_SHR_def and_ffffffff Ch_eq Maj_eq)

lemma schedule256_length: "length M = 16 \<Longrightarrow> length (sha256_schedule M n) = max 16 n"
proof (induction n)
  case (Suc n)
  then show ?case by (cases "16 \<le> n") (simp_all add: sha256_schedule_def)
qed (simp add: sha256_schedule_def)

lemma schedule256_prefix:
  "length M = 16 \<Longrightarrow> n \<le> m \<Longrightarrow> i < max 16 n \<Longrightarrow> sha256_schedule M m ! i = sha256_schedule M n ! i"
proof (induction m)
  case (Suc m)
  show ?case
  proof (cases "n = Suc m")
    case False
    then have "n \<le> m" using Suc.prems by simp
    moreover from this have "i < length (sha256_schedule M m)" using Suc.prems by (simp add: schedule256_length)
    ultimately show ?thesis
      using Suc by (cases "16 \<le> m") (simp_all add: sha256_schedule_def nth_append)
  qed simp
qed simp

lemma sha256_rounds:
  assumes "length M = 16" "t \<le> 64"
  shows "fold sha256_P [0..<t] (M, s) =
    (sha256_schedule M t, fold (fips_round256 (sha256_schedule M 64)) [0..<t] s)"
  using assms(2)
proof (induction t)
  case 0
  have "sha256_schedule M 0 = M" by (simp add: sha256_schedule_def)
  then show ?case by simp
next
  case (Suc t)
  let ?W = "sha256_schedule M 64"
  obtain a b c d e f g h where s: "fold (fips_round256 ?W) [0..<t] s = (a, b, c, d, e, f, g, h)" by (metis surj_pair)
  have grow: "(if t < 16 then sha256_schedule M t else sha256_schedule M t @ [sha256_R (sha256_schedule M t) t])
      = sha256_schedule M (Suc t)"
    by (simp add: sha256_schedule_def sha256_R_def sha256_functions)
  have "sha256_schedule M (Suc t) ! t = ?W ! t"
    using schedule256_prefix [OF assms(1), of "Suc t" 64 t] Suc.prems by simp
  then show ?case using Suc s by (simp add: grow Let_def sha256_functions)
qed

subsection \<open>Properties\<close>

text \<open>
  C33: The compression function of \<open>lib/sha1.c\<close> is that of FIPS 180: the rolling window of 16 words, the
  rewritten round functions and the shift-and-or rotations compute the standard's 80 rounds over the
  schedule of 80 words.
\<close>

theorem sha1_compress_fips: "sha1_process H M = fips_sha1 H M"
proof -
  obtain V where "fold sha1_P [0..<80] (block_words M, H ! 0, H ! 1, H ! 2, H ! 3, H ! 4)
      = (V, fold (fips_round (sha1_schedule (block_words M) 80)) [0..<80] (H ! 0, H ! 1, H ! 2, H ! 3, H ! 4))"
    using sha1_rounds [of "block_words M" 80 "(H ! 0, H ! 1, H ! 2, H ! 3, H ! 4)"] by auto
  then show ?thesis
    unfolding sha1_process_def fips_sha1_def block_words_16 Let_def by (simp split: prod.split)
qed

text \<open>
  C34: The compression function of \<open>lib/sha256.c\<close> is that of FIPS 180, and its 64 round constants are the
  first 32 bits of the fractional parts of the cube roots of the first 64 primes.
\<close>

theorem sha256_compress_fips: "sha256_process H M = fips_sha256 H M \<and> list_all2 is_cbrt_frac first_primes sha256_K"
proof
  show "sha256_process H M = fips_sha256 H M"
    unfolding sha256_process_def fips_sha256_def block_words_16 Let_def
      sha256_rounds [OF length_block_words order_refl] by (simp only: prod.case)
  show "list_all2 is_cbrt_frac first_primes sha256_K"
    by (simp add: first_primes_def sha256_K_def is_cbrt_frac_def Let_def)
qed

end
