(* ===== verification/Md5.thy ===== *)
theory Md5
  imports Digest
begin

text \<open>
  MD5, \<open>lib/md5.c\<close>, on the little-endian target. \<open>byteReverse\<close> reads each word as little-endian
  and stores it back in the machine's byte order, so it changes nothing there
  (\<open>byteReverse_id\<close>). The 64 calls of \<open>MD5STEP\<close> have their four variables rotated by one each
  time; here the variables are rotated. \<open>MD5Update\<close> satisfies \<open>md_stream\<close>, and \<open>md5\<close> is the digest
  of the padded message.
\<close>

record MD5Context =
  md5_buf :: "u32 list"
  md5_bits0 :: u32
  md5_bits1 :: u32
  md5_in :: bytes

fun byteReverse :: "bytes \<Rightarrow> nat \<Rightarrow> bytes" where
  "byteReverse (b0 # b1 # b2 # b3 # buf) (Suc longs) =
     (let t = push_bit 16 ((push_bit 8 (ucast b3) OR ucast b2) :: u32) OR (push_bit 8 (ucast b1) OR ucast b0)
      in put_le32 t @ byteReverse buf longs)"
| "byteReverse buf longs = buf"

definition MD5Init :: "MD5Context \<Rightarrow> MD5Context" where
  "MD5Init ctx = ctx\<lparr>md5_buf := [0x67452301, 0xefcdab89, 0x98badcfe, 0x10325476], md5_bits0 := 0, md5_bits1 := 0\<rparr>"

definition md5_F1 :: "u32 \<Rightarrow> u32 \<Rightarrow> u32 \<Rightarrow> u32" where
  "md5_F1 x y z = z XOR (x AND (y XOR z))"

definition md5_F2 :: "u32 \<Rightarrow> u32 \<Rightarrow> u32 \<Rightarrow> u32" where
  "md5_F2 x y z = md5_F1 z x y"

definition md5_F3 :: "u32 \<Rightarrow> u32 \<Rightarrow> u32 \<Rightarrow> u32" where
  "md5_F3 x y z = x XOR y XOR z"

definition md5_F4 :: "u32 \<Rightarrow> u32 \<Rightarrow> u32 \<Rightarrow> u32" where
  "md5_F4 x y z = y XOR (x OR NOT z)"

text \<open>Per step: the index of the input word, the constant and the shift.\<close>

definition md5_steps :: "(nat \<times> u32 \<times> nat) list" where
  "md5_steps = [
     (0, 0xd76aa478, 7), (1, 0xe8c7b756, 12), (2, 0x242070db, 17), (3, 0xc1bdceee, 22),
     (4, 0xf57c0faf, 7), (5, 0x4787c62a, 12), (6, 0xa8304613, 17), (7, 0xfd469501, 22),
     (8, 0x698098d8, 7), (9, 0x8b44f7af, 12), (10, 0xffff5bb1, 17), (11, 0x895cd7be, 22),
     (12, 0x6b901122, 7), (13, 0xfd987193, 12), (14, 0xa679438e, 17), (15, 0x49b40821, 22),
     (1, 0xf61e2562, 5), (6, 0xc040b340, 9), (11, 0x265e5a51, 14), (0, 0xe9b6c7aa, 20),
     (5, 0xd62f105d, 5), (10, 0x02441453, 9), (15, 0xd8a1e681, 14), (4, 0xe7d3fbc8, 20),
     (9, 0x21e1cde6, 5), (14, 0xc33707d6, 9), (3, 0xf4d50d87, 14), (8, 0x455a14ed, 20),
     (13, 0xa9e3e905, 5), (2, 0xfcefa3f8, 9), (7, 0x676f02d9, 14), (12, 0x8d2a4c8a, 20),
     (5, 0xfffa3942, 4), (8, 0x8771f681, 11), (11, 0x6d9d6122, 16), (14, 0xfde5380c, 23),
     (1, 0xa4beea44, 4), (4, 0x4bdecfa9, 11), (7, 0xf6bb4b60, 16), (10, 0xbebfbc70, 23),
     (13, 0x289b7ec6, 4), (0, 0xeaa127fa, 11), (3, 0xd4ef3085, 16), (6, 0x04881d05, 23),
     (9, 0xd9d4d039, 4), (12, 0xe6db99e5, 11), (15, 0x1fa27cf8, 16), (2, 0xc4ac5665, 23),
     (0, 0xf4292244, 6), (7, 0x432aff97, 10), (14, 0xab9423a7, 15), (5, 0xfc93a039, 21),
     (12, 0x655b59c3, 6), (3, 0x8f0ccc92, 10), (10, 0xffeff47d, 15), (1, 0x85845dd1, 21),
     (8, 0x6fa87e4f, 6), (15, 0xfe2ce6e0, 10), (6, 0xa3014314, 15), (13, 0x4e0811a1, 21),
     (4, 0xf7537e82, 6), (11, 0xbd3af235, 10), (2, 0x2ad7d2bb, 15), (9, 0xeb86d391, 21)]"

definition md5_f :: "nat \<Rightarrow> u32 \<Rightarrow> u32 \<Rightarrow> u32 \<Rightarrow> u32" where
  "md5_f t = (if t < 16 then md5_F1 else if t < 32 then md5_F2 else if t < 48 then md5_F3 else md5_F4)"

fun MD5STEP :: "u32 list \<Rightarrow> nat \<Rightarrow> u32 \<times> u32 \<times> u32 \<times> u32 \<Rightarrow> u32 \<times> u32 \<times> u32 \<times> u32" where
  "MD5STEP inp t (w, x, y, z) =
     (let (k, c, s) = md5_steps ! t;
          w1 = w + (md5_f t x y z + (inp ! k + c));
          w2 = push_bit s w1 OR drop_bit (32 - s) w1
      in (z, w2 + x, x, y))"

definition MD5Transform :: "u32 list \<Rightarrow> u32 list \<Rightarrow> u32 list" where
  "MD5Transform buf inp =
     (let (a, b, c, d) = fold (MD5STEP inp) [0..<64] (buf ! 0, buf ! 1, buf ! 2, buf ! 3)
      in [buf ! 0 + a, buf ! 1 + b, buf ! 2 + c, buf ! 3 + d])"

text \<open>The buffer read as 32-bit words, the other member of the union.\<close>

definition in32 :: "bytes \<Rightarrow> u32 list" where
  "in32 b = map (\<lambda>i. le32 (b ! (4 * i)) (b ! (4 * i + 1)) (b ! (4 * i + 2)) (b ! (4 * i + 3))) [0..<16]"

function md5_loop :: "u32 list \<Rightarrow> bytes \<Rightarrow> bytes \<Rightarrow> u32 list \<times> bytes \<times> bytes" where
  "md5_loop st inb buf =
     (if length buf \<ge> 64
      then let inb' = byteReverse (splice inb 0 (take 64 buf)) 16
           in md5_loop (MD5Transform st (in32 inb')) inb' (drop 64 buf)
      else (st, inb, buf))"
  by pat_completeness auto
termination by (relation "measure (\<lambda>(st, inb, buf). length buf)") auto

declare md5_loop.simps [simp del]

text \<open>\<open>MD5Update\<close> after the bit count: the new chaining value and input buffer.\<close>

definition md5_feed :: "u32 list \<Rightarrow> bytes \<Rightarrow> nat \<Rightarrow> bytes \<Rightarrow> u32 list \<times> bytes" where
  "md5_feed st inb t buf =
     (let rem = 64 - t in
      if t \<noteq> 0 \<and> length buf < rem then (st, splice inb t buf)
      else let (st1, inb1, buf1) =
                 (if t \<noteq> 0
                  then let inb' = byteReverse (splice inb t (take rem buf)) 16
                       in (MD5Transform st (in32 inb'), inb', drop rem buf)
                  else (st, inb, buf));
               (st2, inb2, buf2) = md5_loop st1 inb1 buf1
           in (st2, splice inb2 0 buf2))"

definition MD5Update :: "MD5Context \<Rightarrow> bytes \<Rightarrow> MD5Context" where
  "MD5Update ctx buf =
     (let t = md5_bits0 ctx; len = word_of_nat (length buf) :: u32;
          b0 = t + push_bit 3 len;
          b1 = (if b0 < t then md5_bits1 ctx + 1 else md5_bits1 ctx) + drop_bit 29 len;
          (st, inb) = md5_feed (md5_buf ctx) (md5_in ctx) (unat (drop_bit 3 t AND 0x3f)) buf
      in ctx\<lparr>md5_bits0 := b0, md5_bits1 := b1, md5_buf := st, md5_in := inb\<rparr>)"

definition MD5Final :: "MD5Context \<Rightarrow> bytes" where
  "MD5Final ctx =
     (let count = unat (drop_bit 3 (md5_bits0 ctx) AND 0x3F);
          inb = (md5_in ctx)[count := 0x80];
          p = count + 1;
          count1 = 64 - 1 - count;
          (st, inb1) =
            (if count1 < 8
             then let inb' = byteReverse (splice inb p (replicate count1 0)) 16
                  in (MD5Transform (md5_buf ctx) (in32 inb'), splice inb' 0 (replicate 56 0))
             else (md5_buf ctx, splice inb p (replicate (count1 - 8) 0)));
          inb2 = byteReverse inb1 14;
          inb3 = splice inb2 56 (put_le32 (md5_bits0 ctx) @ put_le32 (md5_bits1 ctx));
          st1 = MD5Transform st (in32 inb3)
      in byteReverse (put_le32 (st1 ! 0) @ put_le32 (st1 ! 1) @ put_le32 (st1 ! 2) @ put_le32 (st1 ! 3)) 4)"

text \<open>The context is a local variable that is not initialised: it is an argument here.\<close>

definition md5 :: "MD5Context \<Rightarrow> bytes \<Rightarrow> bytes" where
  "md5 ctx input = MD5Final (MD5Update (MD5Init ctx) input)"

definition md5_wd :: "bool \<Rightarrow> MD5Context \<Rightarrow> bytes \<Rightarrow> nat \<Rightarrow> bytes option" where
  "md5_wd watchdog ctx input chunk_sz =
     map_option MD5Final
       (if watchdog then md_chunks MD5Update (MD5Init ctx) input chunk_sz else Some (MD5Update (MD5Init ctx) input))"

subsection \<open>The contract\<close>

lemma byteReverse_id [simp]: "byteReverse buf longs = buf"
proof (induction buf longs rule: byteReverse.induct)
  case (1 b0 b1 b2 b3 buf longs)
  have "push_bit 16 ((push_bit 8 (ucast b3) OR ucast b2) :: u32) OR (push_bit 8 (ucast b1) OR ucast b0) = le32 b0 b1 b2 b3"
    unfolding le32_def by (rule bit_word_eqI) (auto simp: bit_simps)
  with 1 show ?case by (simp add: put_le32_le32 Let_def)
qed auto

definition md5_process :: "u32 list \<Rightarrow> bytes \<Rightarrow> u32 list" where
  "md5_process st block = MD5Transform st (in32 block)"

definition md5_ok :: "MD5Context \<Rightarrow> bool" where
  "md5_ok ctx \<longleftrightarrow> length (md5_in ctx) = 64"

definition md5_pend :: "MD5Context \<Rightarrow> bytes" where
  "md5_pend ctx = take (unat (md5_bits0 ctx) div 8 mod 64) (md5_in ctx)"

definition md5_bits :: "MD5Context \<Rightarrow> nat" where
  "md5_bits ctx = byte_count (md5_bits1 ctx) (md5_bits0 ctx)"

lemma md5_loop_blocks:
  "length inb = 64 \<Longrightarrow> \<exists>inb'. md5_loop st inb buf = (fst (md_blocks md5_process st buf), inb', snd (md_blocks md5_process st buf)) \<and>
     length inb' = 64"
proof (induction st inb buf rule: md5_loop.induct)
  case (1 st inb buf)
  show ?case
  proof (cases "length buf \<ge> 64")
    case True
    then have s: "splice inb 0 (take 64 buf) = take 64 buf" using "1.prems" by (simp add: splice_def)
    from True "1.IH" show ?thesis
      by (simp add: md5_loop.simps [of st inb buf] md_blocks.simps [of _ st buf] s Let_def md5_process_def)
  next
    case False
    with "1.prems" show ?thesis
      by (simp add: md5_loop.simps [of st inb buf] md_blocks_short)
  qed
qed

lemma drop_3_and_63: "unat (drop_bit 3 (w :: u32) AND 0x3F) = unat w div 8 mod 64"
  unfolding and_63 unat_drop_bit_eq by (simp add: drop_bit_eq_div)

lemma byte_count_high: "byte_count (t1 + d) t0 = (byte_count t1 t0 + unat d * 2 ^ 32) mod 2 ^ 64"
proof -
  have "(x * 2 ^ 32 + r) mod 2 ^ 64 = x mod 2 ^ 32 * 2 ^ 32 + r" if "r < 2 ^ 32" for x r :: nat
    using mod_mult2_eq [of "x * 2 ^ 32 + r" "2 ^ 32" "2 ^ 32"] that by simp
  from this [of "unat t0" "unat t1 + unat d"]
  have "((unat t1 + unat d) * 2 ^ 32 + unat t0) mod 2 ^ 64 = (unat t1 + unat d) mod 2 ^ 32 * 2 ^ 32 + unat t0"
    by simp
  moreover have "byte_count t1 t0 + unat d * 2 ^ 32 = (unat t1 + unat d) * 2 ^ 32 + unat t0"
    unfolding byte_count_def add_mult_distrib by linarith
  ultimately show ?thesis by (simp only: byte_count_def [of "t1 + d"]) (simp add: unat_word_ariths)
qed

lemma wrap_less:
  fixes a b M :: nat
  assumes "a < M" "b < M"
  shows "(a + b) mod M < a \<longleftrightarrow> (a + b) mod M < b"
proof (cases "a + b < M")
  case False
  then have "(a + b) mod M = a + b - M" using assms by (simp add: mod_if)
  with False assms show ?thesis by linarith
qed simp

lemma md5_count:
  fixes t b1 :: u32
  assumes "n < 2 ^ 32"
  defines "len \<equiv> word_of_nat n :: u32"
  defines "t' \<equiv> t + push_bit 3 len"
  shows "byte_count ((if t' < t then b1 + 1 else b1) + drop_bit 29 len) t' = (byte_count b1 t + 8 * n) mod 2 ^ 64"
    "unat t' div 8 mod 64 = (unat t div 8 + n) mod 64"
proof -
  have n: "unat len = n" using assms(1) by (simp add: len_def unat_of_nat)
  let ?L0 = "8 * n mod 2 ^ 32"
  have L0: "unat (push_bit 3 len) = ?L0" by (simp add: push_bit_eq_mult unat_word_ariths n mult.commute)
  have L1: "unat (drop_bit 29 len) = 8 * n div 2 ^ 32"
    unfolding unat_drop_bit_eq n by (simp add: drop_bit_eq_div)
  have carry: "t' < t \<longleftrightarrow> t' < push_bit 3 len"
    unfolding t'_def word_less_nat_alt unat_word_ariths
    using wrap_less [of "unat t" "2 ^ LENGTH(32)" "unat (push_bit 3 len)"] by simp
  have p: "push_bit 3 len = word_of_nat ?L0" by (simp add: word_unat_eq_iff unat_of_nat L0)
  have "count_add b1 t ?L0 = (if t' < t then b1 + 1 else b1, t')"
    unfolding count_add_def Let_def and_ffffffff p [symmetric] using carry by (simp add: t'_def)
  note c = count_add_unat [OF _ this]
  have "byte_count ((if t' < t then b1 + 1 else b1) + drop_bit 29 len) t'
      = ((byte_count b1 t + ?L0) mod 2 ^ 64 + 8 * n div 2 ^ 32 * 2 ^ 32) mod 2 ^ 64"
    unfolding byte_count_high L1 using c(1) by simp
  also have "\<dots> = (byte_count b1 t + (?L0 + 8 * n div 2 ^ 32 * 2 ^ 32)) mod 2 ^ 64"
    by (simp only: mod_add_left_eq add.assoc)
  also have "?L0 + 8 * n div 2 ^ 32 * 2 ^ 32 = 8 * n" by (rule mod_div_mult_eq)
  finally show "byte_count ((if t' < t then b1 + 1 else b1) + drop_bit 29 len) t' = (byte_count b1 t + 8 * n) mod 2 ^ 64" .
  have "unat t' = (unat t + 8 * n) mod 2 ^ 32"
    unfolding t'_def unat_word_ariths L0 by (simp add: mod_simps)
  moreover have "x mod 2 ^ 32 div 8 mod 64 = x div 8 mod 64" for x :: nat
    using mod_mult2_eq [of x 8 "2 ^ 29"] by (simp add: mod_mod_cancel)
  ultimately show "unat t' div 8 mod 64 = (unat t div 8 + n) mod 64" by (simp add: add.commute)
qed

lemma md5_feed_blocks:
  assumes "length inb = 64" "t < 64"
  shows "\<exists>st' inb' rest. md5_feed st inb t buf = (st', inb') \<and> length inb' = 64 \<and>
    md_blocks md5_process st (take t inb @ buf) = (st', rest) \<and> take (length rest) inb' = rest"
proof (cases "t \<noteq> 0 \<and> length buf < 64 - t")
  case True
  then have "md_blocks md5_process st (take t inb @ buf) = (st, take t inb @ buf)"
    using assms by (intro md_blocks_short) (simp, linarith)
  with True assms show ?thesis by (auto simp: md5_feed_def splice_def)
next
  case False
  let ?blk = "splice inb t (take (64 - t) buf)"
  define st1 inb1 buf1 where "st1 = (if t \<noteq> 0 then md5_process st ?blk else st)"
    and "inb1 = (if t \<noteq> 0 then ?blk else inb)" and "buf1 = (if t \<noteq> 0 then drop (64 - t) buf else buf)"
  have blk: "?blk = take t inb @ take (64 - t) buf" "length ?blk = 64" if "t \<noteq> 0"
    using False that assms by (simp_all add: splice_def)
  have len: "length inb1 = 64" using blk assms(1) by (simp add: inb1_def)
  obtain st2 rest where r: "md_blocks md5_process st1 buf1 = (st2, rest)" by force
  obtain inb2 where l: "md5_loop st1 inb1 buf1 = (st2, inb2, rest)" "length inb2 = 64"
    using md5_loop_blocks [OF len, of st1 buf1] r by auto
  have "md_blocks md5_process st (take t inb @ buf) = (st2, rest)"
  proof (cases "t = 0")
    case False
    then have "take t inb @ buf = ?blk @ buf1" by (simp add: blk(1) buf1_def)
    then show ?thesis using md_blocks_block [OF blk(2) [OF False], of md5_process st buf1] r False
      by (simp add: st1_def)
  qed (use r in \<open>simp add: st1_def buf1_def\<close>)
  moreover have "md5_feed st inb t buf = (st2, splice inb2 0 rest)"
    using False l(1) by (auto simp: md5_feed_def Let_def st1_def inb1_def buf1_def md5_process_def)
  moreover have "length rest < 64" using md_blocks_rest [of md5_process st1 buf1] r by simp
  ultimately show ?thesis using l(2) by (auto simp: splice_def)
qed

interpretation md5: md_stream md5_process MD5Update md5_buf md5_pend md5_bits md5_ok "2 ^ 32"
proof
  fix c :: MD5Context and input :: bytes
  assume ok: "md5_ok c" and len: "length input < 2 ^ 32"
  let ?t = "unat (md5_bits0 c) div 8 mod 64"
  note cnt = md5_count [OF len, of "md5_bits0 c"]
  obtain st inb rest where f: "md5_feed (md5_buf c) (md5_in c) ?t input = (st, inb)" "length inb = 64"
    "md_blocks md5_process (md5_buf c) (md5_pend c @ input) = (st, rest)" "take (length rest) inb = rest"
    using md5_feed_blocks [of "md5_in c" ?t] ok by (fastforce simp: md5_ok_def md5_pend_def)
  have u: "md5_buf (MD5Update c input) = st" "md5_in (MD5Update c input) = inb"
      "md5_bits0 (MD5Update c input) = md5_bits0 c + push_bit 3 (word_of_nat (length input))"
    using f(1) by (simp_all add: MD5Update_def Let_def drop_3_and_63)
  show "md5_ok (MD5Update c input)" using u(2) f(2) by (simp add: md5_ok_def)
  have "length rest = length (md5_pend c @ input) mod 64"
    using md_blocks_rest [of md5_process "md5_buf c" "md5_pend c @ input"] f(3) by simp
  then have "length rest = unat (md5_bits0 (MD5Update c input)) div 8 mod 64"
    unfolding u(3) cnt(2) using ok by (simp add: md5_pend_def md5_ok_def mod_add_left_eq)
  then show "(md5_buf (MD5Update c input), md5_pend (MD5Update c input)) =
      md_blocks md5_process (md5_buf c) (md5_pend c @ input)"
    using u(1,2) f(3,4) by (simp add: md5_pend_def)
  show "md5_bits (MD5Update c input) = (md5_bits c + 8 * length input) mod 2 ^ 64"
    using f(1) unfolding md5_bits_def cnt(1) [symmetric] by (simp add: MD5Update_def Let_def drop_3_and_63)
next
  fix c assume "md5_ok c"
  have "unat (md5_bits1 c) \<le> 4294967295" "unat (md5_bits0 c) \<le> 4294967295"
    using unat_u32_lt [of "md5_bits1 c"] unat_u32_lt [of "md5_bits0 c"] by linarith+
  then show "md5_bits c < 2 ^ 64" by (simp add: md5_bits_def byte_count_def)
qed (simp add: md5_pend_def md5_ok_def)

subsection \<open>The digest\<close>

definition md5_iv :: "u32 list" where
  "md5_iv = [0x67452301, 0xefcdab89, 0x98badcfe, 0x10325476]"

definition le64 :: "nat \<Rightarrow> bytes" where
  "le64 n = put_le32 (word_of_nat n) @ put_le32 (word_of_nat (n div 2 ^ 32))"

definition md5_out :: "u32 list \<Rightarrow> bytes" where
  "md5_out st = concat (map (\<lambda>i. put_le32 (st ! i)) [0, 1, 2, 3])"

text \<open>The digest of a message: the chaining value after the blocks of the padded message.\<close>

definition md5_spec :: "bytes \<Rightarrow> bytes" where
  "md5_spec msg = md5_out (md_digest md5_process md5_iv le64 msg)"

lemma MD5Init_view:
  "md5_buf (MD5Init ctx) = md5_iv" "md5_pend (MD5Init ctx) = []" "md5_bits (MD5Init ctx) = 0"
  "md5_ok (MD5Init ctx) = md5_ok ctx"
  by (simp_all add: MD5Init_def md5_iv_def md5_pend_def md5_bits_def md5_ok_def byte_count_def)

lemma le64_bits: "put_le32 (md5_bits0 ctx) @ put_le32 (md5_bits1 ctx) = le64 (md5_bits ctx)"
proof -
  have "unat (word_of_nat (md5_bits ctx) :: u32) = unat (md5_bits0 ctx)"
    unfolding unat_of_nat by (simp add: md5_bits_def byte_count_def)
  then have "word_of_nat (md5_bits ctx) = md5_bits0 ctx" by (simp add: word_unat_eq_iff)
  moreover have "md5_bits ctx div 2 ^ 32 = unat (md5_bits1 ctx)"
    using unat_u32_lt [of "md5_bits0 ctx"] by (simp add: md5_bits_def byte_count_def)
  ultimately show ?thesis by (simp add: le64_def)
qed

lemma MD5Final_blocks:
  assumes "md5_ok ctx" "unat (md5_bits0 ctx) div 8 mod 64 = n mod 64"
  shows "MD5Final ctx = md5_out (fst (md_blocks md5_process (md5_buf ctx) (md5_pend ctx @ md_padding n @ le64 (md5_bits ctx))))"
proof -
  define c where "c = unat (md5_bits0 ctx) div 8 mod 64"
  define inb where "inb = (md5_in ctx)[c := 0x80]"
  have c: "c < 64" "c = n mod 64" using assms(2) by (simp_all add: c_def)
  have len: "length inb = 64" using assms(1) by (simp add: inb_def md5_ok_def)
  have pend: "take (c + 1) inb = md5_pend ctx @ [0x80]"
    using c(1) assms(1) by (simp add: inb_def md5_pend_def c_def [symmetric] md5_ok_def take_Suc_conv_app_nth)
  have plen: "length (md5_pend ctx) = c" using assms(1) by (simp add: md5_pend_def c_def md5_ok_def)
  let ?blk1 = "splice inb (c + 1) (replicate (63 - c) 0)"
  have fin: "MD5Final ctx = (if 63 - c < 8
      then md5_out (md5_process (md5_process (md5_buf ctx) ?blk1)
             (splice (splice ?blk1 0 (replicate 56 0)) 56 (le64 (md5_bits ctx))))
      else md5_out (md5_process (md5_buf ctx) (splice (splice inb (c + 1) (replicate (55 - c) 0)) 56 (le64 (md5_bits ctx)))))"
    unfolding MD5Final_def Let_def drop_3_and_63 c_def [symmetric] inb_def [symmetric] le64_bits byteReverse_id
    by (simp add: md5_process_def md5_out_def)
  show ?thesis
  proof (cases "63 - c < 8")
    case True
    then have z: "(119 - n mod 64) mod 64 = 119 - c" using c by simp
    let ?blk2 = "replicate 56 0 @ le64 (md5_bits ctx)"
    have b1: "?blk1 = md5_pend ctx @ 0x80 # replicate (63 - c) 0" "length ?blk1 = 64"
      using pend len c(1) plen unfolding splice_def pend by simp_all
    have "119 - c = (63 - c) + 56" using c(1) by simp
    then have r: "replicate (119 - c) (0::u8) = replicate (63 - c) 0 @ replicate 56 0" by (simp only: replicate_add)
    have msg: "md5_pend ctx @ md_padding n @ le64 (md5_bits ctx) = ?blk1 @ ?blk2 @ []"
      unfolding md_padding_def z r b1 by simp
    have b2: "length ?blk2 = 64" by (simp add: le64_def)
    have "md_blocks md5_process (md5_buf ctx) (md5_pend ctx @ md_padding n @ le64 (md5_bits ctx))
        = (md5_process (md5_process (md5_buf ctx) ?blk1) ?blk2, [])"
      unfolding msg md_blocks_block [OF b1(2)] md_blocks_block [OF b2] by (simp add: md_blocks_short)
    then have digest: "fst (md_blocks md5_process (md5_buf ctx) (md5_pend ctx @ md_padding n @ le64 (md5_bits ctx)))
        = md5_process (md5_process (md5_buf ctx) ?blk1) ?blk2" by (simp only: fst_conv)
    have second: "splice (splice ?blk1 0 (replicate 56 0)) 56 (le64 (md5_bits ctx)) = ?blk2"
      using b1(2) unfolding splice_def [of _ 56] splice_def [of _ 0] by (simp add: le64_def)
    show ?thesis unfolding fin if_P [OF True] second digest by (rule refl)
  next
    case False
    then have le: "c \<le> 55" by simp
    then have "119 - c = (55 - c) + 64" by simp
    then have z: "(119 - n mod 64) mod 64 = 55 - c" unfolding c(2) [symmetric] by (simp only: mod_add_self2) (use le in simp)
    let ?blk = "splice (splice inb (c + 1) (replicate (55 - c) 0)) 56 (le64 (md5_bits ctx))"
    have "splice inb (c + 1) (replicate (55 - c) 0) = (md5_pend ctx @ md_padding n) @ drop 56 inb"
      unfolding md_padding_def z using pend False c(1) by (simp add: splice_def)
    moreover have "length (md5_pend ctx @ md_padding n) = 56"
      unfolding md_padding_def z using plen False by simp
    ultimately have blk: "?blk = md5_pend ctx @ md_padding n @ le64 (md5_bits ctx)" "length ?blk = 64"
      using len by (simp_all add: splice_def le64_def)
    then have "md_blocks md5_process (md5_buf ctx) (?blk @ []) = (md5_process (md5_buf ctx) ?blk, [])"
      using md_blocks_block [OF blk(2), of md5_process "md5_buf ctx" "[]"] by (simp add: md_blocks_short)
    then show ?thesis using False blk(1) by (simp add: fin)
  qed
qed

lemma MD5Final_spec:
  assumes "md5_ok ctx" "\<forall>x \<in> set xss. length x < 2 ^ 32"
  shows "MD5Final (foldl MD5Update (MD5Init ctx) xss) = md5_spec (concat xss)"
proof -
  let ?c = "foldl MD5Update (MD5Init ctx) xss"
  have ok0: "md5_ok (MD5Init ctx)" using assms(1) by (simp add: MD5Init_view)
  note ch = md5.update_chunks [OF ok0 assms(2)]
  have "length (md5_pend ?c) = length (concat xss) mod 64"
    using ch md_blocks_rest [of md5_process md5_iv "concat xss"]
    by (auto simp: md5.view_def MD5Init_view) (metis snd_conv)
  then have "unat (md5_bits0 ?c) div 8 mod 64 = length (concat xss) mod 64"
    using ch by (simp add: md5_pend_def md5_ok_def)
  then have "MD5Final ?c = md5_out (fst (md_blocks md5_process (md5_buf ?c) (md5_pend ?c @ md_padding (length (concat xss)) @ le64 (md5_bits ?c))))"
    using ch by (intro MD5Final_blocks) simp
  also have "\<dots> = md5_spec (concat xss)"
    using md5.pad_blocks [OF ok0 _ _ assms(2), of ?c le64] by (simp add: md5_spec_def MD5Init_view)
  finally show ?thesis .
qed

subsection \<open>Properties\<close>

text \<open>
  However a message is cut into updates, \<open>MD5Final\<close> returns the digest of the padded message, with the
  bit count in little-endian order.
\<close>

theorem md5_stream:
  assumes "md5_ok ctx" "\<forall>x \<in> set xss. length x < 2 ^ 32"
  shows "MD5Final (foldl MD5Update (MD5Init ctx) xss) = md5_spec (concat xss)"
  using assms by (rule MD5Final_spec)

theorem md5_stream_witness:
  "MD5Final (MD5Update (MD5Init \<lparr>md5_buf = [], md5_bits0 = 0, md5_bits1 = 0, md5_in = replicate 64 0\<rparr>) (bs ''abc'')) = md5_spec (bs ''abc'')"
  using md5_stream [of "\<lparr>md5_buf = [], md5_bits0 = 0, md5_bits1 = 0, md5_in = replicate 64 0\<rparr>" "[bs ''abc'']"]
  by (simp add: md5_ok_def)

end
