(* ===== verification/Image.thy ===== *)
theory Image
  imports Cstring Crc Digest
begin

text \<open>
  The legacy image format of \<open>common/image.c\<close> and \<open>include/image.h\<close>: the header accessors, the two
  checksums, the table of a multi-component image, the ramdisk check, the chunked \<open>memmove_wd\<close> and the
  translation tables between identifiers and names.

  A header is an address in memory. Its 32-bit fields are big-endian (\<open>uimage_to_cpu\<close>); the target is
  little-endian, so the conversion swaps bytes. The tables are the ones of the target configuration: the
  \<open>LynxOS\<close>, \<open>ELF\<close>, \<open>INTEGRITY\<close> and host entries are not compiled in.
\<close>

subsection \<open>Header accessors\<close>

definition uimage_to_cpu :: "u32 \<Rightarrow> u32" where
  "uimage_to_cpu x =
     push_bit 24 (x AND 0xFF) OR push_bit 8 (x AND 0xFF00) OR (drop_bit 8 x AND 0xFF00) OR drop_bit 24 x"

definition cpu_to_uimage :: "u32 \<Rightarrow> u32" where
  "cpu_to_uimage = uimage_to_cpu"

definition IH_MAGIC :: u32 where "IH_MAGIC = 0x27051956"
definition IH_OS_LINUX :: u8 where "IH_OS_LINUX = 5"
definition IH_TYPE_RAMDISK :: u8 where "IH_TYPE_RAMDISK = 3"
definition CHUNKSZ_CRC32 :: nat where "CHUNKSZ_CRC32 = 64 * 1024"

definition image_get_header_size :: nat where
  "image_get_header_size = 64"

definition image_get_magic :: "mem \<Rightarrow> nat \<Rightarrow> u32" where
  "image_get_magic m hdr = uimage_to_cpu (load32 m hdr)"

definition image_get_hcrc :: "mem \<Rightarrow> nat \<Rightarrow> u32" where
  "image_get_hcrc m hdr = uimage_to_cpu (load32 m (hdr + 4))"

definition image_get_size :: "mem \<Rightarrow> nat \<Rightarrow> u32" where
  "image_get_size m hdr = uimage_to_cpu (load32 m (hdr + 12))"

definition image_get_dcrc :: "mem \<Rightarrow> nat \<Rightarrow> u32" where
  "image_get_dcrc m hdr = uimage_to_cpu (load32 m (hdr + 24))"

definition image_get_os :: "mem \<Rightarrow> nat \<Rightarrow> u8" where
  "image_get_os m hdr = m (hdr + 28)"

definition image_get_arch :: "mem \<Rightarrow> nat \<Rightarrow> u8" where
  "image_get_arch m hdr = m (hdr + 29)"

definition image_get_type :: "mem \<Rightarrow> nat \<Rightarrow> u8" where
  "image_get_type m hdr = m (hdr + 30)"

definition image_get_data_size :: "mem \<Rightarrow> nat \<Rightarrow> u32" where
  "image_get_data_size = image_get_size"

definition image_get_data :: "nat \<Rightarrow> nat" where
  "image_get_data hdr = hdr + image_get_header_size"

definition image_set_hcrc :: "mem \<Rightarrow> nat \<Rightarrow> u32 \<Rightarrow> mem" where
  "image_set_hcrc m hdr val = store32 m (hdr + 4) (cpu_to_uimage val)"

definition image_check_magic :: "mem \<Rightarrow> nat \<Rightarrow> bool" where
  "image_check_magic m hdr \<longleftrightarrow> image_get_magic m hdr = IH_MAGIC"

definition image_check_type :: "mem \<Rightarrow> nat \<Rightarrow> u8 \<Rightarrow> bool" where
  "image_check_type m hdr type \<longleftrightarrow> image_get_type m hdr = type"

definition image_check_arch :: "mem \<Rightarrow> nat \<Rightarrow> u8 \<Rightarrow> bool" where
  "image_check_arch m hdr arch \<longleftrightarrow> image_get_arch m hdr = arch"

definition image_check_os :: "mem \<Rightarrow> nat \<Rightarrow> u8 \<Rightarrow> bool" where
  "image_check_os m hdr os \<longleftrightarrow> image_get_os m hdr = os"

subsection \<open>Checksums\<close>

text \<open>\<open>sp\<close> is the address of the local copy of the header that \<open>image_check_hcrc\<close> blanks the CRC of.\<close>

definition image_check_hcrc :: "mem \<Rightarrow> nat \<Rightarrow> nat \<Rightarrow> bool" where
  "image_check_hcrc m sp hdr =
     (let len = image_get_header_size;
          m1 = memmove m sp hdr image_get_header_size;
          m2 = image_set_hcrc m1 sp 0;
          hcrc = crc32 sp 0 (bytes_at m2 sp len)
      in hcrc = image_get_hcrc m2 hdr)"

definition image_check_dcrc :: "bool \<Rightarrow> mem \<Rightarrow> nat \<Rightarrow> bool option" where
  "image_check_dcrc watchdog m hdr =
     (let data = image_get_data hdr;
          len = unat (image_get_data_size m hdr)
      in map_option (\<lambda>dcrc. dcrc = image_get_dcrc m hdr)
           (crc32_wd watchdog data 0 (bytes_at m data len) CHUNKSZ_CRC32))"

subsection \<open>Multi-component images\<close>

text \<open>The loop over the table of sizes ends only at a zero entry.\<close>

partial_function (option) image_multi_count_loop :: "mem \<Rightarrow> nat \<Rightarrow> nat \<Rightarrow> u32 \<Rightarrow> u32 option" where
  "image_multi_count_loop m sizes i cnt =
     (if load32 m (sizes + 4 * i) \<noteq> 0 then image_multi_count_loop m sizes (i + 1) (cnt + 1) else Some cnt)"

definition image_multi_count :: "mem \<Rightarrow> nat \<Rightarrow> u32 option" where
  "image_multi_count m hdr = image_multi_count_loop m (image_get_data hdr) 0 0"

text \<open>The loop over the indices below \<open>idx\<close>: \<open>n\<close> iterations starting at \<open>i\<close>.\<close>

primrec image_multi_offset :: "mem \<Rightarrow> nat \<Rightarrow> nat \<Rightarrow> nat \<Rightarrow> u32 \<Rightarrow> u32" where
  "image_multi_offset m sizes i 0 offset = offset"
| "image_multi_offset m sizes i (Suc n) offset =
     image_multi_offset m sizes (i + 1) n
       (offset + ((uimage_to_cpu (load32 m (sizes + 4 * i)) + 3) AND NOT 3))"

definition image_multi_getimg :: "mem \<Rightarrow> nat \<Rightarrow> u32 \<Rightarrow> (u32 \<times> u32) option" where
  "image_multi_getimg m hdr idx =
     map_option (\<lambda>cnt.
       let sizes = image_get_data hdr;
           img_data = word_of_nat (image_get_data hdr) + (cnt + 1) * 4
       in if idx < cnt
          then (img_data + image_multi_offset m sizes 0 (unat idx) 0,
                uimage_to_cpu (load32 m (sizes + 4 * unat idx)))
          else (0, 0))
     (image_multi_count m hdr)"

subsection \<open>The ramdisk\<close>

datatype ramdisk_result =
    Bad_Magic | Bad_Header_Checksum | Bad_Data_CRC | No_Linux_Ramdisk | Ramdisk nat

definition image_get_ramdisk :: "bool \<Rightarrow> mem \<Rightarrow> nat \<Rightarrow> nat \<Rightarrow> u8 \<Rightarrow> bool \<Rightarrow> ramdisk_result option" where
  "image_get_ramdisk watchdog m sp rd_addr arch verify =
     (let rd_hdr = rd_addr in
      if \<not> image_check_magic m rd_hdr then Some Bad_Magic
      else if \<not> image_check_hcrc m sp rd_hdr then Some Bad_Header_Checksum
      else Option.bind (if verify then image_check_dcrc watchdog m rd_hdr else Some True) (\<lambda>ok.
        if \<not> ok then Some Bad_Data_CRC
        else if \<not> image_check_os m rd_hdr IH_OS_LINUX \<or> \<not> image_check_arch m rd_hdr arch
             \<or> \<not> image_check_type m rd_hdr IH_TYPE_RAMDISK
        then Some No_Linux_Ramdisk
        else Some (Ramdisk rd_hdr)))"

subsection \<open>Copying in chunks\<close>

text \<open>As for \<open>crc32_wd\<close>, the first argument says whether a watchdog is configured.\<close>

partial_function (option) memmove_chunks :: "mem \<Rightarrow> nat \<Rightarrow> nat \<Rightarrow> nat \<Rightarrow> nat \<Rightarrow> mem option" where
  "memmove_chunks m to from_addr len chunksz =
     (if len > 0 then
        let tail = (if len > chunksz then chunksz else len) in
        memmove_chunks (memmove m to from_addr tail) (to + tail) (from_addr + tail) (len - tail) chunksz
      else Some m)"

definition memmove_wd :: "bool \<Rightarrow> mem \<Rightarrow> nat \<Rightarrow> nat \<Rightarrow> nat \<Rightarrow> nat \<Rightarrow> mem option" where
  "memmove_wd watchdog m to from_addr len chunksz =
     (if to = from_addr then Some m
      else if watchdog then memmove_chunks m to from_addr len chunksz
      else Some (memmove m to from_addr len))"

subsection \<open>Names and identifiers\<close>

record table_entry =
  tid :: int
  sname :: "bytes option"
  lname :: bytes

definition entry :: "int \<Rightarrow> bytes option \<Rightarrow> bytes \<Rightarrow> table_entry" where
  "entry i s l = \<lparr>tid = i, sname = s, lname = l\<rparr>"

definition uimage_arch :: "table_entry list" where
  "uimage_arch = [
    entry 0 None (bs ''Invalid ARCH''),
    entry 1 (Some (bs ''alpha'')) (bs ''Alpha''),
    entry 2 (Some (bs ''arm'')) (bs ''ARM''),
    entry 3 (Some (bs ''x86'')) (bs ''Intel x86''),
    entry 4 (Some (bs ''ia64'')) (bs ''IA64''),
    entry 12 (Some (bs ''m68k'')) (bs ''M68K''),
    entry 14 (Some (bs ''microblaze'')) (bs ''MicroBlaze''),
    entry 5 (Some (bs ''mips'')) (bs ''MIPS''),
    entry 6 (Some (bs ''mips64'')) (bs ''MIPS 64 Bit''),
    entry 15 (Some (bs ''nios2'')) (bs ''NIOS II''),
    entry 7 (Some (bs ''powerpc'')) (bs ''PowerPC''),
    entry 7 (Some (bs ''ppc'')) (bs ''PowerPC''),
    entry 8 (Some (bs ''s390'')) (bs ''IBM S390''),
    entry 9 (Some (bs ''sh'')) (bs ''SuperH''),
    entry 10 (Some (bs ''sparc'')) (bs ''SPARC''),
    entry 11 (Some (bs ''sparc64'')) (bs ''SPARC 64 Bit''),
    entry 16 (Some (bs ''blackfin'')) (bs ''Blackfin''),
    entry 17 (Some (bs ''avr32'')) (bs ''AVR32''),
    entry 20 (Some (bs ''nds32'')) (bs ''NDS32''),
    entry 21 (Some (bs ''or1k'')) (bs ''OpenRISC 1000''),
    entry (-1) (Some (bs '''')) (bs '''')]"

definition uimage_os :: "table_entry list" where
  "uimage_os = [
    entry 0 None (bs ''Invalid OS''),
    entry 5 (Some (bs ''linux'')) (bs ''Linux''),
    entry 2 (Some (bs ''netbsd'')) (bs ''NetBSD''),
    entry 22 (Some (bs ''ose'')) (bs ''Enea OSE''),
    entry 18 (Some (bs ''rtems'')) (bs ''RTEMS''),
    entry 17 (Some (bs ''u-boot'')) (bs ''U-Boot''),
    entry (-1) (Some (bs '''')) (bs '''')]"

definition uimage_type :: "table_entry list" where
  "uimage_type = [
    entry 13 (Some (bs ''aisimage'')) (bs ''Davinci AIS image''),
    entry 7 (Some (bs ''filesystem'')) (bs ''Filesystem Image''),
    entry 5 (Some (bs ''firmware'')) (bs ''Firmware''),
    entry 8 (Some (bs ''flat_dt'')) (bs ''Flat Device Tree''),
    entry 2 (Some (bs ''kernel'')) (bs ''Kernel Image''),
    entry 14 (Some (bs ''kernel_noload'')) (bs ''Kernel Image (no loading done)''),
    entry 9 (Some (bs ''kwbimage'')) (bs ''Kirkwood Boot Image''),
    entry 10 (Some (bs ''imximage'')) (bs ''Freescale i.MX Boot Image''),
    entry 0 None (bs ''Invalid Image''),
    entry 4 (Some (bs ''multi'')) (bs ''Multi-File Image''),
    entry 12 (Some (bs ''omapimage'')) (bs ''TI OMAP SPL With GP CH''),
    entry 3 (Some (bs ''ramdisk'')) (bs ''RAMDisk Image''),
    entry 6 (Some (bs ''script'')) (bs ''Script''),
    entry 1 (Some (bs ''standalone'')) (bs ''Standalone Program''),
    entry 11 (Some (bs ''ublimage'')) (bs ''Davinci UBL image''),
    entry (-1) (Some (bs '''')) (bs '''')]"

definition uimage_comp :: "table_entry list" where
  "uimage_comp = [
    entry 0 (Some (bs ''none'')) (bs ''uncompressed''),
    entry 2 (Some (bs ''bzip2'')) (bs ''bzip2 compressed''),
    entry 1 (Some (bs ''gzip'')) (bs ''gzip compressed''),
    entry 3 (Some (bs ''lzma'')) (bs ''lzma compressed''),
    entry 4 (Some (bs ''lzo'')) (bs ''lzo compressed''),
    entry (-1) (Some (bs '''')) (bs '''')]"

text \<open>A table ends in an entry with a negative identifier; \<open>None\<close> is a run past the end of a table without one.\<close>

primrec get_table_entry_name :: "table_entry list \<Rightarrow> bytes \<Rightarrow> int \<Rightarrow> bytes option" where
  "get_table_entry_name [] msg i = None"
| "get_table_entry_name (t # ts) msg i =
     (if tid t \<ge> 0 then (if tid t = i then Some (lname t) else get_table_entry_name ts msg i) else Some msg)"

definition genimg_get_os_name :: "u8 \<Rightarrow> bytes option" where
  "genimg_get_os_name os = get_table_entry_name uimage_os (bs ''Unknown OS'') (uint os)"

definition genimg_get_arch_name :: "u8 \<Rightarrow> bytes option" where
  "genimg_get_arch_name arch = get_table_entry_name uimage_arch (bs ''Unknown Architecture'') (uint arch)"

definition genimg_get_type_name :: "u8 \<Rightarrow> bytes option" where
  "genimg_get_type_name type = get_table_entry_name uimage_type (bs ''Unknown Image'') (uint type)"

definition genimg_get_comp_name :: "u8 \<Rightarrow> bytes option" where
  "genimg_get_comp_name c = get_table_entry_name uimage_comp (bs ''Unknown Compression'') (uint c)"

primrec get_table_entry_id :: "table_entry list \<Rightarrow> bytes \<Rightarrow> int option" where
  "get_table_entry_id [] name = None"
| "get_table_entry_id (t # ts) name =
     (if tid t \<ge> 0
      then (if (case sname t of Some s \<Rightarrow> strcmp_s s name = 0 | None \<Rightarrow> False) then Some (tid t)
            else get_table_entry_id ts name)
      else Some (-1))"

definition genimg_get_os_id :: "bytes \<Rightarrow> int option" where
  "genimg_get_os_id name = get_table_entry_id uimage_os name"

definition genimg_get_arch_id :: "bytes \<Rightarrow> int option" where
  "genimg_get_arch_id name = get_table_entry_id uimage_arch name"

definition genimg_get_type_id :: "bytes \<Rightarrow> int option" where
  "genimg_get_type_id name = get_table_entry_id uimage_type name"

definition genimg_get_comp_id :: "bytes \<Rightarrow> int option" where
  "genimg_get_comp_id name = get_table_entry_id uimage_comp name"

subsection \<open>Fields\<close>

definition be32_at :: "mem \<Rightarrow> nat \<Rightarrow> u32" where
  "be32_at m p = GET_UINT32_BE (bytes_at m p 4) 0"

lemma bit_le32:
  "bit (le32 a b c d) n \<longleftrightarrow>
     (if n < 8 then bit a n else if n < 16 then bit b (n - 8) else if n < 24 then bit c (n - 16) else bit d (n - 24))"
  unfolding le32_def
  by (cases "n < 8"; cases "n < 16"; cases "n < 24"; cases "n < 32")
     (auto simp: bit_or_iff bit_push_bit_iff bit_ucast_iff dest: bit_u8_lt)

lemma bit_uimage_to_cpu:
  "bit (uimage_to_cpu x) n \<longleftrightarrow>
     (if n < 8 then bit x (n + 24) else if n < 16 then bit x (n + 8) else if n < 24 then bit x (n - 8)
      else n < 32 \<and> bit x (n - 24))"
proof -
  have m: "(0xFF :: u32) = mask 8" "(0xFF00 :: u32) = push_bit 8 (mask 8)"
    by (simp_all add: mask_eq_exp_minus_1)
  show ?thesis
    unfolding uimage_to_cpu_def m
    by (cases "n < 8"; cases "n < 16"; cases "n < 24"; cases "n < 32")
       (auto simp: bit_or_iff bit_and_iff bit_push_bit_iff bit_drop_bit_eq bit_mask_iff add.commute dest: bit_u32_lt)
qed

lemma uimage_to_cpu_le32: "uimage_to_cpu (le32 a b c d) = le32 d c b a"
proof (rule bit_word_eqI)
  fix n assume "n < LENGTH(32)"
  then show "bit (uimage_to_cpu (le32 a b c d)) n \<longleftrightarrow> bit (le32 d c b a) n"
    by (cases "n < 8"; cases "n < 16"; cases "n < 24") (simp_all add: bit_uimage_to_cpu bit_le32 less_diff_conv2)
qed

lemma load32_le32: "load32 m p = le32 (m p) (m (p + 1)) (m (p + 2)) (m (p + 3))"
  by (simp add: load32_def le32_def)

lemma uimage_to_cpu_load32: "uimage_to_cpu (load32 m p) = be32_at m p"
  unfolding load32_le32 uimage_to_cpu_le32 be32_at_def bytes_at_4
  by (simp add: le32_def GET_UINT32_BE_def or.commute or.left_commute)

lemma load32_zero: "load32 m p = 0 \<longleftrightarrow> bytes_at m p 4 = [0, 0, 0, 0]"
proof -
  have "load32 m p = 0 \<longleftrightarrow> load32 m p = le32 0 0 0 0" by (simp add: le32_def)
  then show ?thesis unfolding load32_le32 le32_inj bytes_at_4 by simp
qed

lemma image_set_hcrc_0: "image_set_hcrc m p 0 = store m (p + 4) [0, 0, 0, 0]"
  by (simp add: image_set_hcrc_def cpu_to_uimage_def uimage_to_cpu_def store32_def store_4)

subsection \<open>The checks as predicates on bytes\<close>

definition blanked :: "mem \<Rightarrow> nat \<Rightarrow> bytes" where
  "blanked m hdr = bytes_at m hdr 4 @ [0, 0, 0, 0] @ bytes_at m (hdr + 8) 56"

lemma crc32_addr: "crc32 addr crc p = crc32 0 crc p"
  by (simp add: crc32_eq)

lemma check_dcrc_iff:
  "image_check_dcrc watchdog m hdr =
     Some (crc32 0 0 (bytes_at m (hdr + 64) (unat (be32_at m (hdr + 12)))) = be32_at m (hdr + 24))"
  unfolding image_check_dcrc_def crc32_wd_def Let_def
  by (simp add: crc32_chunks_eq CHUNKSZ_CRC32_def image_get_data_def image_get_header_size_def
      image_get_data_size_def image_get_size_def image_get_dcrc_def uimage_to_cpu_load32 crc32_addr [of "hdr + 64"])

lemma bytes_at_blank: "bytes_at (store (store m sp (bytes_at m hdr 64)) (sp + 4) [0, 0, 0, 0]) sp 64 = blanked m hdr"
proof (rule nth_equalityI)
  fix i assume "i < length (bytes_at (store (store m sp (bytes_at m hdr 64)) (sp + 4) [0, 0, 0, 0]) sp 64)"
  then have i: "i < 64" by simp
  consider "i < 4" | "4 \<le> i" "i < 8" | "8 \<le> i" by linarith
  then show "bytes_at (store (store m sp (bytes_at m hdr 64)) (sp + 4) [0, 0, 0, 0]) sp 64 ! i = blanked m hdr ! i"
    using i by cases (simp_all add: blanked_def store_def nth_append nth_Cons' less_diff_conv2)
qed (simp add: blanked_def)

lemma check_hcrc_iff:
  assumes "sp + 64 \<le> hdr \<or> hdr + 64 \<le> sp"
  shows "image_check_hcrc m sp hdr \<longleftrightarrow> crc32 0 0 (blanked m hdr) = be32_at m (hdr + 4)"
proof -
  let ?m2 = "store (store m sp (bytes_at m hdr 64)) (sp + 4) [0, 0, 0, 0]"
  have "bytes_at ?m2 (hdr + 4) 4 = bytes_at m (hdr + 4) 4"
    using assms by (intro bytes_at_cong) (auto simp: store_def)
  then have "be32_at ?m2 (hdr + 4) = be32_at m (hdr + 4)" by (simp add: be32_at_def)
  then show ?thesis
    unfolding image_check_hcrc_def Let_def image_get_header_size_def memmove_store image_set_hcrc_0
      image_get_hcrc_def uimage_to_cpu_load32 bytes_at_blank by (simp add: crc32_addr [of sp])
qed

lemma crc32_window:
  assumes "length xs = length ys" "k + 4 \<le> length xs" "xs \<noteq> ys"
    and same: "\<And>i. i < length xs \<Longrightarrow> i < k \<or> k + 4 \<le> i \<Longrightarrow> xs ! i = ys ! i"
  shows "crc32 a c xs \<noteq> crc32 a c ys"
proof -
  have split: "zs = take k zs @ take 4 (drop k zs) @ drop (k + 4) zs" for zs :: bytes
    by (metis append_take_drop_id drop_drop add.commute)
  have t: "take k xs = take k ys" and d: "drop (k + 4) xs = drop (k + 4) ys"
    using assms by (auto intro!: nth_equalityI)
  have "take 4 (drop k xs) \<noteq> take 4 (drop k ys)"
    using split [of xs] split [of ys] t d assms(3) by metis
  moreover have "length (take 4 (drop k xs)) = 4" "length (take 4 (drop k ys)) = 4"
    using assms(1,2) by simp_all
  ultimately have "crc32 a c (take k xs @ take 4 (drop k xs) @ drop (k + 4) xs)
      \<noteq> crc32 a c (take k xs @ take 4 (drop k ys) @ drop (k + 4) xs)"
    by (intro crc32_burst)
  then show ?thesis using split [of xs] split [of ys] t d by metis
qed

definition confined :: "mem \<Rightarrow> mem \<Rightarrow> nat \<Rightarrow> bool" where
  "confined m m' a \<longleftrightarrow> (\<forall>x. x < a \<or> a + 4 \<le> x \<longrightarrow> m' x = m x) \<and> bytes_at m' a 4 \<noteq> bytes_at m a 4"

lemma confined_same: "confined m m' a \<Longrightarrow> p + n \<le> a \<or> a + 4 \<le> p \<Longrightarrow> bytes_at m' p n = bytes_at m p n"
  by (intro bytes_at_cong) (auto simp: confined_def)

lemma confined_crc:
  assumes c: "confined m m' a" and in_range: "p \<le> a" "a + 4 \<le> p + n"
  shows "crc32 0 0 (bytes_at m' p n) \<noteq> crc32 0 0 (bytes_at m p n)"
proof -
  have "bytes_at m' p n \<noteq> bytes_at m p n"
  proof
    assume eq: "bytes_at m' p n = bytes_at m p n"
    have "bytes_at m' a 4 = bytes_at m a 4"
    proof (rule bytes_at_cong)
      fix i :: nat assume "i < 4"
      then have "a - p + i < n" "p + (a - p + i) = a + i" using in_range by auto
      then show "m' (a + i) = m (a + i)" using eq nth_bytes_at [of "a - p + i" n m' p] nth_bytes_at [of "a - p + i" n m p]
        by simp
    qed
    then show False using c by (simp add: confined_def)
  qed
  then show ?thesis
    using c in_range by (intro crc32_window [of _ _ "a - p"]) (auto simp: confined_def)
qed

lemma GET_be_le32: "GET_UINT32_BE [a, b, c, d] 0 = le32 d c b a"
  by (simp add: le32_def GET_UINT32_BE_def or.commute or.left_commute)

lemma GET_be_inj: "GET_UINT32_BE [a, b, c, d] 0 = GET_UINT32_BE [a', b', c', d'] 0 \<longleftrightarrow> [a, b, c, d] = [a', b', c', d']"
  unfolding GET_be_le32 le32_inj by auto

lemma blanked_crc:
  assumes c: "confined m m' a" and r: "p \<le> a" "a + 4 \<le> p + 64" and out: "a + 4 \<le> p + 4 \<or> p + 8 \<le> a"
  shows "crc32 0 0 (blanked m' p) \<noteq> crc32 0 0 (blanked m p)"
proof -
  have nth: "blanked x p ! i = (if 4 \<le> i \<and> i < 8 then 0 else x (p + i))" if "i < 64" for x i
    using that by (cases "i < 4"; cases "i < 8") (simp_all add: blanked_def nth_append nth_Cons' less_diff_conv2)
  have len: "length (blanked x p) = 64" for x by (simp add: blanked_def)
  obtain j where j: "j < 4" "m' (a + j) \<noteq> m (a + j)"
    using c by (auto simp: confined_def bytes_at_def)
  have "blanked m' p ! (a - p + j) \<noteq> blanked m p ! (a - p + j)"
  proof -
    have q: "a - p + j < 64" "\<not> (4 \<le> a - p + j \<and> a - p + j < 8)" "p + (a - p + j) = a + j"
      using r out j(1) by auto
    show ?thesis unfolding nth [OF q(1)] if_not_P [OF q(2)] q(3) by (rule j(2))
  qed
  then have "blanked m' p \<noteq> blanked m p" by metis
  then show ?thesis
    using c r by (intro crc32_window [of _ _ "a - p"]) (auto simp: len nth confined_def)
qed

subsection \<open>Copying in chunks\<close>

lemma memmove_chunks_store:
  assumes "0 < chunksz"
  shows "to \<le> src \<or> src + len \<le> to \<Longrightarrow> memmove_chunks m to src len chunksz = Some (store m to (bytes_at m src len))"
proof (induction len arbitrary: m to src rule: less_induct)
  case (less len)
  show ?case
  proof (cases "len = 0")
    case True
    then show ?thesis by (subst memmove_chunks.simps) simp
  next
    case False
    define t where "t = (if len > chunksz then chunksz else len)"
    have t: "0 < t" "t \<le> len" using False assms by (simp_all add: t_def)
    let ?m = "store m to (bytes_at m src t)"
    have "memmove_chunks ?m (to + t) (src + t) (len - t) chunksz
        = Some (store ?m (to + t) (bytes_at ?m (src + t) (len - t)))"
      using less.prems t by (intro less.IH) auto
    moreover have "bytes_at ?m (src + t) (len - t) = bytes_at m (src + t) (len - t)"
      using less.prems t by (intro bytes_at_store_out) auto
    moreover have "store ?m (to + t) (bytes_at m (src + t) (len - t)) = store m to (bytes_at m src (t + (len - t)))"
      by (simp only: bytes_at_append store_append) simp
    ultimately show ?thesis
      using False t by (subst memmove_chunks.simps) (simp add: memmove_store t_def [symmetric])
  qed
qed

subsection \<open>The layout of a multi-component image\<close>

definition pad4 :: "bytes \<Rightarrow> bytes" where
  "pad4 p = p @ replicate ((4 - length p mod 4) mod 4) 0"

definition size_table :: "bytes list \<Rightarrow> bytes" where
  "size_table parts = concat (map (\<lambda>p. PUT_UINT32_BE (word_of_nat (length p))) parts)"

definition multi_payload :: "bytes list \<Rightarrow> bytes" where
  "multi_payload parts = size_table parts @ [0, 0, 0, 0] @ concat (map pad4 parts)"

lemma le32_split: "le32 (ucast w) (ucast (drop_bit 8 w)) (ucast (drop_bit 16 w)) (ucast (drop_bit 24 w)) = w"
proof (rule bit_word_eqI)
  fix n assume "n < LENGTH(32)"
  then show "bit (le32 (ucast w) (ucast (drop_bit 8 w)) (ucast (drop_bit 16 w)) (ucast (drop_bit 24 w))) n \<longleftrightarrow> bit w n"
    by (cases "n < 8"; cases "n < 16"; cases "n < 24")
       (simp_all add: bit_le32 bit_ucast_iff bit_drop_bit_eq less_diff_conv2)
qed

lemma be_round: "GET_UINT32_BE (PUT_UINT32_BE w) 0 = w"
  using le32_split [of w] unfolding GET_UINT32_BE_def PUT_UINT32_BE_def le32_def
  by (simp add: or.commute or.left_commute)

lemma PUT_zero: "PUT_UINT32_BE w = [0, 0, 0, 0] \<longleftrightarrow> w = 0"
proof
  assume "PUT_UINT32_BE w = [0, 0, 0, 0]"
  then show "w = 0" using be_round [of w] by (simp add: GET_UINT32_BE_def)
qed (simp add: PUT_UINT32_BE_def)

lemma length_PUT [simp]: "length (PUT_UINT32_BE w) = 4"
  by (simp add: PUT_UINT32_BE_def)

lemma size_table_simps:
  "size_table [] = []" "size_table (p # ps) = PUT_UINT32_BE (word_of_nat (length p)) @ size_table ps"
  "size_table (ps @ qs) = size_table ps @ size_table qs" "length (size_table ps) = 4 * length ps"
  by (simp_all add: size_table_def, induction ps, simp_all)

lemma bytes_at_sub:
  assumes "bytes_at m p (length (xs @ ys @ zs)) = xs @ ys @ zs"
  shows "bytes_at m (p + length xs) (length ys) = ys"
  using assms by (simp add: bytes_at_append)

definition multi_at :: "mem \<Rightarrow> nat \<Rightarrow> bytes list \<Rightarrow> bool" where
  "multi_at m d parts \<longleftrightarrow> bytes_at m d (length (multi_payload parts)) = multi_payload parts"

lemma multi_entry:
  assumes "multi_at m d (xs @ p # ys)" "p \<noteq> []" "length p < 2 ^ 32"
  shows "uimage_to_cpu (load32 m (d + 4 * length xs)) = word_of_nat (length p)" "load32 m (d + 4 * length xs) \<noteq> 0"
proof -
  let ?w = "word_of_nat (length p) :: u32"
  have pay: "multi_payload (xs @ p # ys) = size_table xs @ PUT_UINT32_BE ?w
      @ (size_table ys @ [0, 0, 0, 0] @ concat (map pad4 (xs @ p # ys)))"
    by (simp add: multi_payload_def size_table_simps)
  have b: "bytes_at m (d + 4 * length xs) 4 = PUT_UINT32_BE ?w"
    using bytes_at_sub [OF assms(1) [unfolded multi_at_def pay]] by (simp only: size_table_simps length_PUT)
  then show "uimage_to_cpu (load32 m (d + 4 * length xs)) = ?w"
    by (simp add: uimage_to_cpu_load32 be32_at_def be_round)
  have "unat ?w = length p" using assms(3) by (simp add: unat_of_nat)
  then have "?w \<noteq> 0" using assms(2) by (auto simp: word_unat_eq_iff)
  then show "load32 m (d + 4 * length xs) \<noteq> 0" by (simp add: load32_zero b PUT_zero)
qed

lemma multi_end:
  assumes "multi_at m d parts"
  shows "load32 m (d + 4 * length parts) = 0"
proof -
  have four: "length [0, 0, 0, 0 :: u8] = 4" by simp
  show ?thesis
    using bytes_at_sub [OF assms [unfolded multi_at_def multi_payload_def]]
    unfolding four size_table_simps load32_zero .
qed

lemma multi_count_loop:
  assumes "multi_at m d (xs @ ys)" "\<forall>p \<in> set ys. p \<noteq> [] \<and> length p < 2 ^ 32"
  shows "image_multi_count_loop m d (length xs) c = Some (c + word_of_nat (length ys))"
  using assms
proof (induction ys arbitrary: xs c)
  case Nil
  then show ?case using multi_end [of m d xs] by (subst image_multi_count_loop.simps) simp
next
  case (Cons p ys)
  have "load32 m (d + 4 * length xs) \<noteq> 0"
    using multi_entry(2) [OF Cons.prems(1)] Cons.prems(2) by simp
  then show ?case
    using Cons.IH [of "xs @ [p]" "c + 1"] Cons.prems
    by (subst image_multi_count_loop.simps) (simp add: algebra_simps)
qed

lemma length_pad4: "length (pad4 p) = 4 * ((length p + 3) div 4)"
proof -
  obtain q r where l: "length p = 4 * q + r" "r < 4" by (metis mod_less_divisor mult_div_mod_eq zero_less_numeral)
  then have "r = 0 \<or> r = 1 \<or> r = 2 \<or> r = 3" by auto
  then show ?thesis by (auto simp: pad4_def l(1))
qed

lemma clear_low_bits: "(w :: u32) AND NOT (mask k) = push_bit k (drop_bit k w)"
  by (rule bit_word_eqI) (auto simp: bit_simps not_less le_iff_add)

lemma round_up_4:
  assumes "l + 3 < 2 ^ 32"
  shows "((word_of_nat l + 3 :: u32) AND - 4) = 4 * word_of_nat ((l + 3) div 4)"
proof -
  let ?w = "word_of_nat (l + 3) :: u32"
  have u: "unat ?w = l + 3" using assms by (simp only: unat_of_nat) simp
  have m: "(- 4 :: u32) = NOT (mask 2)" by (simp add: mask_eq_exp_minus_1)
  have d: "drop_bit 2 ?w = word_of_nat ((l + 3) div 4)"
  proof (rule word_unat_eq_iff [THEN iffD2])
    have "(l + 3) div 4 < 2 ^ 32" using assms by simp
    then have "unat (word_of_nat ((l + 3) div 4) :: u32) = (l + 3) div 4" by (simp only: unat_of_nat) simp
    moreover have "unat (drop_bit 2 ?w) = (l + 3) div 4"
      unfolding unsigned_drop_bit_eq using take_bit_nat_eq_self [OF assms] by (simp only: u drop_bit_eq_div) simp
    ultimately show "unat (drop_bit 2 ?w) = unat (word_of_nat ((l + 3) div 4) :: u32)" by simp
  qed
  have "?w AND - 4 = push_bit 2 (word_of_nat ((l + 3) div 4))"
    unfolding m clear_low_bits d ..
  then show ?thesis by (simp add: push_bit_eq_mult mult.commute)
qed

lemma multi_offset:
  assumes "multi_at m d (xs @ ys @ zs)" "\<forall>p \<in> set ys. p \<noteq> [] \<and> length p + 3 < 2 ^ 32"
  shows "image_multi_offset m d (length xs) (length ys) off = off + word_of_nat (length (concat (map pad4 ys)))"
  using assms
proof (induction ys arbitrary: xs off)
  case (Cons p ys)
  have "uimage_to_cpu (load32 m (d + 4 * length xs)) = word_of_nat (length p)"
    using multi_entry(1) [of m d xs p "ys @ zs"] Cons.prems by simp
  then show ?case
    using Cons.IH [of "xs @ [p]"] Cons.prems by (simp add: round_up_4 length_pad4 algebra_simps)
qed simp

subsection \<open>A well-formed image\<close>

text \<open>
  The bytes of a header with correct checksums, as the image tool writes it: magic, header checksum, time,
  data size, load address, entry point, data checksum, the four codes and the name.
\<close>

definition header_tail :: "u32 \<Rightarrow> u32 \<Rightarrow> u32 \<Rightarrow> u8 \<Rightarrow> u8 \<Rightarrow> u8 \<Rightarrow> u8 \<Rightarrow> bytes \<Rightarrow> bytes \<Rightarrow> bytes" where
  "header_tail time load ep os arch typ cmp name dat =
     PUT_UINT32_BE time @ PUT_UINT32_BE (word_of_nat (length dat)) @ PUT_UINT32_BE load @ PUT_UINT32_BE ep
     @ PUT_UINT32_BE (crc32 0 0 dat) @ [os, arch, typ, cmp] @ name"

definition mk_image :: "u32 \<Rightarrow> u32 \<Rightarrow> u32 \<Rightarrow> u8 \<Rightarrow> u8 \<Rightarrow> u8 \<Rightarrow> u8 \<Rightarrow> bytes \<Rightarrow> bytes \<Rightarrow> bytes" where
  "mk_image time load ep os arch typ cmp name dat =
     (let t = header_tail time load ep os arch typ cmp name dat;
          hcrc = crc32 0 0 (PUT_UINT32_BE IH_MAGIC @ [0, 0, 0, 0] @ t)
      in PUT_UINT32_BE IH_MAGIC @ PUT_UINT32_BE hcrc @ t @ dat)"

definition at :: "mem \<Rightarrow> nat \<Rightarrow> bytes \<Rightarrow> bool" where
  "at m p xs \<longleftrightarrow> bytes_at m p (length xs) = xs"

lemma at_append: "at m p (xs @ ys) \<longleftrightarrow> at m p xs \<and> at m (p + length xs) ys"
  by (auto simp: at_def bytes_at_append)

lemma at_store: "at (store m p xs) p xs"
  by (simp add: at_def)

lemma at_word: "at m p (PUT_UINT32_BE w) \<Longrightarrow> be32_at m p = w"
  by (simp add: at_def be32_at_def be_round)

lemma mk_image_fields:
  assumes "at m p (mk_image time load ep os arch typ cmp name dat)" "length name = 32" "length dat < 2 ^ 32"
  shows "be32_at m p = IH_MAGIC" "unat (be32_at m (p + 12)) = length dat" "be32_at m (p + 24) = crc32 0 0 dat"
    "m (p + 28) = os" "m (p + 29) = arch" "m (p + 30) = typ" "bytes_at m (p + 64) (length dat) = dat"
    "be32_at m (p + 4) = crc32 0 0 (blanked m p)"
proof -
  let ?t = "header_tail time load ep os arch typ cmp name dat"
  have lt: "length ?t = 56" by (simp add: header_tail_def assms(2))
  have parts: "at m p (PUT_UINT32_BE IH_MAGIC)"
    "at m (p + 4) (PUT_UINT32_BE (crc32 0 0 (PUT_UINT32_BE IH_MAGIC @ [0, 0, 0, 0] @ ?t)))"
    "at m (p + 8) ?t" "at m (p + 64) dat"
    using assms(1) lt by (simp_all add: mk_image_def Let_def at_append add.assoc)
  have fields: "at m (p + 12) (PUT_UINT32_BE (word_of_nat (length dat)))" "at m (p + 24) (PUT_UINT32_BE (crc32 0 0 dat))"
    "at m (p + 28) [os, arch, typ, cmp]"
    using parts(3) unfolding header_tail_def at_append by (simp_all add: add.assoc)
  show "be32_at m p = IH_MAGIC" by (rule at_word [OF parts(1)])
  show "unat (be32_at m (p + 12)) = length dat"
    unfolding at_word [OF fields(1)] using assms(3) by (simp only: unat_of_nat) simp
  show "be32_at m (p + 24) = crc32 0 0 dat" by (rule at_word [OF fields(2)])
  show "m (p + 28) = os" "m (p + 29) = arch" "m (p + 30) = typ"
    using fields(3) by (simp_all add: at_def eval_nat_numeral)
  show "bytes_at m (p + 64) (length dat) = dat" using parts(4) by (simp add: at_def)
  have "bytes_at m p 4 = PUT_UINT32_BE IH_MAGIC" "bytes_at m (p + 8) 56 = ?t"
    using parts(1,3) lt by (simp_all add: at_def)
  then show "be32_at m (p + 4) = crc32 0 0 (blanked m p)"
    unfolding at_word [OF parts(2)] blanked_def by simp
qed

lemma ramdisk_accepts:
  assumes "at m p (mk_image time load ep IH_OS_LINUX arch IH_TYPE_RAMDISK cmp name dat)" "length name = 32"
    "length dat < 2 ^ 32" "sp + 64 \<le> p \<or> p + 64 \<le> sp"
  shows "image_get_ramdisk watchdog m sp p arch verify = Some (Ramdisk p)"
proof -
  note f = mk_image_fields [OF assms(1-3)]
  have "image_check_magic m p" "image_check_hcrc m sp p" "image_check_dcrc watchdog m p = Some True"
    "image_check_os m p IH_OS_LINUX" "image_check_arch m p arch" "image_check_type m p IH_TYPE_RAMDISK"
    unfolding check_hcrc_iff [OF assms(4)] check_dcrc_iff
    by (simp_all add: image_check_magic_def image_get_magic_def uimage_to_cpu_load32 f image_check_os_def image_get_os_def
        image_check_arch_def image_get_arch_def image_check_type_def image_get_type_def)
  then show ?thesis by (simp add: image_get_ramdisk_def)
qed

definition demo_image :: bytes where
  "demo_image = mk_image 0 0 0 IH_OS_LINUX 2 IH_TYPE_RAMDISK 0 (replicate 32 0) [1, 2, 3, 4, 5, 6, 7, 8]"

definition demo_img_mem :: mem where
  "demo_img_mem = store (\<lambda>_. 0) 1000 demo_image"

lemma demo_accepted: "image_get_ramdisk watchdog demo_img_mem 0 1000 2 verify = Some (Ramdisk 1000)"
proof (rule ramdisk_accepts)
  show "at demo_img_mem 1000 (mk_image 0 0 0 IH_OS_LINUX 2 IH_TYPE_RAMDISK 0 (replicate 32 0) [1, 2, 3, 4, 5, 6, 7, 8])"
    unfolding demo_img_mem_def demo_image_def by (rule at_store)
qed simp_all

lemma demo_size: "unat (image_get_data_size demo_img_mem 1000) = 8"
proof -
  have "at demo_img_mem 1000 (mk_image 0 0 0 IH_OS_LINUX 2 IH_TYPE_RAMDISK 0 (replicate 32 0) [1, 2, 3, 4, 5, 6, 7, 8])"
    unfolding demo_img_mem_def demo_image_def by (rule at_store)
  from mk_image_fields(2) [OF this] show ?thesis
    by (simp add: image_get_data_size_def image_get_size_def uimage_to_cpu_load32)
qed

lemma demo_confined: "confined m (m(a := m a + 1)) a"
  by (auto simp: confined_def bytes_at_4)

subsection \<open>Properties\<close>

text \<open>
  C23: Every well-formed Linux ramdisk image is accepted: when the bytes at an address are a header with correct
  checksums followed by the data, the check returns the address, with or without verification and watchdog.
\<close>

theorem ramdisk_accepts_valid:
  assumes "at m p (mk_image time load ep IH_OS_LINUX arch IH_TYPE_RAMDISK cmp name dat)" "length name = 32"
    "length dat < 2 ^ 32" "sp + 64 \<le> p \<or> p + 64 \<le> sp"
  shows "image_get_ramdisk watchdog m sp p arch verify = Some (Ramdisk p)"
  using assms by (rule ramdisk_accepts)

theorem ramdisk_accepts_valid_witness:
  "image_get_ramdisk True (store (\<lambda>_. 0) 1000 (mk_image 0 0 0 IH_OS_LINUX 2 IH_TYPE_RAMDISK 0 (replicate 32 0) [1, 2, 3])) 0 1000 2 True
     = Some (Ramdisk 1000)"
  by (rule ramdisk_accepts_valid [OF at_store]) simp_all

text \<open>
  C21: A ramdisk image whose data was damaged is rejected: if an image is accepted with verification, then
  after any change confined to four consecutive bytes of its data the result is \<open>Bad Data CRC\<close>.
\<close>

theorem ramdisk_data_damage:
  assumes "image_get_ramdisk watchdog m sp rd_addr arch True = Some (Ramdisk rd_addr)"
    and "sp + 64 \<le> rd_addr \<or> rd_addr + 64 \<le> sp"
    and "confined m m' a" "rd_addr + 64 \<le> a" "a + 4 \<le> rd_addr + 64 + unat (image_get_data_size m rd_addr)"
  shows "image_get_ramdisk watchdog m' sp rd_addr arch True = Some Bad_Data_CRC"
proof -
  let ?n = "unat (be32_at m (rd_addr + 12))"
  have same: "bytes_at m' p n = bytes_at m p n" if "p + n \<le> rd_addr + 64" for p n
    using that assms(4) by (intro confined_same [OF assms(3)]) simp
  have fields: "be32_at m' (rd_addr + i) = be32_at m (rd_addr + i)" if "i \<le> 60" for i
    unfolding be32_at_def using same [of "rd_addr + i" 4] that by simp
  have fields0: "be32_at m' rd_addr = be32_at m rd_addr" using fields [of 0] by simp
  have "blanked m' rd_addr = blanked m rd_addr"
    unfolding blanked_def using same [of rd_addr 4] same [of "rd_addr + 8" 56] by simp
  then have h: "image_check_hcrc m' sp rd_addr = image_check_hcrc m sp rd_addr"
    unfolding check_hcrc_iff [OF assms(2)] by (simp add: fields)
  have mg: "image_check_magic m' rd_addr = image_check_magic m rd_addr"
    by (simp add: image_check_magic_def image_get_magic_def uimage_to_cpu_load32 fields0)
  have ok: "image_check_magic m rd_addr" "image_check_hcrc m sp rd_addr"
    "crc32 0 0 (bytes_at m (rd_addr + 64) ?n) = be32_at m (rd_addr + 24)"
    using assms(1) unfolding image_get_ramdisk_def Let_def check_dcrc_iff by (auto split: if_splits)
  have "crc32 0 0 (bytes_at m' (rd_addr + 64) ?n) \<noteq> crc32 0 0 (bytes_at m (rd_addr + 64) ?n)"
    using assms(4,5) by (intro confined_crc [OF assms(3)])
      (simp_all add: image_get_data_size_def image_get_size_def uimage_to_cpu_load32)
  then have "image_check_dcrc watchdog m' rd_addr = Some False"
    using ok(3) by (simp add: check_dcrc_iff fields)
  then show ?thesis using ok(1,2) h mg by (simp add: image_get_ramdisk_def)
qed

theorem ramdisk_data_damage_witness:
  "image_get_ramdisk True (demo_img_mem(1066 := demo_img_mem 1066 + 1)) 0 1000 2 True = Some Bad_Data_CRC"
  by (rule ramdisk_data_damage [OF demo_accepted _ demo_confined]) (simp_all add: demo_size)

text \<open>
  A header that was damaged is rejected: if an image passes the magic and the header checksum, then after
  any change confined to four consecutive bytes of its header, in the checksum field or apart from it, the
  result is a bad magic number or a bad header checksum, with or without verification.
\<close>

theorem ramdisk_header_damage:
  assumes "image_check_hcrc m sp rd_addr" "sp + 64 \<le> rd_addr \<or> rd_addr + 64 \<le> sp"
    and "confined m m' a" "rd_addr \<le> a" "a + 4 \<le> rd_addr + 64"
    and "a + 4 \<le> rd_addr + 4 \<or> a = rd_addr + 4 \<or> rd_addr + 8 \<le> a"
  shows "image_get_ramdisk watchdog m' sp rd_addr arch verify \<in> {Some Bad_Magic, Some Bad_Header_Checksum}"
proof -
  have crc: "crc32 0 0 (blanked m rd_addr) = be32_at m (rd_addr + 4)"
    using assms(1) unfolding check_hcrc_iff [OF assms(2)] .
  have "\<not> image_check_hcrc m' sp rd_addr"
  proof (cases "a = rd_addr + 4")
    case True
    have "blanked m' rd_addr = blanked m rd_addr"
      unfolding blanked_def using confined_same [OF assms(3), of rd_addr 4] confined_same [OF assms(3), of "rd_addr + 8" 56] True
      by simp
    moreover have "be32_at m' (rd_addr + 4) \<noteq> be32_at m (rd_addr + 4)"
      using assms(3) unfolding True confined_def be32_at_def bytes_at_4 GET_be_inj by blast
    ultimately show ?thesis unfolding check_hcrc_iff [OF assms(2)] using crc by metis
  next
    case False
    then have out: "a + 4 \<le> rd_addr + 4 \<or> rd_addr + 8 \<le> a" using assms(6) by blast
    have "be32_at m' (rd_addr + 4) = be32_at m (rd_addr + 4)"
      unfolding be32_at_def using confined_same [OF assms(3), of "rd_addr + 4" 4] out by auto
    moreover have "crc32 0 0 (blanked m' rd_addr) \<noteq> crc32 0 0 (blanked m rd_addr)"
      using blanked_crc [OF assms(3-5) out] .
    ultimately show ?thesis unfolding check_hcrc_iff [OF assms(2)] using crc by metis
  qed
  then show ?thesis by (simp add: image_get_ramdisk_def Let_def)
qed

theorem ramdisk_header_damage_witness:
  "image_get_ramdisk True (demo_img_mem(1016 := demo_img_mem 1016 + 1)) 0 1000 2 True \<in> {Some Bad_Magic, Some Bad_Header_Checksum}"
proof (rule ramdisk_header_damage [OF _ _ demo_confined])
  show "image_check_hcrc demo_img_mem 0 1000"
    using demo_accepted [of False False] by (auto simp: image_get_ramdisk_def Let_def split: if_splits)
qed simp_all

text \<open>
  C22: The components of a multi-component image are found where they were put. When the payload is the table of
  the sizes, a zero and the padded components, \<open>image_multi_count\<close> returns their number, \<open>image_multi_getimg\<close>
  returns for each index the size of that component and the address where exactly its bytes are, and an
  index beyond the last gives zeros.
\<close>

theorem multi_getimg_roundtrip:
  assumes "multi_at m (hdr + 64) parts" "\<forall>p \<in> set parts. p \<noteq> []"
    and "hdr + 64 + length (multi_payload parts) + 3 < 2 ^ 32"
  shows "image_multi_count m hdr = Some (word_of_nat (length parts)) \<and>
    (\<forall>i < length parts. \<exists>d. image_multi_getimg m hdr (word_of_nat i) = Some (d, word_of_nat (length (parts ! i))) \<and>
       bytes_at m (unat d) (length (parts ! i)) = parts ! i) \<and>
    (\<forall>idx. length parts \<le> unat idx \<longrightarrow> image_multi_getimg m hdr idx = Some (0, 0))"
proof -
  have small: "length p + 3 < 2 ^ 32" if "p \<in> set parts" for p
  proof -
    have "length p \<le> length (concat (map pad4 parts))"
      using that by (induction parts) (auto simp: pad4_def)
    then show ?thesis using assms(3) by (simp add: multi_payload_def)
  qed
  have n: "4 * length parts < 2 ^ 32" "unat (word_of_nat (length parts) :: u32) = length parts"
    using assms(3) by (simp_all add: multi_payload_def size_table_simps unat_of_nat)
  have "\<forall>p \<in> set parts. p \<noteq> [] \<and> length p < 2 ^ 32" using assms(2) small by fastforce
  then have cnt: "image_multi_count m hdr = Some (word_of_nat (length parts))"
    using multi_count_loop [of m "hdr + 64" "[]" parts 0] assms(1)
    by (simp add: image_multi_count_def image_get_data_def image_get_header_size_def)
  have comp: "\<exists>d. image_multi_getimg m hdr (word_of_nat i) = Some (d, word_of_nat (length (parts ! i))) \<and>
       bytes_at m (unat d) (length (parts ! i)) = parts ! i" if i: "i < length parts" for i
  proof -
    define xs ys where "xs = take i parts" and "ys = drop (Suc i) parts"
    have parts: "parts = xs @ parts ! i # ys" and lx: "length xs = i"
      using i by (simp_all add: xs_def ys_def id_take_nth_drop [symmetric])
    have "set xs \<subseteq> set parts" by (auto simp: xs_def dest: in_set_takeD)
    then have off: "image_multi_offset m (hdr + 64) 0 i 0 = word_of_nat (length (concat (map pad4 xs)))"
      using multi_offset [of m "hdr + 64" "[]" xs "parts ! i # ys" 0] assms(1,2) small parts lx by auto
    have sz: "uimage_to_cpu (load32 m (hdr + 64 + 4 * i)) = word_of_nat (length (parts ! i))"
      using multi_entry(1) [of m "hdr + 64" xs "parts ! i" ys] parts lx assms(1,2) small [OF nth_mem [OF i]] nth_mem [OF i]
      by auto
    have ui: "unat (word_of_nat i :: u32) = i" using n(1) i by (simp add: unat_of_nat)
    then have lt: "word_of_nat i < (word_of_nat (length parts) :: u32)" using i n(2) by (simp add: word_less_nat_alt)
    let ?a = "hdr + 64 + (4 * length parts + 4) + length (concat (map pad4 xs))"
    let ?d = "word_of_nat ?a :: u32"
    have get: "image_multi_getimg m hdr (word_of_nat i) = Some (?d, word_of_nat (length (parts ! i)))"
      using cnt lt off sz ui
      by (simp add: image_multi_getimg_def image_get_data_def image_get_header_size_def Let_def algebra_simps)
    have "concat (map pad4 parts) = concat (map pad4 xs) @ (parts ! i) @
        (replicate ((4 - length (parts ! i) mod 4) mod 4) 0 @ concat (map pad4 ys))"
      by (subst parts) (simp add: pad4_def)
    then have pay: "multi_payload parts = (size_table parts @ [0, 0, 0, 0] @ concat (map pad4 xs)) @ (parts ! i) @
        (replicate ((4 - length (parts ! i) mod 4) mod 4) 0 @ concat (map pad4 ys))"
      by (simp add: multi_payload_def)
    have pre: "length (size_table parts @ [0, 0, 0, 0] @ concat (map pad4 xs)) = 4 * length parts + 4 + length (concat (map pad4 xs))"
      by (simp add: size_table_simps)
    have "unat ?d = ?a" using assms(3) pay pre by (simp only: unat_of_nat) simp
    moreover have "bytes_at m ?a (length (parts ! i)) = parts ! i"
      using bytes_at_sub [OF assms(1) [unfolded multi_at_def pay]] unfolding pre by (simp add: add.assoc)
    ultimately show ?thesis using get by auto
  qed
  have "image_multi_getimg m hdr idx = Some (0, 0)" if "length parts \<le> unat idx" for idx
    using cnt that n(2) by (simp add: image_multi_getimg_def word_less_nat_alt)
  with cnt comp show ?thesis by blast
qed

theorem multi_getimg_roundtrip_witness:
  "\<exists>d. image_multi_getimg (store (\<lambda>_. 0) 164 (multi_payload [[1, 2, 3], [4, 5]])) 100 1 = Some (d, 2) \<and>
     bytes_at (store (\<lambda>_. 0) 164 (multi_payload [[1, 2, 3], [4, 5]])) (unat d) 2 = [4, 5]"
proof -
  let ?parts = "[[1, 2, 3], [4, 5 :: u8]]"
  let ?m = "store (\<lambda>_. 0) 164 (multi_payload ?parts)"
  have at: "multi_at ?m (100 + 64) ?parts" by (simp only: multi_at_def bytes_at_store_in numeral_plus_numeral add_num_simps)
  have "length (multi_payload ?parts) = 20" by (simp add: multi_payload_def size_table_def pad4_def)
  then have "\<forall>i < length ?parts. \<exists>d. image_multi_getimg ?m 100 (word_of_nat i) = Some (d, word_of_nat (length (?parts ! i))) \<and>
       bytes_at ?m (unat d) (length (?parts ! i)) = ?parts ! i"
    using multi_getimg_roundtrip [OF at] by simp
  from this [rule_format, of 1] show ?thesis by (simp add: numeral_2_eq_2)
qed

text \<open>
  \<open>memmove_wd\<close> copies like \<open>memmove\<close>, with or without a watchdog, when the areas do not overlap or the
  destination lies below the source; the loop ends for every chunk size but zero.
\<close>

theorem memmove_wd_correct:
  assumes "to \<le> src \<or> src + len \<le> to" "0 < chunksz"
  shows "memmove_wd watchdog m to src len chunksz = Some (memmove m to src len)"
proof (cases "to = src")
  case True
  then show ?thesis by (simp add: memmove_wd_def memmove_def)
next
  case False
  then show ?thesis using memmove_chunks_store [OF assms(2,1)] by (simp add: memmove_wd_def memmove_store)
qed

theorem memmove_wd_correct_witness: "memmove_wd True demo_img_mem 10 12 6 4 = Some (memmove demo_img_mem 10 12 6)"
  by (rule memmove_wd_correct) simp_all

text \<open>With a watchdog an overlapping copy upwards destroys the source: the chunks go from the front.\<close>

theorem memmove_wd_overlap:
  "\<exists>m'. memmove_wd True (\<lambda>a. word_of_nat a) 2 1 2 1 = Some m' \<and> m' 3 \<noteq> memmove (\<lambda>a. word_of_nat a) 2 1 2 3"
  by (simp add: memmove_wd_def memmove_chunks.simps memmove_store store_def numeral_eq_Suc)

definition names_ok :: "table_entry list \<Rightarrow> bool" where
  "names_ok t \<longleftrightarrow> tid (last t) = - 1 \<and>
     list_all (\<lambda>e. 0 \<le> tid e \<and> get_table_entry_name t [] (tid e) = Some (lname e) \<and>
       (case sname e of None \<Rightarrow> True | Some s \<Rightarrow> get_table_entry_id t s = Some (tid e))) (butlast t)"

text \<open>
  The translation tables are consistent: every short name in them is translated to the identifier of its
  entry, every identifier to the long name of its entry, and each table ends in the entry that stops both searches.
\<close>

theorem image_tables_ok: "names_ok uimage_arch \<and> names_ok uimage_os \<and> names_ok uimage_type \<and> names_ok uimage_comp"
  unfolding names_ok_def
  by (simp add: uimage_arch_def uimage_os_def uimage_type_def uimage_comp_def entry_def of_char_def)

end
