(* ===== verification/Tftp.thy ===== *)
theory Tftp
  imports Vsprintf_Text
begin

text \<open>
  The TFTP client of \<open>net/tftp.c\<close>, as the board builds it (\<open>CONFIG_CMD_TFTPPUT\<close> defined; no multicast, no
  \<open>tsize\<close> option, no server, no settable ports, no direct flash): a state machine driven by received
  packets, ICMP messages and the timer.

  \<^item> The record \<open>tftp\<close> holds the static variables with their C widths, the memory the file is loaded to or
    saved from, \<open>net_state\<close>, and \<open>calls\<close>, the calls the module makes to the network code in order (the
    packets it sends, the timer it sets, \<open>NetStartAgain\<close>, \<open>eth_halt\<close>). Progress output is left out.
  \<^item> A received packet is the buffer \<open>pk\<close> from its first payload byte on and its length \<open>len\<close>: the code
    reads some fields without looking at the length, and then reads what the buffer holds.
\<close>

datatype tftp_state = STATE_SEND_RRQ | STATE_DATA | STATE_TOO_LARGE | STATE_BAD_MAGIC | STATE_OACK
  | STATE_RECV_WRQ | STATE_SEND_WRQ

datatype net_loop_state = NETLOOP_CONTINUE | NETLOOP_RESTART | NETLOOP_SUCCESS | NETLOOP_FAIL

datatype net_call = NetSendUDPPacket nat bytes | NetSetTimeout u32 | NetStartAgain | eth_halt

record tftp =
  TftpRemotePort :: nat
  TftpOurPort :: nat
  TftpTimeoutMSecs :: u32
  TftpTimeoutCount :: nat
  TftpTimeoutCountMax :: nat
  TftpRRQTimeoutCountMax :: nat
  TftpBlock :: u32
  TftpLastBlock :: u32
  TftpBlockWrap :: u32
  TftpBlockWrapOffset :: u32
  TftpState :: tftp_state
  TftpWriting :: bool
  TftpFinalBlock :: bool
  tftp_filename :: bytes
  TftpBlkSize :: u16
  TftpBlkSizeOption :: u16
  NetBootFileXferSize :: u32
  t_load_addr :: u32
  t_save_addr :: u32
  t_save_size :: u32
  SDRAM_END :: u32
  ram :: mem
  net_state :: net_loop_state
  calls :: "net_call list"

definition WELL_KNOWN_PORT :: nat where "WELL_KNOWN_PORT = 69"
definition TIMEOUT_COUNT :: nat where "TIMEOUT_COUNT = 500 * 2"
definition TFTP_SEQUENCE_SIZE :: u32 where "TFTP_SEQUENCE_SIZE = 65536"
definition IPQ_TFTP_MAX_ADDR :: u32 where "IPQ_TFTP_MAX_ADDR = 0x87000000"
definition TZ_END_ADDR :: u32 where "TZ_END_ADDR = 0x88000000"
definition SYS_LOAD_ADDR :: u32 where "SYS_LOAD_ADDR = 0x84000000"

definition net_set_state :: "net_loop_state \<Rightarrow> tftp \<Rightarrow> tftp" where
  "net_set_state s st = st\<lparr>net_state := s\<rparr>"

definition call :: "net_call \<Rightarrow> tftp \<Rightarrow> tftp" where
  "call c st = st\<lparr>calls := calls st @ [c]\<rparr>"

text \<open>\<open>htons\<close> and \<open>ntohs\<close> of a field of a packet.\<close>

definition be16 :: "u16 \<Rightarrow> bytes" where
  "be16 w = [ucast (drop_bit 8 w), ucast w]"

definition ntohs :: "mem \<Rightarrow> nat \<Rightarrow> u16" where
  "ntohs pk i = push_bit 8 (ucast (pk i)) OR ucast (pk (i + 1))"

subsection \<open>Blocks\<close>

definition store_block :: "u32 \<Rightarrow> bytes \<Rightarrow> tftp \<Rightarrow> tftp" where
  "store_block block src st =
     (let offset = block * ucast (TftpBlkSize st) + TftpBlockWrapOffset st;
          newsize = offset + word_of_nat (length src);
          top = t_load_addr st + newsize
      in if top \<ge> SDRAM_END st \<or> top \<ge> IPQ_TFTP_MAX_ADDR \<and> top < TZ_END_ADDR
         then net_set_state NETLOOP_FAIL (st\<lparr>TftpState := STATE_TOO_LARGE\<rparr>)
         else let st = st\<lparr>ram := store (ram st) (unat (t_load_addr st + offset)) src\<rparr>
              in if NetBootFileXferSize st < newsize then st\<lparr>NetBootFileXferSize := newsize\<rparr> else st)"

definition new_transfer :: "tftp \<Rightarrow> tftp" where
  "new_transfer st = st\<lparr>TftpLastBlock := 0, TftpBlockWrap := 0, TftpBlockWrapOffset := 0, TftpFinalBlock := False\<rparr>"

text \<open>The bytes of the next block to send.\<close>

definition load_block :: "u32 \<Rightarrow> u32 \<Rightarrow> tftp \<Rightarrow> bytes" where
  "load_block block len st =
     (let offset = (block - 1) * len + TftpBlockWrapOffset st;
          tosend = min (NetBootFileXferSize st - offset) len
      in bytes_at (ram st) (unat (t_save_addr st + offset)) (unat tosend))"

definition restart :: "tftp \<Rightarrow> tftp" where
  "restart st = call NetStartAgain st"

definition update_block_number :: "tftp \<Rightarrow> tftp" where
  "update_block_number st =
     (if TftpBlock st = 0
      then st\<lparr>TftpBlockWrap := TftpBlockWrap st + 1,
              TftpBlockWrapOffset := TftpBlockWrapOffset st + ucast (TftpBlkSize st) * TFTP_SEQUENCE_SIZE,
              TftpTimeoutCount := 0\<rparr>
      else st)"

definition tftp_complete :: "tftp \<Rightarrow> tftp" where
  "tftp_complete st = net_set_state NETLOOP_SUCCESS st"

subsection \<open>Sending\<close>

text \<open>What \<open>sprintf\<close> leaves for a format without pointer arguments (\<open>vsnprintf_refines\<close>).\<close>

definition sprintf_text :: "bytes \<Rightarrow> varg list \<Rightarrow> bytes" where
  "sprintf_text fmt args = (case vs_text (\<lambda>_. 0) fmt args of None \<Rightarrow> [] | Some (t, _) \<Rightarrow> t)"

definition tftp_request :: "tftp \<Rightarrow> bytes" where
  "tftp_request st =
     be16 (if TftpState st = STATE_SEND_RRQ then 1 else 2) @
     tftp_filename st @ [0] @ bs ''octet'' @ [0] @ bs ''timeout'' @ [0] @
     sprintf_text (bs ''%lu'') [W32 (TftpTimeoutMSecs st div 1000)] @ [0] @
     sprintf_text (bs ''blksize%c%d%c'') [W32 0, W32 (ucast (TftpBlkSizeOption st)), W32 0]"

definition send_packet :: "bytes \<Rightarrow> tftp \<Rightarrow> tftp" where
  "send_packet payload st = call (NetSendUDPPacket (TftpRemotePort st) payload) st"

definition TftpSend :: "tftp \<Rightarrow> tftp" where
  "TftpSend st =
     (case TftpState st of
        STATE_SEND_RRQ \<Rightarrow> send_packet (tftp_request st) st
      | STATE_SEND_WRQ \<Rightarrow> send_packet (tftp_request st) st
      | STATE_TOO_LARGE \<Rightarrow> send_packet (be16 5 @ be16 3 @ bs ''File too large'' @ [0]) st
      | STATE_BAD_MAGIC \<Rightarrow> send_packet (be16 5 @ be16 2 @ bs ''File has bad magic'' @ [0]) st
      | _ \<Rightarrow>
          if TftpWriting st
          then let toload = ucast (TftpBlkSize st); loaded = load_block (TftpBlock st) toload st
               in send_packet (be16 3 @ be16 (ucast (TftpBlock st)) @ loaded)
                    (st\<lparr>TftpFinalBlock := length loaded < unat toload\<rparr>)
          else send_packet (be16 4 @ be16 (ucast (TftpBlock st))) st)"

subsection \<open>Receiving\<close>

definition icmp_handler :: "nat \<Rightarrow> nat \<Rightarrow> tftp \<Rightarrow> tftp" where
  "icmp_handler type code st = (if type = 3 \<and> code = 3 then restart st else st)"

text \<open>A string in the receive buffer, which is 1536 bytes long.\<close>

definition rx_string :: "mem \<Rightarrow> nat \<Rightarrow> bytes" where
  "rx_string pk i = takeWhile (\<lambda>c. c \<noteq> 0) (bytes_at pk i 1536)"

definition oack_option :: "mem \<Rightarrow> nat \<Rightarrow> tftp \<Rightarrow> tftp" where
  "oack_option pk i st =
     (if rx_string pk (2 + i) = bs ''blksize''
      then st\<lparr>TftpBlkSize := ucast (fst (simple_strtoul (rx_string pk (2 + i + 8)) 10))\<rparr> else st)"

definition handle_ack :: "mem \<Rightarrow> tftp \<Rightarrow> tftp" where
  "handle_ack pk st =
     (if TftpWriting st
      then if TftpFinalBlock st then tftp_complete st
           else let block = ntohs pk 2; ack_ok = (TftpBlock st = ucast block);
                    st = update_block_number (st\<lparr>TftpBlock := ucast (block + 1)\<rparr>)
                in if ack_ok then TftpSend st else st
      else st)"

definition handle_oack :: "mem \<Rightarrow> nat \<Rightarrow> nat \<Rightarrow> tftp \<Rightarrow> tftp" where
  "handle_oack pk src len st =
     (let st = st\<lparr>TftpState := STATE_OACK, TftpRemotePort := src\<rparr>;
          st = fold (oack_option pk) [0..<len - 8] st;
          st = (if TftpWriting st then st\<lparr>TftpState := STATE_DATA, TftpBlock := TftpBlock st + 1\<rparr> else st)
      in TftpSend st)"

text \<open>A data packet, whose contents start at offset 4 of the buffer; \<open>len\<close> counts them.\<close>

definition handle_block :: "mem \<Rightarrow> nat \<Rightarrow> tftp \<Rightarrow> tftp" where
  "handle_block pk len st =
     (if TftpBlock st = TftpLastBlock st then st
      else let st = call (NetSetTimeout (TftpTimeoutMSecs st))
                      (st\<lparr>TftpLastBlock := TftpBlock st, TftpTimeoutCountMax := TIMEOUT_COUNT\<rparr>);
               st = store_block (TftpBlock st - 1) (bytes_at pk 4 len) st;
               st = TftpSend st
           in if len < unat (TftpBlkSize st) then tftp_complete st else st)"

definition handle_data :: "mem \<Rightarrow> nat \<Rightarrow> nat \<Rightarrow> tftp \<Rightarrow> tftp" where
  "handle_data pk src len st =
     (let st = update_block_number (st\<lparr>TftpBlock := ucast (ntohs pk 2)\<rparr>)
      in if TftpState st = STATE_SEND_RRQ \<or> TftpState st = STATE_OACK \<or> TftpState st = STATE_RECV_WRQ
         then let st = new_transfer (st\<lparr>TftpState := STATE_DATA, TftpRemotePort := src\<rparr>)
              in if TftpBlock st \<noteq> 1 then call NetStartAgain st else handle_block pk len st
         else handle_block pk len st)"

definition handle_error :: "mem \<Rightarrow> tftp \<Rightarrow> tftp" where
  "handle_error pk st =
     (if ntohs pk 2 = 1 \<or> ntohs pk 2 = 2 then net_set_state NETLOOP_FAIL (call eth_halt st)
      else call NetStartAgain st)"

definition TftpHandler :: "mem \<Rightarrow> nat \<Rightarrow> nat \<Rightarrow> nat \<Rightarrow> tftp \<Rightarrow> tftp" where
  "TftpHandler pk dest src len st =
     (if dest \<noteq> TftpOurPort st then st
      else if TftpState st \<noteq> STATE_SEND_RRQ \<and> src \<noteq> TftpRemotePort st \<and> TftpState st \<noteq> STATE_RECV_WRQ
              \<and> TftpState st \<noteq> STATE_SEND_WRQ then st
      else if len < 2 then st
      else let len = len - 2; proto = ntohs pk 0
           in if proto = 4 then handle_ack pk st
              else if proto = 6 then handle_oack pk src len st
              else if proto = 3 then (if len < 2 then st else handle_data pk src (len - 2) st)
              else if proto = 5 then handle_error pk st
              else st)"

definition TftpTimeout :: "tftp \<Rightarrow> tftp" where
  "TftpTimeout st =
     (let st = st\<lparr>TftpTimeoutCount := TftpTimeoutCount st + 1\<rparr>
      in if TftpTimeoutCount st > TftpTimeoutCountMax st then restart st
         else let st = call (NetSetTimeout (TftpTimeoutMSecs st)) st
              in if TftpState st \<noteq> STATE_RECV_WRQ then TftpSend st else st)"

subsection \<open>Starting a transfer\<close>

text \<open>The file name: the default one from our address, or \<open>BootFile\<close> behind an optional server address.\<close>

definition tftp_name :: "u32 \<Rightarrow> bytes \<Rightarrow> bytes" where
  "tftp_name our_ip boot_file =
     take 127
       (if boot_file = []
        then sprintf_text (bs ''%02X%02X%02X%02X.img'')
               [W32 (our_ip AND 255), W32 (drop_bit 8 our_ip AND 255), W32 (drop_bit 16 our_ip AND 255),
                W32 (drop_bit 24 our_ip AND 255)]
        else if 58 \<in> set boot_file then tl (dropWhile (\<lambda>c. c \<noteq> 58) boot_file) else boot_file)"

text \<open>\<open>blksize\<close> and \<open>timeout\<close> are the values of \<open>tftpblocksize\<close> and \<open>tftptimeout\<close> in the environment,
  \<open>timer\<close> the value of the timer. \<open>TFTPPUT\<close> is \<open>put\<close>.\<close>

definition tftp_options :: "bytes option \<Rightarrow> bytes option \<Rightarrow> tftp \<Rightarrow> tftp" where
  "tftp_options blksize timeout st =
     (let st = (case blksize of None \<Rightarrow> st
                | Some s \<Rightarrow> st\<lparr>TftpBlkSizeOption := ucast (fst (simple_strtol s 10))\<rparr>);
          st = (case timeout of None \<Rightarrow> st | Some s \<Rightarrow> st\<lparr>TftpTimeoutMSecs := fst (simple_strtol s 10)\<rparr>)
      in if TftpTimeoutMSecs st < 1000 then st\<lparr>TftpTimeoutMSecs := 1000\<rparr> else st)"

definition load_addr_bad :: "tftp \<Rightarrow> bool" where
  "load_addr_bad st \<longleftrightarrow>
     t_load_addr st < SYS_LOAD_ADDR \<or> t_load_addr st \<ge> SDRAM_END st
     \<or> t_load_addr st \<ge> IPQ_TFTP_MAX_ADDR \<and> t_load_addr st < TZ_END_ADDR"

definition tftp_begin :: "nat \<Rightarrow> tftp \<Rightarrow> tftp" where
  "tftp_begin timer st =
     TftpSend ((call (NetSetTimeout (TftpTimeoutMSecs st)) st)
       \<lparr>TftpTimeoutCountMax := TftpRRQTimeoutCountMax st, TftpRemotePort := WELL_KNOWN_PORT, TftpTimeoutCount := 0,
        TftpOurPort := 1024 + timer mod 3072, TftpBlock := 0, TftpBlkSize := 512\<rparr>)"

definition TftpStart :: "bool \<Rightarrow> bytes option \<Rightarrow> bytes option \<Rightarrow> u32 \<Rightarrow> bytes \<Rightarrow> nat \<Rightarrow> tftp \<Rightarrow> tftp" where
  "TftpStart put blksize timeout our_ip boot_file timer st =
     (let st = (tftp_options blksize timeout st)\<lparr>tftp_filename := tftp_name our_ip boot_file, TftpWriting := put\<rparr>
      in if put
         then tftp_begin timer
                (new_transfer (st\<lparr>NetBootFileXferSize := t_save_size st, TftpState := STATE_SEND_WRQ\<rparr>))
         else if load_addr_bad st then net_set_state NETLOOP_FAIL (st\<lparr>TftpState := STATE_TOO_LARGE\<rparr>)
         else tftp_begin timer (st\<lparr>TftpState := STATE_SEND_RRQ\<rparr>))"

end
