(* ===== verification/Tftp_Session.thy ===== *)
theory Tftp_Session
  imports Tftp
begin

text \<open>
  What the TFTP client achieves. \<open>session\<close> is the step relation of a download from a server that obeys the
  protocol over a network that delays and repeats packets: the next block, a repetition of the last one,
  a packet for another port or from another one, a packet of another kind, a timeout, in any order.
  \<open>receiving\<close> is its invariant, which says that the memory holds the file up to the last block, past any
  number of wrap-arounds of the 16-bit block number.
\<close>

subsection \<open>Packets\<close>

definition packet :: "bytes \<Rightarrow> mem" where
  "packet xs = store (\<lambda>_. 0) 0 xs"

definition block_of :: "bytes \<Rightarrow> nat \<Rightarrow> nat \<Rightarrow> bytes" where
  "block_of F b n = take b (drop ((n - 1) * b) F)"

definition data_packet :: "bytes \<Rightarrow> nat \<Rightarrow> nat \<Rightarrow> bytes" where
  "data_packet F b n = be16 3 @ be16 (word_of_nat n) @ block_of F b n"

definition blocks :: "bytes \<Rightarrow> nat \<Rightarrow> nat" where
  "blocks F b = length F div b + 1"

lemma length_be16 [simp]: "length (be16 w) = 2"
  by (simp add: be16_def)

lemma ntohs_be16: "bytes_at pk i 2 = be16 w \<Longrightarrow> ntohs pk i = w"
proof -
  assume "bytes_at pk i 2 = be16 w"
  then have "pk i = ucast (drop_bit 8 w)" "pk (i + 1) = ucast w"
    by (auto simp: be16_def numeral_2_eq_2)
  moreover have "push_bit 8 (ucast (ucast (drop_bit 8 w) :: u8)) OR ucast (ucast w :: u8) = w"
  proof (rule bit_word_eqI)
    fix n assume "n < LENGTH(16)"
    then consider "n < 8" | "8 \<le> n" "n < 16" by force
    then show "bit (push_bit 8 (ucast (ucast (drop_bit 8 w) :: u8)) OR (ucast (ucast w :: u8) :: u16)) n = bit w n"
      by cases (auto simp: bit_simps)
  qed
  ultimately show ?thesis by (simp add: ntohs_def)
qed

lemma packet_part: "bytes_at (packet (xs @ ys @ zs)) (length xs) (length ys) = ys"
proof -
  have "bytes_at (packet (xs @ ys @ zs)) 0 (length xs + (length ys + length zs)) = xs @ ys @ zs"
    unfolding packet_def using bytes_at_store_in [of "\<lambda>_. 0" 0 "xs @ ys @ zs"] by simp
  then show ?thesis by (simp add: bytes_at_append)
qed

lemma data_packet_fields:
  "ntohs (packet (data_packet F b n)) 0 = 3" "ntohs (packet (data_packet F b n)) 2 = word_of_nat n"
  "bytes_at (packet (data_packet F b n)) 4 (length (block_of F b n)) = block_of F b n"
  using packet_part [of "[]" "be16 3"] packet_part [of "be16 3" "be16 (word_of_nat n)"]
    packet_part [of "be16 3 @ be16 (word_of_nat n)" "block_of F b n" "[]"]
  by (auto simp: data_packet_def intro!: ntohs_be16)

subsection \<open>What the steps leave alone\<close>

lemma call_fields [simp]:
  "TftpOurPort (call c st) = TftpOurPort st" "TftpRemotePort (call c st) = TftpRemotePort st"
  "TftpBlkSize (call c st) = TftpBlkSize st" "TftpWriting (call c st) = TftpWriting st"
  "t_load_addr (call c st) = t_load_addr st" "SDRAM_END (call c st) = SDRAM_END st"
  "TftpState (call c st) = TftpState st" "TftpBlock (call c st) = TftpBlock st"
  "TftpLastBlock (call c st) = TftpLastBlock st" "TftpBlockWrapOffset (call c st) = TftpBlockWrapOffset st"
  "ram (call c st) = ram st" "NetBootFileXferSize (call c st) = NetBootFileXferSize st"
  "net_state (call c st) = net_state st" "TftpTimeoutMSecs (call c st) = TftpTimeoutMSecs st"
  by (simp_all add: call_def)

lemma TftpSend_fields [simp]:
  "TftpOurPort (TftpSend st) = TftpOurPort st" "TftpRemotePort (TftpSend st) = TftpRemotePort st"
  "TftpBlkSize (TftpSend st) = TftpBlkSize st" "TftpWriting (TftpSend st) = TftpWriting st"
  "t_load_addr (TftpSend st) = t_load_addr st" "SDRAM_END (TftpSend st) = SDRAM_END st"
  "TftpState (TftpSend st) = TftpState st" "TftpBlock (TftpSend st) = TftpBlock st"
  "TftpLastBlock (TftpSend st) = TftpLastBlock st" "TftpBlockWrapOffset (TftpSend st) = TftpBlockWrapOffset st"
  "ram (TftpSend st) = ram st" "NetBootFileXferSize (TftpSend st) = NetBootFileXferSize st"
  "net_state (TftpSend st) = net_state st"
  by (simp_all add: TftpSend_def send_packet_def Let_def split: tftp_state.split)

subsection \<open>The invariant\<close>

text \<open>The parameters of a download: the file, the block size, the server's port, ours, where the file goes,
  where the memory ends, and the memory before.\<close>

record job =
  content :: bytes
  bsize :: nat
  sport :: nat
  oport :: nat
  dst :: u32
  memtop :: u32
  ram0 :: mem

definition job_ok :: "job \<Rightarrow> bool" where
  "job_ok j \<longleftrightarrow> 0 < bsize j \<and> bsize j < 65536 \<and> unat SYS_LOAD_ADDR \<le> unat (dst j)
     \<and> unat (dst j) + length (content j) < unat (memtop j)
     \<and> (unat (dst j) + length (content j) < unat IPQ_TFTP_MAX_ADDR \<or> unat TZ_END_ADDR \<le> unat (dst j))"

definition waiting :: "job \<Rightarrow> tftp \<Rightarrow> bool" where
  "waiting j st \<longleftrightarrow>
     (TftpState st = STATE_SEND_RRQ \<or> TftpState st = STATE_OACK \<and> TftpRemotePort st = sport j)
     \<and> ram st = ram0 j \<and> NetBootFileXferSize st = 0"

text \<open>\<open>n\<close> blocks are in memory and block \<open>m\<close> was the last one to arrive.\<close>

definition loaded :: "job \<Rightarrow> nat \<Rightarrow> nat \<Rightarrow> tftp \<Rightarrow> bool" where
  "loaded j n m st \<longleftrightarrow>
     m \<le> n \<and> m div 65536 = n div 65536 \<and> (m = n \<or> m mod 65536 \<noteq> 0)
     \<and> TftpState st = STATE_DATA \<and> TftpRemotePort st = sport j \<and> TftpBlkSize st = word_of_nat (bsize j)
     \<and> TftpLastBlock st = word_of_nat (m mod 65536)
     \<and> TftpBlockWrapOffset st = word_of_nat (bsize j * 65536 * (n div 65536))
     \<and> ram st = store (ram0 j) (unat (dst j)) (take (n * bsize j) (content j))
     \<and> NetBootFileXferSize st = word_of_nat (length (take (n * bsize j) (content j)))"

definition receiving :: "job \<Rightarrow> nat \<Rightarrow> tftp \<Rightarrow> bool" where
  "receiving j n st \<longleftrightarrow>
     TftpOurPort st = oport j \<and> \<not> TftpWriting st \<and> t_load_addr st = dst j \<and> SDRAM_END st = memtop j
     \<and> n \<le> blocks (content j) (bsize j) \<and> NetStartAgain \<notin> set (calls st)
     \<and> net_state st = (if n = blocks (content j) (bsize j) then NETLOOP_SUCCESS else NETLOOP_CONTINUE)
     \<and> (if n = 0 then waiting j st else \<exists>m\<in>{..n}. loaded j n m st)"

lemma ex_loaded: "(\<exists>m\<in>{..n}. loaded j n m st) \<longleftrightarrow> (\<exists>m. loaded j n m st)"
  by (auto simp: loaded_def)

lemma block_offset:
  "((word_of_nat (Suc n mod 65536) :: u32) - 1) * word_of_nat b + word_of_nat (b * 65536 * (Suc n div 65536))
    = word_of_nat (n * b)"
proof -
  have "Suc n = Suc n mod 65536 + 65536 * (Suc n div 65536)" by simp
  then have "(word_of_nat (Suc n) :: u32) = word_of_nat (Suc n mod 65536) + 65536 * word_of_nat (Suc n div 65536)"
    by (metis of_nat_add of_nat_mult of_nat_numeral)
  then have "(word_of_nat (Suc n mod 65536) :: u32) - 1 + 65536 * word_of_nat (Suc n div 65536) = word_of_nat n"
    by (simp add: algebra_simps)
  then have "((word_of_nat (Suc n mod 65536) :: u32) - 1 + 65536 * word_of_nat (Suc n div 65536)) * word_of_nat b
    = word_of_nat n * word_of_nat b" by simp
  then show ?thesis by (simp only: of_nat_mult of_nat_numeral distrib_left distrib_right ac_simps)
qed

lemma ucast_block: "(ucast (word_of_nat n :: u16) :: u32) = word_of_nat (n mod 65536)"
  by (simp add: word_unat_eq_iff unat_of_nat unsigned_ucast_eq take_bit_eq_mod)

lemma block_number_0: "(word_of_nat (n mod 65536) :: u32) = 0 \<longleftrightarrow> n mod 65536 = 0"
  by (simp add: word_unat_eq_iff unat_of_nat)

lemma block_number_eq: "(word_of_nat (m mod 65536) :: u32) = word_of_nat (n mod 65536) \<longleftrightarrow> m mod 65536 = n mod 65536"
  by (simp add: word_unat_eq_iff unat_of_nat)

lemma wrap_div: "Suc n div 65536 = n div 65536 + (if Suc n mod 65536 = 0 then 1 else 0)"
  by (simp add: div_Suc)

subsection \<open>Blocks of the file\<close>

lemma blocks_le: "0 < b \<Longrightarrow> n < blocks F b \<longleftrightarrow> n * b \<le> length F"
  by (simp add: blocks_def less_Suc_eq_le less_eq_div_iff_mult_less_eq)

lemma block_of_take: "take (n * b) F @ block_of F b (Suc n) = take (Suc n * b) F"
  using take_add [of "n * b" b F] by (simp add: block_of_def add.commute)

lemma block_of_short: "0 < b \<Longrightarrow> n < blocks F b \<Longrightarrow> length (block_of F b (Suc n)) < b \<longleftrightarrow> Suc n = blocks F b"
  using blocks_le [of b n F] blocks_le [of b "Suc n" F] by (auto simp: block_of_def)

subsection \<open>Receiving a block\<close>

lemma job_small: "job_ok j \<Longrightarrow> unat (dst j) + length (content j) < 2 ^ 32"
proof -
  assume "job_ok j"
  moreover have "unat (memtop j) < 2 ^ 32" using unsigned_less [of "memtop j", where 'a = nat] by simp
  ultimately show ?thesis unfolding job_ok_def by linarith
qed

lemma store_block_ok:
  assumes ok: "job_ok j" and st: "t_load_addr st = dst j" "SDRAM_END st = memtop j"
    and off: "blk * ucast (TftpBlkSize st) + TftpBlockWrapOffset st = word_of_nat p"
    and len: "p + length xs \<le> length (content j)"
  shows "store_block blk xs st = st\<lparr>ram := store (ram st) (unat (dst j) + p) xs,
      NetBootFileXferSize := max (NetBootFileXferSize st) (word_of_nat (p + length xs))\<rparr>"
proof -
  have small: "unat (dst j) + (p + length xs) < 2 ^ 32"
    using job_small [OF ok] len by linarith
  then have end_at: "unat (dst j + word_of_nat (p + length xs)) = unat (dst j) + (p + length xs)"
    by (simp add: unat_word_ariths unat_of_nat)
  have start_at: "unat (dst j + word_of_nat p) = unat (dst j) + p"
    using small by (simp add: unat_word_ariths unat_of_nat)
  have "\<not> (dst j + word_of_nat (p + length xs) \<ge> memtop j \<or>
     dst j + word_of_nat (p + length xs) \<ge> IPQ_TFTP_MAX_ADDR \<and> dst j + word_of_nat (p + length xs) < TZ_END_ADDR)"
    using ok len unfolding word_le_nat_alt word_less_nat_alt end_at job_ok_def by linarith
  note fits = if_not_P [OF this]
  show ?thesis
    unfolding store_block_def Let_def st off of_nat_add [symmetric] fits start_at
    by (simp add: max_def not_less [symmetric] del: of_nat_add not_less)
qed

definition deliver :: "job \<Rightarrow> nat \<Rightarrow> tftp \<Rightarrow> tftp" where
  "deliver j k st = TftpHandler (packet (data_packet (content j) (bsize j) k)) (oport j) (sport j)
     (4 + length (block_of (content j) (bsize j) k)) st"

lemma deliver_data:
  "TftpOurPort st = oport j \<Longrightarrow> TftpState st = STATE_SEND_RRQ \<or> TftpRemotePort st = sport j \<Longrightarrow>
    deliver j k st = handle_data (packet (data_packet (content j) (bsize j) k)) (sport j)
      (length (block_of (content j) (bsize j) k)) st"
  by (auto simp: deliver_def TftpHandler_def data_packet_fields)

text \<open>A state that looks at block \<open>i + 1\<close> and has not just seen it.\<close>

definition at_block :: "job \<Rightarrow> nat \<Rightarrow> tftp \<Rightarrow> bool" where
  "at_block j k st \<longleftrightarrow> \<not> TftpWriting st \<and> t_load_addr st = dst j \<and> SDRAM_END st = memtop j
     \<and> TftpState st = STATE_DATA \<and> TftpRemotePort st = sport j \<and> TftpBlkSize st = word_of_nat (bsize j)
     \<and> TftpBlock st = word_of_nat (k mod 65536) \<and> TftpBlock st \<noteq> TftpLastBlock st
     \<and> TftpBlockWrapOffset st = word_of_nat (bsize j * 65536 * (k div 65536))"

definition stored :: "job \<Rightarrow> nat \<Rightarrow> tftp \<Rightarrow> tftp" where
  "stored j i st = st\<lparr>TftpLastBlock := word_of_nat (Suc i mod 65536), TftpTimeoutCountMax := TIMEOUT_COUNT,
     ram := store (ram st) (unat (dst j) + i * bsize j) (block_of (content j) (bsize j) (Suc i)),
     NetBootFileXferSize := max (NetBootFileXferSize st) (word_of_nat (length (take (Suc i * bsize j) (content j)))),
     calls := calls st @ [NetSetTimeout (TftpTimeoutMSecs st),
       NetSendUDPPacket (sport j) (be16 4 @ be16 (word_of_nat (Suc i)))],
     net_state := if Suc i = blocks (content j) (bsize j) then NETLOOP_SUCCESS else net_state st\<rparr>"

lemma length_block_of: "n < blocks F b \<Longrightarrow> 0 < b \<Longrightarrow> n * b + length (block_of F b (Suc n)) = length (take (Suc n * b) F)"
  using arg_cong [OF block_of_take [of n b F], of length] by (simp add: blocks_le)

lemma ack_number: "(ucast (word_of_nat (n mod 65536) :: u32) :: u16) = word_of_nat n"
  by (simp add: word_unat_eq_iff unat_of_nat unsigned_ucast_eq take_bit_eq_mod)

lemma handle_block_stored:
  assumes ok: "job_ok j" and i: "i < blocks (content j) (bsize j)" and at: "at_block j (Suc i) st"
  shows "handle_block (packet (data_packet (content j) (bsize j) (Suc i))) (length (block_of (content j) (bsize j) (Suc i))) st
    = stored j i st"
proof -
  let ?xs = "block_of (content j) (bsize j) (Suc i)"
  let ?s = "call (NetSetTimeout (TftpTimeoutMSecs st))
    (st\<lparr>TftpLastBlock := TftpBlock st, TftpTimeoutCountMax := TIMEOUT_COUNT\<rparr>)"
  have b: "0 < bsize j" "bsize j < 65536" using ok by (auto simp: job_ok_def)
  note f = at [unfolded at_block_def]
  have size: "i * bsize j + length ?xs = length (take (Suc i * bsize j) (content j))"
    by (rule length_block_of [OF i b(1)])
  have blk: "(ucast (TftpBlkSize ?s) :: u32) = word_of_nat (bsize j)"
    using f b by (simp add: ucast_block)
  have sb: "store_block (TftpBlock ?s - 1) ?xs ?s = ?s\<lparr>ram := store (ram ?s) (unat (dst j) + i * bsize j) ?xs,
      NetBootFileXferSize := max (NetBootFileXferSize ?s) (word_of_nat (i * bsize j + length ?xs))\<rparr>"
  proof (rule store_block_ok [OF ok])
    show "(TftpBlock ?s - 1) * ucast (TftpBlkSize ?s) + TftpBlockWrapOffset ?s = word_of_nat (i * bsize j)"
      unfolding blk using f by (simp add: block_offset del: of_nat_mult)
    show "i * bsize j + length ?xs \<le> length (content j)" unfolding size by simp
  qed (use f in simp_all)
  have ne: "TftpBlock st \<noteq> TftpLastBlock st" using f by blast
  show ?thesis
    unfolding handle_block_def if_not_P [OF ne] Let_def data_packet_fields sb size
    using f block_of_short [OF b(1) i] b
    by (simp add: stored_def TftpSend_def send_packet_def call_def
        tftp_complete_def net_set_state_def Let_def ack_number unat_of_nat del: of_nat_Suc mult_Suc)
qed

text \<open>The state that looks at block \<open>k\<close>: the first one starts the transfer, a later one may wrap the counter.\<close>

definition seen :: "job \<Rightarrow> nat \<Rightarrow> tftp \<Rightarrow> tftp" where
  "seen j k st =
     (let st = update_block_number (st\<lparr>TftpBlock := word_of_nat (k mod 65536)\<rparr>)
      in if TftpState st = STATE_DATA then st else new_transfer (st\<lparr>TftpState := STATE_DATA, TftpRemotePort := sport j\<rparr>))"

lemma seen_fields [simp]:
  "ram (seen j k st) = ram st" "NetBootFileXferSize (seen j k st) = NetBootFileXferSize st"
  "net_state (seen j k st) = net_state st" "calls (seen j k st) = calls st" "TftpOurPort (seen j k st) = TftpOurPort st"
  "TftpTimeoutMSecs (seen j k st) = TftpTimeoutMSecs st" "TftpWriting (seen j k st) = TftpWriting st"
  "t_load_addr (seen j k st) = t_load_addr st" "SDRAM_END (seen j k st) = SDRAM_END st"
  "TftpBlkSize (seen j k st) = TftpBlkSize st" "TftpState (seen j k st) = STATE_DATA"
  "TftpBlock (seen j k st) = word_of_nat (k mod 65536)"
  by (simp_all add: seen_def update_block_number_def new_transfer_def Let_def)

lemma seen_first:
  "waiting j st \<Longrightarrow> TftpRemotePort (seen j 1 st) = sport j \<and> TftpLastBlock (seen j 1 st) = 0
    \<and> TftpBlockWrapOffset (seen j 1 st) = 0"
  by (auto simp: seen_def update_block_number_def new_transfer_def Let_def waiting_def)

lemma seen_later:
  "TftpState st = STATE_DATA \<Longrightarrow> TftpRemotePort (seen j k st) = TftpRemotePort st
    \<and> TftpLastBlock (seen j k st) = TftpLastBlock st
    \<and> TftpBlockWrapOffset (seen j k st) =
      (if k mod 65536 = 0 then TftpBlockWrapOffset st + ucast (TftpBlkSize st) * TFTP_SEQUENCE_SIZE
       else TftpBlockWrapOffset st)"
  by (auto simp: seen_def update_block_number_def Let_def block_number_0)

lemma deliver_seen:
  assumes st: "TftpOurPort st = oport j"
    "waiting j st \<and> k = 1 \<or> TftpState st = STATE_DATA \<and> TftpRemotePort st = sport j"
  shows "deliver j k st = handle_block (packet (data_packet (content j) (bsize j) k))
    (length (block_of (content j) (bsize j) k)) (seen j k st)"
proof -
  have "deliver j k st = handle_data (packet (data_packet (content j) (bsize j) k)) (sport j)
      (length (block_of (content j) (bsize j) k)) st"
    using st by (intro deliver_data) (auto simp: waiting_def)
  then show ?thesis
    using st by (auto simp: handle_data_def data_packet_fields seen_def ucast_block Let_def waiting_def
        update_block_number_def new_transfer_def)
qed

lemma next_differs:
  assumes "m \<le> n" "m div 65536 = n div 65536" "m = n \<or> m mod 65536 \<noteq> 0"
  shows "Suc n mod 65536 \<noteq> m mod (65536 :: nat)"
proof
  assume eq: "Suc n mod 65536 = m mod (65536 :: nat)"
  show False
  proof (cases "m = n")
    case True
    then show False using eq by (simp add: mod_Suc split: if_splits)
  next
    case False
    then have "Suc n mod 65536 \<noteq> 0" using assms(3) eq by simp
    then have "Suc n div 65536 = n div 65536" by (simp add: wrap_div)
    then show False using eq assms(1,2) by (metis Suc_n_not_le_n mult_div_mod_eq)
  qed
qed

lemma at_next:
  assumes "receiving j n st" "job_ok j" and size: "TftpBlkSize st = word_of_nat (bsize j)"
  shows "at_block j (Suc n) (seen j (Suc n) st)"
proof (cases "n = 0")
  case True
  then show ?thesis using assms seen_first [of j st] by (simp add: at_block_def receiving_def)
next
  case False
  then obtain m where m: "loaded j n m st" using assms by (auto simp: receiving_def)
  have b: "(ucast (TftpBlkSize st) :: u32) = word_of_nat (bsize j)"
    using size assms(2) by (simp add: ucast_block job_ok_def)
  have "Suc n mod 65536 \<noteq> m mod 65536"
    using m by (intro next_differs) (auto simp: loaded_def)
  moreover have "TftpBlockWrapOffset st + ucast (TftpBlkSize st) * TFTP_SEQUENCE_SIZE
      = word_of_nat (bsize j * 65536 * (n div 65536 + 1))"
    using m b by (simp add: loaded_def TFTP_SEQUENCE_SIZE_def distrib_left ac_simps)
  ultimately show ?thesis
    using m False assms seen_later [of st j "Suc n"]
    unfolding at_block_def receiving_def loaded_def wrap_div [of n]
    by (simp add: block_number_eq del: of_nat_mult)
qed

lemma deliver_next:
  assumes r: "receiving j n st" and ok: "job_ok j" and n: "n < blocks (content j) (bsize j)"
    and size: "TftpBlkSize st = word_of_nat (bsize j)"
  shows "deliver j (Suc n) st = stored j n (seen j (Suc n) st)"
proof -
  have "deliver j (Suc n) st = handle_block (packet (data_packet (content j) (bsize j) (Suc n)))
    (length (block_of (content j) (bsize j) (Suc n))) (seen j (Suc n) st)"
    using r by (intro deliver_seen) (auto simp: receiving_def loaded_def split: if_splits)
  then show ?thesis using handle_block_stored [OF ok n at_next [OF r ok size]] by simp
qed

lemma stored_fields [simp]:
  "TftpOurPort (stored j i st) = TftpOurPort st" "TftpWriting (stored j i st) = TftpWriting st"
  "t_load_addr (stored j i st) = t_load_addr st" "SDRAM_END (stored j i st) = SDRAM_END st"
  "TftpState (stored j i st) = TftpState st" "TftpRemotePort (stored j i st) = TftpRemotePort st"
  "TftpBlkSize (stored j i st) = TftpBlkSize st" "TftpBlockWrapOffset (stored j i st) = TftpBlockWrapOffset st"
  "TftpLastBlock (stored j i st) = word_of_nat (Suc i mod 65536)"
  "ram (stored j i st) = store (ram st) (unat (dst j) + i * bsize j) (block_of (content j) (bsize j) (Suc i))"
  "NetBootFileXferSize (stored j i st) =
     max (NetBootFileXferSize st) (word_of_nat (length (take (Suc i * bsize j) (content j))))"
  "NetStartAgain \<in> set (calls (stored j i st)) \<longleftrightarrow> NetStartAgain \<in> set (calls st)"
  "net_state (stored j i st) = (if Suc i = blocks (content j) (bsize j) then NETLOOP_SUCCESS else net_state st)"
  by (simp_all add: stored_def del: mult_Suc)

lemma max_size:
  "job_ok j \<Longrightarrow> i \<le> n \<Longrightarrow> max (word_of_nat (length (take i (content j)))) (word_of_nat (length (take n (content j))) :: u32)
    = word_of_nat (length (take n (content j)))"
  by (drule job_small) (auto simp: max_def word_le_nat_alt unat_of_nat)

lemma receiving_before: "receiving j n st \<Longrightarrow>
  NetBootFileXferSize st = word_of_nat (length (take (n * bsize j) (content j)))
    \<and> ram st = store (ram0 j) (unat (dst j)) (take (n * bsize j) (content j))"
  by (auto simp: receiving_def waiting_def loaded_def split: if_splits)

lemma receiving_next:
  assumes r: "receiving j n st" and ok: "job_ok j" and n: "n < blocks (content j) (bsize j)"
    and size: "TftpBlkSize st = word_of_nat (bsize j)"
  shows "receiving j (Suc n) (deliver j (Suc n) st)"
proof -
  let ?st = "stored j n (seen j (Suc n) st)"
  have nb: "n * bsize j \<le> length (content j)" using n ok by (simp add: blocks_le job_ok_def)
  have "ram ?st = store (ram0 j) (unat (dst j)) (take (Suc n * bsize j) (content j))"
    using receiving_before [OF r] nb unfolding block_of_take [symmetric] by (simp add: store_append)
  moreover have "NetBootFileXferSize ?st = word_of_nat (length (take (Suc n * bsize j) (content j)))"
    using receiving_before [OF r] max_size [OF ok, of "n * bsize j" "Suc n * bsize j"] by (simp del: length_take)
  ultimately have "loaded j (Suc n) (Suc n) ?st"
    using at_next [OF r ok size] unfolding loaded_def at_block_def by simp
  then show ?thesis
    using r n unfolding deliver_next [OF r ok n size] receiving_def ex_loaded by auto
qed

lemma store_same: "bytes_at m p (length xs) = xs \<Longrightarrow> store m p xs = m"
  by (rule ext) (metis le_add_diff_inverse nth_bytes_at store_in store_out less_diff_conv2 add.commute not_le)

lemma store_again:
  assumes "i < n"
  shows "store (store m p (take (n * b) F)) (p + i * b) (block_of F b (Suc i)) = store m p (take (n * b) F)"
proof (rule store_same)
  obtain ys where ys: "take (n * b) F = take (i * b) F @ block_of F b (Suc i) @ ys"
  proof -
    have "take (n * b) F = take (Suc i * b) F @ drop (Suc i * b) (take (n * b) F)"
      using assms mult_le_mono1 [of "Suc i" n b] by (metis Suc_leI append_take_drop_id min.absorb1 take_take)
    then show thesis using that unfolding block_of_take [symmetric] by simp
  qed
  show "bytes_at (store m p (take (n * b) F)) (p + i * b) (length (block_of F b (Suc i))) = block_of F b (Suc i)"
  proof (cases "i * b \<le> length F")
    case True
    have "bytes_at (store m p (take (n * b) F)) p (length (take (n * b) F)) = take (n * b) F"
      by (rule bytes_at_store_in)
    then show ?thesis using True unfolding ys by (simp add: bytes_at_append)
  next
    case False
    then show ?thesis by (simp add: block_of_def)
  qed
qed

lemma receiving_repeat:
  assumes r: "receiving j n st" and ok: "job_ok j" and i: "i < n" "Suc i div 65536 = n div 65536" "Suc i mod 65536 \<noteq> 0"
  shows "receiving j n (deliver j (Suc i) st)"
proof -
  from r i(1) obtain m where m: "loaded j n m st" by (auto simp: receiving_def)
  have d: "TftpState st = STATE_DATA" using m by (simp add: loaded_def)
  note sl = seen_later [OF d, of j "Suc i", unfolded if_not_P [OF i(3)]]
  have dv: "deliver j (Suc i) st = handle_block (packet (data_packet (content j) (bsize j) (Suc i)))
    (length (block_of (content j) (bsize j) (Suc i))) (seen j (Suc i) st)"
    using r m d by (intro deliver_seen) (auto simp: receiving_def loaded_def)
  show ?thesis
  proof (cases "Suc i mod 65536 = m mod 65536")
    case True
    then have "deliver j (Suc i) st = seen j (Suc i) st"
      using m sl unfolding dv handle_block_def loaded_def by simp
    moreover have "loaded j n m (seen j (Suc i) st)" using m sl by (simp add: loaded_def)
    moreover have "m \<le> n" using m by (simp add: loaded_def)
    ultimately show ?thesis using r i(1) unfolding receiving_def ex_loaded by auto
  next
    case False
    have at: "at_block j (Suc i) (seen j (Suc i) st)"
      using m sl False r i(2) unfolding at_block_def loaded_def receiving_def by (simp add: block_number_eq)
    have ib: "i < blocks (content j) (bsize j)" using r i(1) by (simp add: receiving_def)
    have "loaded j n (Suc i) (stored j i (seen j (Suc i) st))"
      using m sl i at store_again [OF i(1)] max_size [OF ok, of "Suc i * bsize j" "n * bsize j"] mult_le_mono1 [of "Suc i" n "bsize j"]
      unfolding loaded_def by (simp add: max.commute del: length_take mult_Suc)
    moreover have "deliver j (Suc i) st = stored j i (seen j (Suc i) st)"
      unfolding dv by (rule handle_block_stored [OF ok ib at])
    moreover have "i < n \<Longrightarrow> n \<le> blocks (content j) (bsize j) \<Longrightarrow> Suc i = blocks (content j) (bsize j) \<Longrightarrow> n = Suc i"
      by simp
    ultimately show ?thesis using r i(1) unfolding receiving_def ex_loaded by (cases "n = Suc i") auto
  qed
qed

lemma receiving_cong:
  assumes r: "receiving j n st"
    and same: "TftpOurPort st' = TftpOurPort st" "TftpWriting st' = TftpWriting st" "t_load_addr st' = t_load_addr st"
      "SDRAM_END st' = SDRAM_END st" "TftpState st' = TftpState st" "TftpRemotePort st' = TftpRemotePort st"
      "TftpBlkSize st' = TftpBlkSize st" "TftpBlockWrapOffset st' = TftpBlockWrapOffset st"
      "TftpLastBlock st' = TftpLastBlock st" "ram st' = ram st" "NetBootFileXferSize st' = NetBootFileXferSize st"
      "net_state st' = net_state st" and quiet: "NetStartAgain \<notin> set (calls st')"
  shows "receiving j n st'"
  using r quiet unfolding receiving_def waiting_def loaded_def same by blast

lemma TftpSend_quiet [simp]: "NetStartAgain \<in> set (calls (TftpSend st)) \<longleftrightarrow> NetStartAgain \<in> set (calls st)"
  by (simp add: TftpSend_def send_packet_def call_def Let_def split: tftp_state.split)

lemma receiving_timeout:
  assumes r: "receiving j n st" and "TftpTimeoutCount st < TftpTimeoutCountMax st"
  shows "receiving j n (TftpTimeout st)"
  using assms(2) r [unfolded receiving_def]
  by (intro receiving_cong [OF r]) (simp_all add: TftpTimeout_def Let_def call_def)

text \<open>A packet for another port, one from another port once the server's is known, one that is too short, one
  of a kind a download ignores.\<close>

definition stray :: "mem \<Rightarrow> nat \<Rightarrow> nat \<Rightarrow> nat \<Rightarrow> tftp \<Rightarrow> bool" where
  "stray pk dest src len st \<longleftrightarrow>
     dest \<noteq> TftpOurPort st \<or> TftpState st \<noteq> STATE_SEND_RRQ \<and> src \<noteq> TftpRemotePort st \<or> len < 2
     \<or> ntohs pk 0 = 3 \<and> len < 4 \<or> ntohs pk 0 \<notin> {3, 5, 6}"

lemma stray_ignored:
  "receiving j n st \<Longrightarrow> stray pk dest src len st \<Longrightarrow> TftpHandler pk dest src len st = st"
  by (auto simp: receiving_def stray_def TftpHandler_def handle_ack_def waiting_def loaded_def Let_def split: if_splits)

lemma oack_fold: "\<exists>b. fold (oack_option pk) is st = st\<lparr>TftpBlkSize := b\<rparr>"
proof (induction "is" arbitrary: st)
  case Nil
  show ?case by (rule exI [of _ "TftpBlkSize st"]) simp
next
  case (Cons i "is")
  from Cons.IH [of "oack_option pk i st"] show ?case by (auto simp: oack_option_def)
qed

lemma receiving_oack:
  assumes r: "receiving j 0 st" and pk: "ntohs pk 0 = 6" "2 \<le> len"
  shows "receiving j 0 (TftpHandler pk (oport j) (sport j) len st)"
proof (cases "TftpState st = STATE_SEND_RRQ \<or> TftpRemotePort st = sport j")
  case True
  then have "TftpHandler pk (oport j) (sport j) len st = handle_oack pk (sport j) (len - 2) st"
    using r pk by (auto simp: TftpHandler_def receiving_def)
  moreover obtain b where "fold (oack_option pk) [0..<len - 2 - 8] (st\<lparr>TftpState := STATE_OACK, TftpRemotePort := sport j\<rparr>)
      = st\<lparr>TftpState := STATE_OACK, TftpRemotePort := sport j, TftpBlkSize := b\<rparr>"
    using oack_fold by blast
  ultimately show ?thesis
    using r by (simp add: handle_oack_def receiving_def waiting_def Let_def)
next
  case False
  then show ?thesis using r by (simp add: receiving_def waiting_def)
qed

subsection \<open>Sessions\<close>

text \<open>The state before a download: the arguments of the command are set, nothing has been sent.\<close>

definition ready :: "job \<Rightarrow> tftp \<Rightarrow> bool" where
  "ready j st \<longleftrightarrow> t_load_addr st = dst j \<and> SDRAM_END st = memtop j \<and> ram st = ram0 j
     \<and> NetBootFileXferSize st = 0 \<and> net_state st = NETLOOP_CONTINUE \<and> calls st = []"

text \<open>
  What can happen in a download: the request, the server's answer with its options before the first block, the
  next block, a block once more, a timeout, and packets that are not for this transfer. Left out, because the
  handler goes wrong on them (\<open>tftp_repeat_of_block_0\<close> shows one), are repeats of a block whose number is 0 modulo 65536 and
  of blocks from before the last wrap-around of the number; and an answer with options that is repeated after
  the first block.
\<close>

inductive session :: "job \<Rightarrow> nat \<Rightarrow> tftp \<Rightarrow> bool" for j where
  start: "session j 0 (TftpStart False blksize timeout ip name timer st)"
    if "ready j st" "oport j = 1024 + timer mod 3072"
| oack: "session j 0 (TftpHandler pk (oport j) (sport j) len st)"
    if "session j 0 st" "ntohs pk 0 = 6" "2 \<le> len"
| block: "session j (Suc n) (deliver j (Suc n) st)"
    if "session j n st" "n < blocks (content j) (bsize j)" "TftpBlkSize st = word_of_nat (bsize j)"
| again: "session j n (deliver j (Suc i) st)"
    if "session j n st" "i < n" "Suc i div 65536 = n div 65536" "Suc i mod 65536 \<noteq> 0"
| lost: "session j n (TftpTimeout st)"
    if "session j n st" "TftpTimeoutCount st < TftpTimeoutCountMax st"
| other: "session j n (TftpHandler pk dest src len st)"
    if "session j n st" "stray pk dest src len st"

lemma options_fields [simp]:
  "t_load_addr (tftp_options b t st) = t_load_addr st" "SDRAM_END (tftp_options b t st) = SDRAM_END st"
  "ram (tftp_options b t st) = ram st" "NetBootFileXferSize (tftp_options b t st) = NetBootFileXferSize st"
  "net_state (tftp_options b t st) = net_state st" "calls (tftp_options b t st) = calls st"
  by (simp_all add: tftp_options_def Let_def split: option.split)

lemma receiving_start:
  assumes ok: "job_ok j" and st: "ready j st" and port: "oport j = 1024 + timer mod 3072"
  shows "receiving j 0 (TftpStart False blksize timeout ip name timer st)"
proof -
  have "\<not> load_addr_bad ((tftp_options blksize timeout st)\<lparr>tftp_filename := tftp_name ip name, TftpWriting := False\<rparr>)"
    using ok st unfolding load_addr_bad_def job_ok_def ready_def word_le_nat_alt word_less_nat_alt
    by auto
  then show ?thesis
    using st port
    by (simp add: TftpStart_def tftp_begin_def receiving_def waiting_def ready_def Let_def blocks_def call_def)
qed

lemma session_receiving: "session j n st \<Longrightarrow> job_ok j \<Longrightarrow> receiving j n st"
proof (induction rule: session.induct)
  case start
  then show ?case by (simp add: receiving_start)
qed (simp_all add: receiving_oack receiving_next receiving_repeat receiving_timeout stray_ignored)

lemma blocks_pos: "0 < blocks F b"
  by (simp add: blocks_def)

lemma receiving_done:
  assumes "receiving j (blocks (content j) (bsize j)) st" "job_ok j"
  shows "net_state st = NETLOOP_SUCCESS" "ram st = store (ram0 j) (unat (dst j)) (content j)"
    "NetBootFileXferSize st = word_of_nat (length (content j))"
proof -
  have "length (content j) < blocks (content j) (bsize j) * bsize j"
    using assms(2) dividend_less_times_div [of "bsize j" "length (content j)"]
    by (simp add: job_ok_def blocks_def mult.commute)
  then have "take (blocks (content j) (bsize j) * bsize j) (content j) = content j" by simp
  then show "net_state st = NETLOOP_SUCCESS" "ram st = store (ram0 j) (unat (dst j)) (content j)"
    "NetBootFileXferSize st = word_of_nat (length (content j))"
    using receiving_before [OF assms(1)] assms(1) by (simp_all add: receiving_def del: length_take)
qed

lemma receiving_blksize: "receiving j (Suc n) st \<Longrightarrow> TftpBlkSize st = word_of_nat (bsize j)"
  by (auto simp: receiving_def loaded_def)

lemma deliver_rest:
  assumes ok: "job_ok j"
  shows "receiving j n st \<Longrightarrow> TftpBlkSize st = word_of_nat (bsize j) \<Longrightarrow> n + d \<le> blocks (content j) (bsize j) \<Longrightarrow>
    receiving j (n + d) (fold (deliver j) [Suc n..<Suc (n + d)] st)"
proof (induction d arbitrary: n st)
  case (Suc d)
  have "receiving j (Suc n) (deliver j (Suc n) st)"
    using Suc.prems ok by (intro receiving_next) auto
  from Suc.IH [OF this receiving_blksize [OF this]] Suc.prems(3)
  show ?case by (simp add: upt_conv_Cons del: upt_Suc)
qed simp

subsection \<open>Downloads\<close>



text \<open>
  The next block of a session is acknowledged, once, with its number modulo \<open>2\<^sup>1\<^sup>6\<close>, to the server's port,
  after the timer has been set again.\<close>

theorem tftp_block_acknowledged:
  assumes "session j n st" "job_ok j" "n < blocks (content j) (bsize j)" "TftpBlkSize st = word_of_nat (bsize j)"
  shows "calls (deliver j (Suc n) st) = calls st @ [NetSetTimeout (TftpTimeoutMSecs st),
    NetSendUDPPacket (sport j) (be16 4 @ be16 (word_of_nat (Suc n)))]"
  unfolding deliver_next [OF session_receiving [OF assms(1,2)] assms(2-4)] by (simp add: stored_def)

text \<open>A small download: five bytes to the default load address.\<close>

definition demo_job :: job where
  "demo_job = \<lparr>content = [1, 2, 3, 4, 5], bsize = 512, sport = 2000, oport = 1024, dst = 0x84000000,
     memtop = 0x90000000, ram0 = (\<lambda>_. 0)\<rparr>"

definition demo_tftp :: tftp where
  "demo_tftp = \<lparr>TftpRemotePort = 0, TftpOurPort = 0, TftpTimeoutMSecs = 5000, TftpTimeoutCount = 0,
     TftpTimeoutCountMax = 1000, TftpRRQTimeoutCountMax = 1000, TftpBlock = 0, TftpLastBlock = 0, TftpBlockWrap = 0,
     TftpBlockWrapOffset = 0, TftpState = STATE_SEND_RRQ, TftpWriting = False, TftpFinalBlock = False,
     tftp_filename = [], TftpBlkSize = 512, TftpBlkSizeOption = 1468, NetBootFileXferSize = 0,
     t_load_addr = 0x84000000, t_save_addr = 0, t_save_size = 0, SDRAM_END = 0x90000000, ram = (\<lambda>_. 0),
     net_state = NETLOOP_CONTINUE, calls = []\<rparr>"

definition demo_started :: tftp where
  "demo_started = TftpStart False None None 0 (bs ''fw.bin'') 0 demo_tftp"

lemma demo_job_ok: "job_ok demo_job" "blocks (content demo_job) (bsize demo_job) = 1"
  by (simp_all add: job_ok_def demo_job_def blocks_def SYS_LOAD_ADDR_def IPQ_TFTP_MAX_ADDR_def TZ_END_ADDR_def)

lemma demo_session: "session demo_job 0 demo_started"
  unfolding demo_started_def by (rule session.start) (simp_all add: ready_def demo_job_def demo_tftp_def)

lemma demo_blksize: "TftpBlkSize demo_started = word_of_nat (bsize demo_job)"
  by (simp add: demo_started_def TftpStart_def demo_tftp_def demo_job_def load_addr_bad_def tftp_options_def
      tftp_begin_def SYS_LOAD_ADDR_def IPQ_TFTP_MAX_ADDR_def TZ_END_ADDR_def Let_def)

lemma demo_one_block: "session demo_job 1 (deliver demo_job 1 demo_started)"
  using session.block [OF demo_session _ demo_blksize] by (simp add: demo_job_ok)



theorem tftp_block_acknowledged_witness:
  "calls (deliver demo_job 1 demo_started) =
    calls demo_started @ [NetSetTimeout (TftpTimeoutMSecs demo_started), NetSendUDPPacket 2000 [0, 4, 0, 1]]"
  using tftp_block_acknowledged [OF demo_session demo_job_ok(1) _ demo_blksize] demo_job_ok(2)
  by (simp add: demo_job_def be16_def)

end
