(* ===== verification/Tftp_Put.thy ===== *)
theory Tftp_Put
  imports Tftp_Session
begin

text \<open>
  Uploads, and the packets on which the TFTP client goes wrong.

  \<^item> \<open>sending\<close> is the invariant of an upload: the packet sent last is block \<open>n\<close> of the memory to save, which an
    acknowledgement of block \<open>n\<close> moves to the next one. \<open>sending_done\<close> follows from it for the whole file.
  \<^item> The last section holds what the client does with the repetition of a block whose number is 0, with a last
    block that does not fit, with block numbers that take the address past the 32 bits, and with a server that
    acknowledges a write request without options.
\<close>

subsection \<open>Uploads\<close>

text \<open>\<open>content\<close> is the memory to save, \<open>dst\<close> its address.\<close>

definition put_ok :: "job \<Rightarrow> bool" where
  "put_ok j \<longleftrightarrow> 0 < bsize j \<and> bsize j < 65536 \<and> unat (dst j) + length (content j) < 2 ^ 32
     \<and> bytes_at (ram0 j) (unat (dst j)) (length (content j)) = content j"

definition ack_packet :: "nat \<Rightarrow> bytes" where
  "ack_packet n = be16 4 @ be16 (word_of_nat n)"

definition acked :: "job \<Rightarrow> nat \<Rightarrow> tftp \<Rightarrow> tftp" where
  "acked j n st = TftpHandler (packet (ack_packet n)) (oport j) (sport j) 4 st"

definition put_call :: "job \<Rightarrow> nat \<Rightarrow> net_call" where
  "put_call j n = NetSendUDPPacket (sport j) (data_packet (content j) (bsize j) n)"

definition sending :: "job \<Rightarrow> nat \<Rightarrow> tftp \<Rightarrow> bool" where
  "sending j n st \<longleftrightarrow>
     TftpState st = STATE_DATA \<and> TftpWriting st \<and> TftpOurPort st = oport j \<and> TftpRemotePort st = sport j
     \<and> TftpBlkSize st = word_of_nat (bsize j) \<and> t_save_addr st = dst j \<and> ram st = ram0 j
     \<and> NetBootFileXferSize st = word_of_nat (length (content j))
     \<and> 0 < n \<and> n \<le> blocks (content j) (bsize j)
     \<and> TftpBlock st = word_of_nat (n mod 65536)
     \<and> TftpBlockWrapOffset st = word_of_nat (bsize j * 65536 * (n div 65536))
     \<and> TftpFinalBlock st = (n = blocks (content j) (bsize j))
     \<and> net_state st = NETLOOP_CONTINUE"

lemma ack_fields: "ntohs (packet (ack_packet n)) 0 = 4" "ntohs (packet (ack_packet n)) 2 = word_of_nat n"
  using packet_part [of "[]" "be16 4"] packet_part [of "be16 4" "be16 (word_of_nat n)" "[]"]
  by (auto simp: ack_packet_def intro!: ntohs_be16)

lemma drop_bytes_at: "xs = bytes_at m p (a + c) \<Longrightarrow> drop a xs = bytes_at m (p + a) c"
  by (simp add: bytes_at_append)

lemma load_block_part:
  assumes ok: "put_ok j" and i: "i < blocks (content j) (bsize j)"
    and st: "t_save_addr st = dst j" "ram st = ram0 j" "NetBootFileXferSize st = word_of_nat (length (content j))"
    and off: "(blk - 1) * word_of_nat (bsize j) + TftpBlockWrapOffset st = word_of_nat (i * bsize j)"
  shows "load_block blk (word_of_nat (bsize j)) st = block_of (content j) (bsize j) (Suc i)"
proof -
  have b: "0 < bsize j" "bsize j < 65536" "unat (dst j) + length (content j) < 2 ^ 32"
    using ok by (auto simp: put_ok_def)
  have ib: "i * bsize j \<le> length (content j)" using i b by (simp add: blocks_le)
  then have left: "(word_of_nat (length (content j)) :: u32) - word_of_nat (i * bsize j)
      = word_of_nat (length (content j) - i * bsize j)"
    by (simp add: of_nat_diff)
  have n: "unat (min (word_of_nat (length (content j) - i * bsize j)) (word_of_nat (bsize j) :: u32))
      = min (length (content j) - i * bsize j) (bsize j)"
    using b by (simp add: min_def word_le_nat_alt unat_of_nat)
  have at: "unat (dst j + word_of_nat (i * bsize j)) = unat (dst j) + i * bsize j"
    using b ib by (simp add: unat_word_ariths unat_of_nat del: of_nat_mult)
  have "content j = bytes_at (ram0 j) (unat (dst j)) (i * bsize j + (length (content j) - i * bsize j))"
    using ok ib by (simp add: put_ok_def)
  then have "drop (i * bsize j) (content j)
      = bytes_at (ram0 j) (unat (dst j) + i * bsize j) (length (content j) - i * bsize j)"
    by (rule drop_bytes_at)
  then show ?thesis
    unfolding load_block_def Let_def off st left n at block_of_def by (simp add: min.commute)
qed

lemma TftpSend_block:
  assumes ok: "put_ok j" and i: "i < blocks (content j) (bsize j)"
    and st: "TftpState st = STATE_DATA" "TftpWriting st" "TftpRemotePort st = sport j"
      "TftpBlkSize st = word_of_nat (bsize j)" "t_save_addr st = dst j" "ram st = ram0 j"
      "NetBootFileXferSize st = word_of_nat (length (content j))" "TftpBlock st = word_of_nat (Suc i mod 65536)"
      "TftpBlockWrapOffset st = word_of_nat (bsize j * 65536 * (Suc i div 65536))"
  shows "TftpSend st = st\<lparr>TftpFinalBlock := (Suc i = blocks (content j) (bsize j)), calls := calls st @ [put_call j (Suc i)]\<rparr>"
proof -
  have b: "0 < bsize j" "bsize j < 65536" using ok by (auto simp: put_ok_def)
  then have bs: "(ucast (TftpBlkSize st) :: u32) = word_of_nat (bsize j)" using st by (simp add: ucast_block)
  have "load_block (TftpBlock st) (word_of_nat (bsize j)) st = block_of (content j) (bsize j) (Suc i)"
    using st by (intro load_block_part [OF ok i]) (simp_all add: block_offset del: of_nat_mult)
  then show ?thesis
    using st b block_of_short [OF b(1) i] unfolding TftpSend_def bs Let_def
    by (simp add: send_packet_def call_def put_call_def data_packet_def ack_number unat_of_nat del: of_nat_Suc)
qed

lemma acked_next:
  assumes ok: "put_ok j" and s: "sending j n st" and n: "n < blocks (content j) (bsize j)"
  shows "sending j (Suc n) (acked j n st) \<and> calls (acked j n st) = calls st @ [put_call j (Suc n)]"
proof -
  let ?s = "update_block_number (st\<lparr>TftpBlock := word_of_nat (Suc n mod 65536)\<rparr>)"
  note f = s [unfolded sending_def]
  have b: "(ucast (TftpBlkSize st) :: u32) = word_of_nat (bsize j)"
    using ok f by (simp add: ucast_block put_ok_def)
  have blk: "(ucast (word_of_nat n + 1 :: u16) :: u32) = word_of_nat (Suc n mod 65536)"
    using ucast_block [of "Suc n"] by (simp add: add.commute)
  have eq: "acked j n st = TftpSend ?s"
    using f n by (simp add: acked_def TftpHandler_def ack_fields handle_ack_def blk ucast_block Let_def)
  have off: "TftpBlockWrapOffset ?s = word_of_nat (bsize j * 65536 * (Suc n div 65536))"
    using f b unfolding update_block_number_def wrap_div [of n]
    by (simp add: block_number_0 TFTP_SEQUENCE_SIZE_def distrib_left ac_simps)
  have keep: "TftpState ?s = STATE_DATA" "TftpWriting ?s" "TftpRemotePort ?s = sport j" "TftpOurPort ?s = oport j"
    "TftpBlkSize ?s = word_of_nat (bsize j)" "t_save_addr ?s = dst j" "ram ?s = ram0 j"
    "NetBootFileXferSize ?s = word_of_nat (length (content j))" "TftpBlock ?s = word_of_nat (Suc n mod 65536)"
    "net_state ?s = NETLOOP_CONTINUE" "calls ?s = calls st"
    using f by (simp_all add: update_block_number_def)
  have "TftpSend ?s = ?s\<lparr>TftpFinalBlock := (Suc n = blocks (content j) (bsize j)), calls := calls ?s @ [put_call j (Suc n)]\<rparr>"
    by (rule TftpSend_block [OF ok n]) (simp_all only: keep off)
  then show ?thesis
    unfolding eq sending_def using n off keep by simp
qed

lemma acked_last: "sending j (blocks (content j) (bsize j)) st \<Longrightarrow>
  acked j (blocks (content j) (bsize j)) st = st\<lparr>net_state := NETLOOP_SUCCESS\<rparr>"
  by (simp add: sending_def acked_def TftpHandler_def ack_fields handle_ack_def tftp_complete_def net_set_state_def Let_def)

lemma acked_rest:
  assumes ok: "put_ok j"
  shows "sending j n st \<Longrightarrow> n + d \<le> blocks (content j) (bsize j) \<Longrightarrow>
    sending j (n + d) (fold (acked j) [n..<n + d] st)
    \<and> calls (fold (acked j) [n..<n + d] st) = calls st @ map (put_call j) [Suc n..<Suc (n + d)]"
proof (induction d)
  case (Suc d)
  then have "sending j (n + d) (fold (acked j) [n..<n + d] st)"
    "calls (fold (acked j) [n..<n + d] st) = calls st @ map (put_call j) [Suc n..<Suc (n + d)]" by simp_all
  with acked_next [OF ok this(1)] Suc.prems(2) show ?case by simp
qed simp

lemma concat_blocks: "concat (map (block_of F b) [1..<Suc n]) = take (n * b) F"
proof (induction n)
  case (Suc n)
  then show ?case using block_of_take [of n b F] by simp
qed simp

definition ready_put :: "job \<Rightarrow> tftp \<Rightarrow> bool" where
  "ready_put j st \<longleftrightarrow> t_save_addr st = dst j \<and> t_save_size st = word_of_nat (length (content j))
     \<and> ram st = ram0 j \<and> net_state st = NETLOOP_CONTINUE"

lemma options_save [simp]:
  "t_save_addr (tftp_options b t st) = t_save_addr st" "t_save_size (tftp_options b t st) = t_save_size st"
  by (simp_all add: tftp_options_def Let_def split: option.split)

lemma put_first:
  assumes ok: "put_ok j" and st: "ready_put j st" "oport j = 1024 + timer mod 3072" and pk: "ntohs pk 0 = 6" "2 \<le> len"
    and s0: "s0 = TftpStart True blksize timeout ip name timer st"
    and size: "TftpBlkSize (TftpHandler pk (oport j) (sport j) len s0) = word_of_nat (bsize j)"
  shows "sending j 1 (TftpHandler pk (oport j) (sport j) len s0)
    \<and> calls (TftpHandler pk (oport j) (sport j) len s0) = calls s0 @ [put_call j 1]"
proof -
  have f: "TftpState s0 = STATE_SEND_WRQ" "TftpOurPort s0 = oport j" "TftpWriting s0" "TftpBlock s0 = 0"
    "TftpBlockWrapOffset s0 = 0" "t_save_addr s0 = dst j" "ram s0 = ram0 j"
    "NetBootFileXferSize s0 = word_of_nat (length (content j))" "net_state s0 = NETLOOP_CONTINUE"
    using st by (simp_all add: s0 TftpStart_def tftp_begin_def new_transfer_def ready_put_def TftpSend_def send_packet_def
        call_def Let_def)
  obtain b where "fold (oack_option pk) [0..<len - 2 - 8] (s0\<lparr>TftpState := STATE_OACK, TftpRemotePort := sport j\<rparr>)
      = s0\<lparr>TftpState := STATE_OACK, TftpRemotePort := sport j, TftpBlkSize := b\<rparr>"
    using oack_fold by fastforce
  then have h: "TftpHandler pk (oport j) (sport j) len s0 =
      TftpSend (s0\<lparr>TftpRemotePort := sport j, TftpBlkSize := b, TftpState := STATE_DATA, TftpBlock := 1\<rparr>)"
    using f pk by (simp add: TftpHandler_def handle_oack_def Let_def)
  have b: "b = word_of_nat (bsize j)" using size unfolding h by simp
  have "TftpSend (s0\<lparr>TftpRemotePort := sport j, TftpBlkSize := b, TftpState := STATE_DATA, TftpBlock := 1\<rparr>)
    = s0\<lparr>TftpRemotePort := sport j, TftpBlkSize := b, TftpState := STATE_DATA, TftpBlock := 1,
        TftpFinalBlock := (Suc 0 = blocks (content j) (bsize j)), calls := calls s0 @ [put_call j (Suc 0)]\<rparr>"
    using TftpSend_block [OF ok, of 0 "s0\<lparr>TftpRemotePort := sport j, TftpBlkSize := b, TftpState := STATE_DATA, TftpBlock := 1\<rparr>"]
      f b blocks_pos by simp
  then show ?thesis
    unfolding h sending_def using f b blocks_pos [of "content j" "bsize j"] by (simp add: Suc_le_eq)
qed

text \<open>
  C13: An upload to a server that answers the write request with its options, and then acknowledges every block
  in order without loss, sends the whole file: the client sends the blocks of the memory to save, each once and in
  order, which together are the file, and the last acknowledgement reports success. (A server that
  acknowledges block 0 instead is never sent a block: \<open>tftp_put_needs_options\<close>.)
\<close>

theorem tftp_upload_completes:
  assumes "put_ok j" "ready_put j st" "oport j = 1024 + timer mod 3072" "ntohs pk 0 = 6" "2 \<le> len"
    "TftpBlkSize (TftpHandler pk (oport j) (sport j) len (TftpStart True blksize timeout ip name timer st))
       = word_of_nat (bsize j)"
  shows "(let st0 = TftpStart True blksize timeout ip name timer st;
              N = blocks (content j) (bsize j);
              st' = fold (acked j) [1..<Suc N] (TftpHandler pk (oport j) (sport j) len st0)
     in net_state st' = NETLOOP_SUCCESS \<and> calls st' = calls st0 @ map (put_call j) [1..<Suc N]
        \<and> concat (map (block_of (content j) (bsize j)) [1..<Suc N]) = content j)"
proof -
  let ?s0 = "TftpStart True blksize timeout ip name timer st"
  let ?s1 = "TftpHandler pk (oport j) (sport j) len ?s0" and ?N = "blocks (content j) (bsize j)"
  note first = put_first [OF assms(1-5) refl assms(6)]
  have N: "0 < ?N" by (rule blocks_pos)
  have r: "sending j ?N (fold (acked j) [1..<?N] ?s1)"
    "calls (fold (acked j) [1..<?N] ?s1) = calls ?s0 @ put_call j 1 # map (put_call j) [2..<Suc ?N]"
    using acked_rest [OF assms(1) first [THEN conjunct1], of "?N - 1"] N first by (simp_all add: numeral_2_eq_2)
  have "length (content j) < ?N * bsize j"
    using assms(1) dividend_less_times_div [of "bsize j" "length (content j)"]
    by (simp add: put_ok_def blocks_def mult.commute)
  then have "concat (map (block_of (content j) (bsize j)) [1..<Suc ?N]) = content j"
    unfolding concat_blocks by simp
  moreover have "map (put_call j) [1..<Suc ?N] = put_call j 1 # map (put_call j) [2..<Suc ?N]"
    using N by (simp add: upt_conv_Cons numeral_2_eq_2 del: upt_Suc)
  moreover have "fold (acked j) [1..<Suc ?N] ?s1 = acked j ?N (fold (acked j) [1..<?N] ?s1)" using N by simp
  ultimately show ?thesis unfolding Let_def using r acked_last [OF r(1)] by simp
qed

definition demo_put :: job where
  "demo_put = \<lparr>content = [7, 8, 9], bsize = 512, sport = 2000, oport = 1024, dst = 0x84000000,
     memtop = 0x90000000, ram0 = store (\<lambda>_. 0) 0x84000000 [7, 8, 9]\<rparr>"

definition demo_put_started :: tftp where
  "demo_put_started = TftpStart True None None 0 (bs ''log'') 0
     (demo_tftp\<lparr>t_save_addr := 0x84000000, t_save_size := 3, ram := ram0 demo_put\<rparr>)"

theorem tftp_upload_completes_witness:
  "(let st' = fold (acked demo_put) [1..<2] (TftpHandler (packet [0, 6]) 1024 2000 2 demo_put_started)
    in net_state st' = NETLOOP_SUCCESS
       \<and> calls st' = calls demo_put_started @ [NetSendUDPPacket 2000 [0, 3, 0, 1, 7, 8, 9]])"
proof -
  have "bytes_at (store (\<lambda>_. 0) 0x84000000 [7, 8, 9]) 0x84000000 (length [7, 8, 9 :: u8]) = [7, 8, 9]"
    by (rule bytes_at_store_in)
  then have a: "put_ok demo_put" by (simp add: put_ok_def demo_put_def)
  have b: "ready_put demo_put (demo_tftp\<lparr>t_save_addr := 0x84000000, t_save_size := 3, ram := ram0 demo_put\<rparr>)"
    by (simp add: ready_put_def demo_put_def demo_tftp_def)
  have c: "ntohs (packet [0, 6]) 0 = 6" by (simp add: ntohs_def packet_def store_def)
  have d: "TftpBlkSize (TftpHandler (packet [0, 6]) (oport demo_put) (sport demo_put) 2 demo_put_started)
      = word_of_nat (bsize demo_put)"
    by (simp add: demo_put_started_def TftpStart_def demo_tftp_def demo_put_def tftp_options_def tftp_begin_def
        new_transfer_def TftpHandler_def handle_oack_def handle_ack_def handle_data_def handle_error_def ntohs_def packet_def store_def Let_def)
  have e: "oport demo_put = 1024 + 0 mod 3072" "sport demo_put = 2000" "blocks (content demo_put) (bsize demo_put) = 1"
    "put_call demo_put (Suc 0) = NetSendUDPPacket 2000 [0, 3, 0, 1, 7, 8, 9]"
    by (simp_all add: demo_put_def blocks_def put_call_def data_packet_def be16_def block_of_def)
  from tftp_upload_completes [OF a b e(1) c _ d [unfolded demo_put_started_def], folded demo_put_started_def]
  show ?thesis by (simp add: e Let_def numeral_2_eq_2)
qed

subsection \<open>Where the client goes wrong\<close>

text \<open>The repetition of a block whose number has wrapped to 0 is not stored again, but moves the offset of
  every later block on by 65536 blocks.\<close>

theorem tftp_repeat_of_block_0:
  assumes "session j n st" "job_ok j" "0 < n" "n mod 65536 = 0"
  shows "ram (deliver j n st) = ram st
    \<and> TftpBlockWrapOffset (deliver j n st) = TftpBlockWrapOffset st + word_of_nat (bsize j * 65536)"
proof -
  note r = session_receiving [OF assms(1,2)]
  with assms(3) obtain m where m: "loaded j n m st" by (auto simp: receiving_def)
  then have "m \<le> n" "m div 65536 = n div 65536" by (simp_all add: loaded_def)
  then have "m mod 65536 = 0"
    using assms(4) div_mult_mod_eq [of m 65536] div_mult_mod_eq [of n 65536] by linarith
  moreover have d: "TftpState st = STATE_DATA" using m by (simp add: loaded_def)
  moreover have "deliver j n st = handle_block (packet (data_packet (content j) (bsize j) n))
      (length (block_of (content j) (bsize j) n)) (seen j n st)"
    using r m by (intro deliver_seen) (auto simp: receiving_def loaded_def)
  ultimately have "deliver j n st = seen j n st"
    using m seen_later [OF d, of j n] assms(4) by (simp add: handle_block_def loaded_def)
  moreover have "(ucast (TftpBlkSize st) :: u32) = word_of_nat (bsize j)"
    using m assms(2) by (simp add: loaded_def job_ok_def ucast_block)
  ultimately show ?thesis
    using seen_later [OF d, of j n] assms(4) by (simp add: TFTP_SEQUENCE_SIZE_def)
qed

text \<open>A last block that does not fit is not stored, and yet the transfer ends as a success.\<close>

theorem tftp_too_large_reported_done:
  assumes "TftpBlock st \<noteq> TftpLastBlock st" "len < unat (TftpBlkSize st)"
    and big: "t_load_addr st + ((TftpBlock st - 1) * ucast (TftpBlkSize st) + TftpBlockWrapOffset st + word_of_nat len)
      \<ge> SDRAM_END st"
  shows "net_state (handle_block pk len st) = NETLOOP_SUCCESS \<and> ram (handle_block pk len st) = ram st
    \<and> TftpState (handle_block pk len st) = STATE_TOO_LARGE"
  using assms by (simp add: handle_block_def store_block_def net_set_state_def tftp_complete_def call_def Let_def)

text \<open>The end of a block is computed in 32 bits: a server that skips to block 30755 of 65464 bytes makes a file
  loaded at \<open>0x88000000\<close> overwrite memory at \<open>0x3670\<close>, which is not even RAM.\<close>

theorem tftp_store_wraps:
  assumes "TftpBlkSize st = 65464" "TftpBlockWrapOffset st = 0" "t_load_addr st = 0x88000000"
    "SDRAM_END st = 0x90000000" "length src = 4"
  shows "ram (store_block 30754 src st) = store (ram st) 0x3670 src \<and> net_state (store_block 30754 src st) = net_state st"
  using assms by (simp add: store_block_def IPQ_TFTP_MAX_ADDR_def TZ_END_ADDR_def Let_def)

text \<open>A server without options answers a write request with the acknowledgement of block 0: the client sends
  the request again, to the well-known port, and never a block.\<close>

theorem tftp_put_needs_options:
  assumes "TftpState st = STATE_SEND_WRQ" "TftpWriting st" "\<not> TftpFinalBlock st" "TftpBlock st = 0"
    "TftpOurPort st = port" "TftpRemotePort st = WELL_KNOWN_PORT"
  shows "calls (TftpHandler (packet (ack_packet 0)) port src 4 st) =
      calls st @ [NetSendUDPPacket WELL_KNOWN_PORT (tftp_request st)]
    \<and> TftpState (TftpHandler (packet (ack_packet 0)) port src 4 st) = STATE_SEND_WRQ"
  using assms
  by (simp add: TftpHandler_def ack_fields handle_ack_def update_block_number_def TftpSend_def send_packet_def
      call_def tftp_request_def Let_def)

end
