(* ===== verification/Net.thy ===== *)
theory Net
  imports Tftp
begin

text \<open>
  The Ethernet, ARP, IP, UDP and ICMP layer: \<open>net/net.c\<close>, \<open>net/arp.c\<close> and \<open>net/ping.c\<close>, as the board builds
  them (ping and uploads compiled in; no defragmentation, UDP checksum, CDP, RARP or net console).

  \<^item> A packet buffer is a memory that starts at the Ethernet header. The fields of the headers are at their
    offsets; 16-bit fields are big-endian, an \<open>IPaddr_t\<close> is kept in network byte order, so it is the
    little-endian word of its four bytes.
  \<^item> The record \<open>net\<close> holds the globals, among them the transmit buffer, and \<open>acts\<close>, what was done to the
    Ethernet device, in order: frames sent, the device halted or started.
  \<^item> What \<open>NetReceive\<close> hands to the UDP or ICMP handler is returned as a \<open>delivery\<close>; a UDP payload is a position
    in the receive buffer with the length that the handler is told. The web server of the recovery mode, which
    takes all packets when it runs, is not running.
\<close>

datatype eth_act = EthSend bytes | EthHalt | EthInit

text \<open>The arrays \<open>NetServerEther\<close> and \<open>NetBcastAddr\<close> as the targets of a pointer.\<close>

datatype ether = ServerEther | BcastAddr

datatype thand = TftpTimeoutHandler | PingTimeout | StartAgainTimeout | BootpTimeoutHandler

datatype delivery =
    UdpPacket nat u16 u32 u16 u32
  | IcmpPacket u8 u8 u16 u32 u16 nat u16

record net =
  NetOurIP :: u32
  NetOurGatewayIP :: u32
  NetOurSubnetMask :: u32
  NetOurEther :: bytes
  NetServerEther :: bytes
  NetOurVLAN :: u16
  NetOurNativeVLAN :: u16
  NetIPID :: u32
  NetTxPacket :: mem
  NetArpTxPacket :: mem
  NetArpWaitPacketIP :: u32
  NetArpWaitReplyIP :: u32
  NetArpWaitPacketMAC :: "ether option"
  NetArpWaitTxPacketSize :: nat
  NetArpWaitTimerStart :: u32
  NetArpWaitTry :: nat
  NetPingIP :: u32
  PingSeqNo :: u16
  NetTryCount :: nat
  NetRestarted :: bool
  NetRestartWrap :: bool
  NetDevExists :: bool
  timeHandler :: "thand option"
  timeStart :: u32
  timeDelta :: u32
  udp_handler_set :: bool
  icmp_handler_set :: bool
  nstate :: net_loop_state
  acts :: "eth_act list"

definition set_nstate :: "net_loop_state \<Rightarrow> net \<Rightarrow> net" where
  "set_nstate s st = st\<lparr>nstate := s\<rparr>"

definition act :: "eth_act \<Rightarrow> net \<Rightarrow> net" where
  "act a st = st\<lparr>acts := acts st @ [a]\<rparr>"

definition NetSendPacket :: "mem \<Rightarrow> nat \<Rightarrow> net \<Rightarrow> net" where
  "NetSendPacket pkt len st = act (EthSend (bytes_at pkt 0 len)) st"

subsection \<open>Fields\<close>

definition VLAN_NONE :: u16 where "VLAN_NONE = 4095"
definition VLAN_IDMASK :: u16 where "VLAN_IDMASK = 0xfff"
definition PROT_IP :: u16 where "PROT_IP = 0x800"
definition PROT_ARP :: u16 where "PROT_ARP = 0x806"
definition PROT_VLAN :: u16 where "PROT_VLAN = 0x8100"
definition IPPROTO_ICMP :: u8 where "IPPROTO_ICMP = 1"
definition IPPROTO_UDP :: u8 where "IPPROTO_UDP = 17"

definition NetBcastAddr :: bytes where "NetBcastAddr = replicate 6 255"
definition NetEtherNullAddr :: bytes where "NetEtherNullAddr = replicate 6 0"

definition swab16 :: "u16 \<Rightarrow> u16" where
  "swab16 w = push_bit 8 w OR drop_bit 8 w"

definition put16 :: "nat \<Rightarrow> u16 \<Rightarrow> mem \<Rightarrow> mem" where
  "put16 p w pkt = store pkt p (be16 w)"

definition NetReadIP :: "mem \<Rightarrow> nat \<Rightarrow> u32" where
  "NetReadIP pkt p = le32 (pkt p) (pkt (p + 1)) (pkt (p + 2)) (pkt (p + 3))"

definition NetWriteIP :: "nat \<Rightarrow> u32 \<Rightarrow> mem \<Rightarrow> mem" where
  "NetWriteIP p ip pkt = store pkt p (put_le32 ip)"

definition NetCopyIP :: "nat \<Rightarrow> nat \<Rightarrow> mem \<Rightarrow> mem" where
  "NetCopyIP to from pkt = store pkt to (bytes_at pkt from 4)"

definition ether_addr :: "ether \<Rightarrow> net \<Rightarrow> bytes" where
  "ether_addr e st = (case e of ServerEther \<Rightarrow> NetServerEther st | BcastAddr \<Rightarrow> NetBcastAddr)"

subsection \<open>The checksum\<close>

text \<open>The 16-bit words are read as the little-endian target reads them.\<close>

definition NetCksum :: "mem \<Rightarrow> nat \<Rightarrow> nat \<Rightarrow> u32" where
  "NetCksum pkt p len =
     (let xsum = sum_list (map (\<lambda>i. ucast (pkt (p + 2 * i)) + 256 * ucast (pkt (p + 2 * i + 1))) [0..<len]);
          xsum = (xsum AND 0xffff) + drop_bit 16 xsum;
          xsum = (xsum AND 0xffff) + drop_bit 16 xsum
      in xsum AND 0xffff)"

definition NetCksumOk :: "mem \<Rightarrow> nat \<Rightarrow> nat \<Rightarrow> bool" where
  "NetCksumOk pkt p len \<longleftrightarrow> (NetCksum pkt p len + 1) AND 0xfffe = 0"

text \<open>The complement of the checksum of the \<open>len\<close> words at \<open>p\<close>, stored in the field at \<open>f\<close>.\<close>

definition put_cksum :: "nat \<Rightarrow> nat \<Rightarrow> nat \<Rightarrow> mem \<Rightarrow> mem" where
  "put_cksum f p len pkt =
     (let c = NOT (NetCksum pkt p len) in store pkt f [ucast c, ucast (drop_bit 8 c)])"

subsection \<open>Building headers\<close>

definition our_vlan :: "u16 \<Rightarrow> u16" where
  "our_vlan v = (if swab16 v = 0xffff then VLAN_NONE else swab16 v)"

definition NetEthHdrSize :: "net \<Rightarrow> nat" where
  "NetEthHdrSize st = (if our_vlan (NetOurVLAN st) AND VLAN_IDMASK = VLAN_NONE then 14 else 18)"

definition NetSetEther :: "net \<Rightarrow> bytes \<Rightarrow> u16 \<Rightarrow> mem \<Rightarrow> mem \<times> nat" where
  "NetSetEther st addr prot pkt =
     (let myvlanid = our_vlan (NetOurVLAN st);
          pkt = store pkt 0 addr;
          pkt = store pkt 6 (NetOurEther st)
      in if myvlanid AND VLAN_IDMASK = VLAN_NONE then (put16 12 prot pkt, 14)
         else (put16 16 prot (put16 14 (myvlanid AND VLAN_IDMASK) (put16 12 PROT_VLAN pkt)), 18))"

definition net_update_ether :: "net \<Rightarrow> bytes \<Rightarrow> u16 \<Rightarrow> mem \<Rightarrow> mem \<times> nat" where
  "net_update_ether st addr prot pkt =
     (let pkt = store pkt 0 addr;
          pkt = store pkt 6 (NetOurEther st);
          protlen = ntohs pkt 12
      in if protlen = PROT_VLAN then (put16 16 prot pkt, 18)
         else if protlen > 1514 then (put16 12 prot pkt, 14)
         else (put16 20 prot pkt, 22))"

text \<open>The headers of the IP packet that starts at \<open>p\<close>.\<close>

definition net_set_ip_header :: "nat \<Rightarrow> u32 \<Rightarrow> u32 \<Rightarrow> net \<Rightarrow> mem \<Rightarrow> mem \<times> net" where
  "net_set_ip_header p dest source st pkt =
     (let pkt = pkt(p := 0x45, p + 1 := 0);
          pkt = put16 (p + 2) 20 pkt;
          pkt = put16 (p + 4) (ucast (NetIPID st)) pkt;
          pkt = put16 (p + 6) 0x4000 pkt;
          pkt = pkt(p + 8 := 255);
          pkt = store pkt (p + 10) [0, 0];
          pkt = NetWriteIP (p + 12) source pkt;
          pkt = NetWriteIP (p + 16) dest pkt
      in (pkt, st\<lparr>NetIPID := NetIPID st + 1\<rparr>))"

definition net_set_udp_header :: "nat \<Rightarrow> u32 \<Rightarrow> u16 \<Rightarrow> u16 \<Rightarrow> nat \<Rightarrow> net \<Rightarrow> mem \<Rightarrow> mem \<times> net" where
  "net_set_udp_header p dest dport sport len st pkt =
     (let pkt = (if odd len then pkt(p + 28 + len := 0) else pkt);
          (pkt, st) = net_set_ip_header p dest (NetOurIP st) st pkt;
          pkt = put16 (p + 2) (word_of_nat (28 + len)) pkt;
          pkt = pkt(p + 9 := IPPROTO_UDP);
          pkt = put_cksum (p + 10) p 10 pkt;
          pkt = put16 (p + 20) sport pkt;
          pkt = put16 (p + 22) dport pkt;
          pkt = put16 (p + 24) (word_of_nat (8 + len)) pkt;
          pkt = put16 (p + 26) 0 pkt
      in (pkt, st))"

subsection \<open>Timers and restarts\<close>

definition NetSetTimeout_net :: "u32 \<Rightarrow> thand \<Rightarrow> u32 \<Rightarrow> net \<Rightarrow> net" where
  "NetSetTimeout_net iv f now st =
     (if iv = 0 then st\<lparr>timeHandler := None\<rparr>
      else st\<lparr>timeHandler := Some f, timeStart := now, timeDelta := iv\<rparr>)"

text \<open>\<open>nretry\<close> is the variable \<open>netretry\<close>; \<open>eth_try_another\<close> tells whether it came back to the first device that
  failed.\<close>

definition NetStartAgain_net :: "bytes option \<Rightarrow> (bool \<Rightarrow> bool) \<Rightarrow> u32 \<Rightarrow> net \<Rightarrow> net" where
  "NetStartAgain_net nretry eth_try_another now st =
     (let (retry_forever, retrycnt) =
            (case nretry of
               None \<Rightarrow> (True, 0)
             | Some s \<Rightarrow>
                 if s = bs ''yes'' then (True, 0)
                 else if s = bs ''no'' then (False, 0)
                 else if s = bs ''once'' then (False, 1)
                 else (False, unat (fst (simple_strtoul s 0))))
      in if \<not> retry_forever \<and> NetTryCount st \<ge> retrycnt then set_nstate NETLOOP_FAIL (act EthHalt st)
         else let st = act EthHalt (st\<lparr>NetTryCount := NetTryCount st + 1\<rparr>);
                  st = (if eth_try_another (\<not> NetRestarted st) then st\<lparr>NetRestartWrap := True\<rparr> else st);
                  st = act EthInit st
              in if NetRestartWrap st
                 then let st = st\<lparr>NetRestartWrap := False\<rparr>
                      in if NetDevExists st
                         then (NetSetTimeout_net 10000 StartAgainTimeout now st)\<lparr>udp_handler_set := False\<rparr>
                         else set_nstate NETLOOP_FAIL st
                 else set_nstate NETLOOP_RESTART st)"

subsection \<open>ARP\<close>

definition ARP_TIMEOUT :: u32 where "ARP_TIMEOUT = 5000"
definition ARP_TIMEOUT_COUNT :: nat where "ARP_TIMEOUT_COUNT = 500"

definition ArpInit :: "net \<Rightarrow> net" where
  "ArpInit st = st\<lparr>NetArpWaitPacketMAC := None, NetArpWaitPacketIP := 0, NetArpWaitReplyIP := 0,
     NetArpWaitTxPacketSize := 0\<rparr>"

definition arp_raw_request :: "u32 \<Rightarrow> bytes \<Rightarrow> u32 \<Rightarrow> net \<Rightarrow> net" where
  "arp_raw_request sourceIP targetEther targetIP st =
     (let (pkt, p) = NetSetEther st NetBcastAddr PROT_ARP (NetArpTxPacket st);
          pkt = put16 p 1 pkt;
          pkt = put16 (p + 2) PROT_IP pkt;
          pkt = pkt(p + 4 := 6, p + 5 := 4);
          pkt = put16 (p + 6) 1 pkt;
          pkt = store pkt (p + 8) (NetOurEther st);
          pkt = NetWriteIP (p + 14) sourceIP pkt;
          pkt = store pkt (p + 18) targetEther;
          pkt = NetWriteIP (p + 24) targetIP pkt
      in NetSendPacket pkt (p + 28) (st\<lparr>NetArpTxPacket := pkt\<rparr>))"

definition ArpRequest :: "net \<Rightarrow> net" where
  "ArpRequest st =
     (let reply = (if NetArpWaitPacketIP st AND NetOurSubnetMask st \<noteq> NetOurIP st AND NetOurSubnetMask st
                      \<and> NetOurGatewayIP st \<noteq> 0
                   then NetOurGatewayIP st else NetArpWaitPacketIP st)
      in arp_raw_request (NetOurIP st) NetEtherNullAddr reply (st\<lparr>NetArpWaitReplyIP := reply\<rparr>))"

definition ArpTimeoutCheck :: "bytes option \<Rightarrow> (bool \<Rightarrow> bool) \<Rightarrow> u32 \<Rightarrow> net \<Rightarrow> net" where
  "ArpTimeoutCheck nretry eth_try_another t st =
     (if NetArpWaitPacketIP st = 0 then st
      else if t - NetArpWaitTimerStart st > ARP_TIMEOUT
      then let st = st\<lparr>NetArpWaitTry := NetArpWaitTry st + 1\<rparr>
           in if NetArpWaitTry st \<ge> ARP_TIMEOUT_COUNT
              then NetStartAgain_net nretry eth_try_another t (st\<lparr>NetArpWaitTry := 0\<rparr>)
              else ArpRequest (st\<lparr>NetArpWaitTimerStart := t\<rparr>)
      else st)"

text \<open>The ARP packet is at \<open>p\<close> of the frame. The handler for ARP packets is the dummy one.\<close>

definition arp_answer :: "mem \<Rightarrow> nat \<Rightarrow> net \<Rightarrow> net" where
  "arp_answer pkt p st =
     (let (pkt, eth_hdr_size) = net_update_ether st (bytes_at pkt 6 6) PROT_ARP pkt;
          pkt = put16 (p + 6) 2 pkt;
          pkt = store pkt (p + 18) (bytes_at pkt (p + 8) 6);
          pkt = NetCopyIP (p + 24) (p + 14) pkt;
          pkt = store pkt (p + 8) (NetOurEther st);
          pkt = NetWriteIP (p + 14) (NetOurIP st) pkt
      in NetSendPacket pkt (eth_hdr_size + 28) st)"

definition arp_learn :: "mem \<Rightarrow> nat \<Rightarrow> net \<Rightarrow> net" where
  "arp_learn pkt p st =
     (if NetArpWaitPacketIP st = 0 then st
      else if NetReadIP pkt (p + 14) = NetArpWaitReplyIP st
      then let sha = bytes_at pkt (p + 8) 6;
               st = (if NetArpWaitPacketMAC st = Some ServerEther then st\<lparr>NetServerEther := sha\<rparr> else st);
               st = st\<lparr>NetTxPacket := store (NetTxPacket st) 0 sha\<rparr>;
               st = NetSendPacket (NetTxPacket st) (NetArpWaitTxPacketSize st) st
           in st\<lparr>NetArpWaitPacketIP := 0, NetArpWaitTxPacketSize := 0, NetArpWaitPacketMAC := None\<rparr>
      else st)"

definition ArpReceive :: "mem \<Rightarrow> nat \<Rightarrow> int \<Rightarrow> net \<Rightarrow> net" where
  "ArpReceive pkt p len st =
     (if len < 28 then st
      else if ntohs pkt p \<noteq> 1 then st
      else if ntohs pkt (p + 2) \<noteq> PROT_IP then st
      else if pkt (p + 4) \<noteq> 6 then st
      else if pkt (p + 5) \<noteq> 4 then st
      else if NetOurIP st = 0 then st
      else if NetReadIP pkt (p + 24) \<noteq> NetOurIP st then st
      else if ntohs pkt (p + 6) = 1 then arp_answer pkt p st
      else if ntohs pkt (p + 6) = 2 then arp_learn pkt p st
      else st)"

subsection \<open>Sending\<close>

text \<open>The payload is in the transmit buffer behind the headers. The result tells whether the packet waits for
  an address.\<close>

definition NetSendUDPPacket_net :: "ether \<Rightarrow> u32 \<Rightarrow> u16 \<Rightarrow> u16 \<Rightarrow> nat \<Rightarrow> u32 \<Rightarrow> net \<Rightarrow> int \<times> net" where
  "NetSendUDPPacket_net e dest dport sport payload_len now st =
     (let dest = (if dest = 0 then 0xffffffff else dest);
          e = (if dest = 0xffffffff then BcastAddr else e);
          (pkt, eth_hdr_size) = NetSetEther st (ether_addr e st) PROT_IP (NetTxPacket st);
          (pkt, st) = net_set_udp_header eth_hdr_size dest dport sport payload_len st pkt;
          st = st\<lparr>NetTxPacket := pkt\<rparr>;
          pkt_hdr_size = eth_hdr_size + 28
      in if ether_addr e st = NetEtherNullAddr
         then (1, ArpRequest (st\<lparr>NetArpWaitPacketIP := dest, NetArpWaitPacketMAC := Some e,
                 NetArpWaitTxPacketSize := pkt_hdr_size + payload_len, NetArpWaitTry := 1, NetArpWaitTimerStart := now\<rparr>))
         else (0, NetSendPacket pkt (pkt_hdr_size + payload_len) st))"

subsection \<open>Ping\<close>

definition set_icmp_header :: "nat \<Rightarrow> u32 \<Rightarrow> net \<Rightarrow> mem \<Rightarrow> mem \<times> net" where
  "set_icmp_header p dest st pkt =
     (let (pkt, st) = net_set_ip_header p dest (NetOurIP st) st pkt;
          pkt = put16 (p + 2) 28 pkt;
          pkt = pkt(p + 9 := IPPROTO_ICMP);
          pkt = put_cksum (p + 10) p 10 pkt;
          pkt = pkt(p + 20 := 8, p + 21 := 0);
          pkt = store pkt (p + 22) [0, 0];
          pkt = store pkt (p + 24) [0, 0];
          pkt = put16 (p + 26) (PingSeqNo st) pkt;
          pkt = put_cksum (p + 22) (p + 20) 4 pkt
      in (pkt, st\<lparr>PingSeqNo := PingSeqNo st + 1\<rparr>))"

definition ping_send :: "u32 \<Rightarrow> net \<Rightarrow> net" where
  "ping_send now st =
     (let st = st\<lparr>NetArpWaitPacketIP := NetPingIP st\<rparr>;
          (pkt, eth_hdr_size) = NetSetEther st NetEtherNullAddr PROT_IP (NetTxPacket st);
          (pkt, st) = set_icmp_header eth_hdr_size (NetPingIP st) st pkt
      in ArpRequest (st\<lparr>NetTxPacket := pkt, NetArpWaitTxPacketSize := eth_hdr_size + 28, NetArpWaitTry := 1,
           NetArpWaitTimerStart := now\<rparr>))"

definition ping_timeout :: "net \<Rightarrow> net" where
  "ping_timeout st = set_nstate NETLOOP_FAIL (act EthHalt st)"

definition ping_start :: "u32 \<Rightarrow> net \<Rightarrow> net" where
  "ping_start now st = ping_send now (NetSetTimeout_net 10000 PingTimeout now st)"

text \<open>The IP packet of \<open>len\<close> bytes is at \<open>p\<close> of the frame, which the reply overwrites. The length of the ICMP
  message is computed unsigned.\<close>

definition ping_receive :: "mem \<Rightarrow> nat \<Rightarrow> nat \<Rightarrow> net \<Rightarrow> mem \<times> net" where
  "ping_receive pkt p len st =
     (if pkt (p + 20) = 0
      then (pkt, if NetReadIP pkt (p + 12) = NetPingIP st then set_nstate NETLOOP_SUCCESS st else st)
      else if pkt (p + 20) = 8
      then let (pkt, eth_hdr_size) = net_update_ether st (bytes_at pkt 6 6) PROT_IP pkt;
               pkt = store pkt (p + 10) [0, 0];
               pkt = store pkt (p + 6) [0, 0];
               pkt = NetCopyIP (p + 16) (p + 12) pkt;
               pkt = NetWriteIP (p + 12) (NetOurIP st) pkt;
               pkt = put_cksum (p + 10) p 10 pkt;
               pkt = pkt(p + 20 := 0);
               pkt = store pkt (p + 22) [0, 0];
               pkt = put_cksum (p + 22) (p + 20) (unat (drop_bit 1 (word_of_nat len - 20 :: u32))) pkt
           in (pkt, NetSendPacket pkt (eth_hdr_size + len) st)
      else (pkt, st))"

subsection \<open>Receiving\<close>

definition receive_icmp :: "mem \<Rightarrow> nat \<Rightarrow> nat \<Rightarrow> u32 \<Rightarrow> net \<Rightarrow> net \<times> delivery option" where
  "receive_icmp pkt p len src_ip st =
     (if pkt (p + 20) = 5 then (st, None)
      else let (pkt, st) = ping_receive pkt p len st
           in (st, if icmp_handler_set st
                   then Some (IcmpPacket (pkt (p + 20)) (pkt (p + 21)) (ntohs pkt (p + 22)) src_ip (ntohs pkt (p + 20))
                          (p + 24) (ntohs pkt (p + 24)))
                   else None))"

text \<open>The IP packet at \<open>p\<close>, of which \<open>len\<close> bytes were received. The first test compares unsigned, so it lets a
  negative length pass; the second one does not.\<close>

definition ip_receive :: "mem \<Rightarrow> nat \<Rightarrow> int \<Rightarrow> net \<Rightarrow> net \<times> delivery option" where
  "ip_receive pkt p len st =
     (if (word_of_int len :: u32) < 28 then (st, None)
      else if len < int (unat (ntohs pkt (p + 2))) then (st, None)
      else let len = unat (ntohs pkt (p + 2))
           in if pkt p AND 0xf0 \<noteq> 0x40 then (st, None)
              else if pkt p AND 0x0f > 5 then (st, None)
              else if \<not> NetCksumOk pkt p 10 then (st, None)
              else let dst_ip = NetReadIP pkt (p + 16); src_ip = NetReadIP pkt (p + 12)
                   in if NetOurIP st \<noteq> 0 \<and> dst_ip \<noteq> NetOurIP st \<and> dst_ip \<noteq> 0xffffffff then (st, None)
                      else if ntohs pkt (p + 6) AND 0x3fff \<noteq> 0 then (st, None)
                      else if pkt (p + 9) = IPPROTO_ICMP then receive_icmp pkt p len src_ip st
                      else if pkt (p + 9) \<noteq> IPPROTO_UDP then (st, None)
                      else (st, if udp_handler_set st
                                then Some (UdpPacket (p + 28) (ntohs pkt (p + 22)) src_ip (ntohs pkt (p + 20))
                                  (ucast (ntohs pkt (p + 24)) - 8))
                                else None))"

text \<open>The Ethernet header: the protocol, where its packet starts, and the VLAN of a tagged frame. \<open>None\<close>: the
  frame is dropped.\<close>

definition eth_header :: "mem \<Rightarrow> nat \<Rightarrow> net \<Rightarrow> (u16 \<times> nat \<times> u16) option" where
  "eth_header pkt len st =
     (if len < 14 then None
      else let eth_proto = ntohs pkt 12
           in if eth_proto < 1514 then Some (ntohs pkt 20, 22, VLAN_NONE)
              else if eth_proto \<noteq> PROT_VLAN then Some (eth_proto, 14, VLAN_NONE)
              else if len < 18 then None
              else if swab16 (NetOurVLAN st) AND VLAN_IDMASK = VLAN_NONE then None
              else Some (ntohs pkt 16, 18, ntohs pkt 14 AND VLAN_IDMASK))"

definition vlan_matches :: "u16 \<Rightarrow> net \<Rightarrow> bool" where
  "vlan_matches vlanid st \<longleftrightarrow>
     (let myvlanid = our_vlan (NetOurVLAN st) AND VLAN_IDMASK;
          mynvlanid = our_vlan (NetOurNativeVLAN st) AND VLAN_IDMASK
      in myvlanid = VLAN_NONE \<or> (if vlanid = VLAN_NONE then mynvlanid else vlanid) = myvlanid)"

definition NetReceive :: "mem \<Rightarrow> nat \<Rightarrow> net \<Rightarrow> net \<times> delivery option" where
  "NetReceive inpkt len st =
     (case eth_header inpkt len st of
        None \<Rightarrow> (st, None)
      | Some (eth_proto, p, vlanid) \<Rightarrow>
          if \<not> vlan_matches vlanid st then (st, None)
          else if eth_proto = PROT_ARP then (ArpReceive inpkt p (int len - int p) st, None)
          else if eth_proto = PROT_IP then ip_receive inpkt p (int len - int p) st
          else (st, None))"

end
