(* ===== verification/Net_Udp.thy ===== *)
theory Net_Udp
  imports Net Tftp_Session
begin

text \<open>
  What the network layer achieves: the checksum of the IP header as a sum modulo 65535, the way of a UDP
  packet from the sender's buffer to the receiver's handler, and ARP.
\<close>

subsection \<open>The checksum\<close>

definition csum :: "mem \<Rightarrow> nat \<Rightarrow> nat \<Rightarrow> nat" where
  "csum pkt p n = (\<Sum>i<n. unat (pkt (p + 2 * i)) + 256 * unat (pkt (p + 2 * i + 1)))"

definition fold16 :: "nat \<Rightarrow> nat" where
  "fold16 x = x mod 65536 + x div 65536"

lemma fold16_mod: "fold16 x mod 65535 = x mod 65535"
proof -
  have "x = x mod 65536 + 65536 * (x div 65536)" by simp
  also have "\<dots> = fold16 x + 65535 * (x div 65536)" by (simp add: fold16_def)
  finally show ?thesis by (metis mod_mult_self2)
qed

lemma fold16_0: "fold16 x = 0 \<longleftrightarrow> x = 0"
  unfolding fold16_def by (metis add_is_0 div_mult_mod_eq mult_zero_left mod_0 div_0)

lemma fold16_bounds: "x < 2 ^ 32 \<Longrightarrow> fold16 x \<le> 131070" "x \<le> 131070 \<Longrightarrow> fold16 x \<le> 65535"
proof -
  assume "x < 2 ^ 32"
  then have "x div 65536 \<le> 65535" "x mod 65536 \<le> 65535" by (simp_all add: less_mult_imp_div_less)
  then show "fold16 x \<le> 131070" by (simp add: fold16_def)
next
  assume x: "x \<le> 131070"
  show "fold16 x \<le> 65535"
  proof (cases "x < 65536")
    case False
    then obtain y where y: "x = 65536 + y" using le_Suc_ex [of 65536 x] by auto
    with x have "y < 65535" by simp
    then show ?thesis by (simp add: y fold16_def)
  qed (simp add: fold16_def)
qed

lemma csum_bound: "csum pkt p n \<le> n * 65535"
proof -
  have "unat (pkt a) + 256 * unat (pkt b) \<le> 65535" for a b
    using unat_u8_lt [of "pkt a"] unat_u8_lt [of "pkt b"] by linarith
  then show ?thesis
    unfolding csum_def
    using sum_bounded_above [of "{..<n}" "\<lambda>i. unat (pkt (p + 2 * i)) + 256 * unat (pkt (p + 2 * i + 1))" 65535] by simp
qed

lemma unat_ucast_u8: "unat (ucast (b :: u8) :: u32) = unat b"
proof -
  have "unat b < 4294967296" using unat_u8_lt [of b] by linarith
  then show ?thesis by (simp add: unsigned_ucast_eq take_bit_eq_mod)
qed

lemma unat_and_ffff: "unat (x AND 0xffff :: u32) = unat x mod 65536"
proof -
  have "(0xffff :: u32) = mask 16" by (simp add: mask_eq_exp_minus_1)
  then have "x AND 0xffff = take_bit 16 x" unfolding take_bit_eq_mask by simp
  then show ?thesis by (simp add: unat_take_bit)
qed

lemma and_fffe_0: "x AND 0xfffe = 0 \<longleftrightarrow> unat (x :: u32) div 2 mod 32768 = 0"
proof -
  have m: "(0xfffe :: u32) = push_bit 1 (mask 15)" by (simp add: mask_eq_exp_minus_1 push_bit_eq_mult)
  have "x AND 0xfffe = push_bit 1 (take_bit 15 (drop_bit 1 x))"
    unfolding m by (rule bit_word_eqI)
      (auto simp only: bit_and_iff bit_push_bit_iff bit_mask_iff bit_take_bit_iff bit_drop_bit_eq o_def le_add_diff_inverse,
        auto simp: possible_bit_def)
  moreover have "push_bit 1 (take_bit 15 w) = 0 \<longleftrightarrow> take_bit 15 w = 0" for w :: u32
  proof
    assume "push_bit 1 (take_bit 15 w) = 0"
    then have "drop_bit 1 (push_bit 1 (take_bit 15 w)) = 0" by simp
    moreover have "drop_bit 1 (push_bit 1 (take_bit 15 w)) = take_bit 15 w"
      by (rule bit_word_eqI)
        (auto simp only: bit_drop_bit_eq bit_push_bit_iff bit_take_bit_iff o_def add_diff_cancel_left', auto simp: possible_bit_def)
    ultimately show "take_bit 15 w = 0" by simp
  qed simp
  moreover have "take_bit 15 (drop_bit 1 x) = 0 \<longleftrightarrow> unat (take_bit 15 (drop_bit 1 x)) = 0"
    by (simp add: unsigned_eq_0_iff)
  ultimately show ?thesis by (simp only: unat_take_bit unat_drop_bit_eq) (simp add: drop_bit_eq_div)
qed

lemma xsum_nat:
  "n \<le> 65536 \<Longrightarrow>
    unat (sum_list (map (\<lambda>i. ucast (pkt (p + 2 * i)) + 256 * ucast (pkt (p + 2 * i + 1))) [0..<n]) :: u32) = csum pkt p n"
proof (induction n)
  case (Suc n)
  let ?w = "unat (pkt (p + 2 * n)) + 256 * unat (pkt (p + 2 * n + 1))"
  have b: "csum pkt p (Suc n) < 2 ^ 32" using csum_bound [of pkt p "Suc n"] Suc.prems by simp
  have s: "csum pkt p (Suc n) = csum pkt p n + ?w" by (simp add: csum_def)
  have "?w < 65536" using unat_u8_lt [of "pkt (p + 2 * n)"] unat_u8_lt [of "pkt (p + 2 * n + 1)"] by linarith
  then have "unat (ucast (pkt (p + 2 * n)) + 256 * ucast (pkt (p + 2 * n + 1)) :: u32) = ?w"
    by (simp add: unat_word_ariths unat_ucast_u8)
  with Suc b s show ?case by (simp add: unat_word_ariths)
qed (simp add: csum_def)

lemma fold_step: "unat ((x AND 0xffff) + drop_bit 16 x :: u32) = fold16 (unat x)"
proof -
  have "unat (x AND 0xffff) = unat x mod 65536" by (rule unat_and_ffff)
  moreover have "unat (drop_bit 16 x) = unat x div 65536" unfolding unat_drop_bit_eq by (simp add: drop_bit_eq_div)
  moreover have "unat x div 65536 < 65536" using unat_u32_lt [of x] by (simp add: less_mult_imp_div_less)
  ultimately show ?thesis by (simp add: unat_word_ariths fold16_def)
qed

lemma NetCksum_nat: "n \<le> 65536 \<Longrightarrow> unat (NetCksum pkt p n) = fold16 (fold16 (csum pkt p n))"
proof -
  assume n: "n \<le> 65536"
  have "fold16 (fold16 (csum pkt p n)) \<le> 65535"
    using csum_bound [of pkt p n] n by (intro fold16_bounds) simp
  then show ?thesis
    unfolding NetCksum_def Let_def unat_and_ffff fold_step xsum_nat [OF n] by simp
qed

lemma ones_zero:
  assumes "(c :: nat) \<le> 65535"
  shows "(c + 1) div 2 mod 32768 = 0 \<longleftrightarrow> c = 0 \<or> c = 65535"
proof (cases "c = 65535")
  case False
  then have "(c + 1) div 2 < 32768" using assms by (simp add: less_mult_imp_div_less)
  then show ?thesis using False by auto
qed simp

lemma cksum_ok_iff: "n \<le> 65536 \<Longrightarrow> NetCksumOk pkt p n \<longleftrightarrow> csum pkt p n mod 65535 = 0"
proof -
  assume n: "n \<le> 65536"
  let ?c = "unat (NetCksum pkt p n)"
  have c: "?c \<le> 65535" "?c mod 65535 = csum pkt p n mod 65535"
    using csum_bound [of pkt p n] n by (simp_all add: NetCksum_nat fold16_mod fold16_bounds)
  have "NetCksumOk pkt p n \<longleftrightarrow> ?c = 0 \<or> ?c = 65535"
  proof -
    have "unat (NetCksum pkt p n + 1) = ?c + 1" using c(1) by (simp add: unat_word_ariths)
    then have "NetCksumOk pkt p n \<longleftrightarrow> (?c + 1) div 2 mod 32768 = 0" unfolding NetCksumOk_def and_fffe_0 by simp
    also have "\<dots> \<longleftrightarrow> ?c = 0 \<or> ?c = 65535" using c(1) by (rule ones_zero)
    finally show ?thesis .
  qed
  also have "\<dots> \<longleftrightarrow> ?c mod 65535 = 0" using c(1) by (cases "?c = 65535") auto
  finally show ?thesis by (simp add: c(2))
qed

lemma csum_cong:
  assumes "\<And>i. i < 2 * n \<Longrightarrow> q (p + i) = r (p' + i)"
  shows "csum q p n = csum r p' n"
  unfolding csum_def
proof (rule sum.cong [OF refl])
  fix i assume "i \<in> {..<n}"
  then show "unat (q (p + 2 * i)) + 256 * unat (q (p + 2 * i + 1)) = unat (r (p' + 2 * i)) + 256 * unat (r (p' + 2 * i + 1))"
    using assms [of "2 * i"] assms [of "2 * i + 1"] by (simp add: add.assoc)
qed

lemma csum_word:
  assumes "k < n" "\<And>i. i < 2 * n \<Longrightarrow> i \<noteq> 2 * k \<Longrightarrow> i \<noteq> 2 * k + 1 \<Longrightarrow> q (p + i) = r (p + i)"
  shows "csum q p n + (unat (r (p + 2 * k)) + 256 * unat (r (p + 2 * k + 1)))
    = csum r p n + (unat (q (p + 2 * k)) + 256 * unat (q (p + 2 * k + 1)))"
proof -
  let ?f = "\<lambda>m i. unat (m (p + 2 * i)) + 256 * unat (m (p + 2 * i + 1))"
  have "sum (?f q) ({..<n} - {k}) = sum (?f r) ({..<n} - {k})"
  proof (rule sum.cong [OF refl])
    fix i assume "i \<in> {..<n} - {k}"
    then have "q (p + 2 * i) = r (p + 2 * i)" "q (p + (2 * i + 1)) = r (p + (2 * i + 1))"
      by (intro assms(2); auto; presburger)+
    then show "?f q i = ?f r i" by simp
  qed
  then show ?thesis
    using sum.remove [of "{..<n}" k "?f q"] sum.remove [of "{..<n}" k "?f r"] assms(1) by (simp add: csum_def)
qed

lemma complement_word:
  assumes "unat (x :: u32) \<le> 65535"
  shows "unat (ucast (NOT x) :: u8) + 256 * unat (ucast (drop_bit 8 (NOT x)) :: u8) = 65535 - unat x"
proof -
  have n: "unat (NOT x) = 4294967295 - unat x" 
  proof -
    have "unat (- 1 - x) = unat (- 1 :: u32) - unat x" by (rule unat_sub) simp
    moreover have "NOT x = - 1 - x" unfolding not_eq_complement by (simp add: algebra_simps)
    ultimately show ?thesis by (simp add: unsigned_minus_1_eq_mask mask_eq_exp_minus_1)
  qed
  have "unat (ucast (NOT x) :: u8) = unat (NOT x) mod 256"
    "unat (ucast (drop_bit 8 (NOT x)) :: u8) = unat (NOT x) div 256 mod 256"
    unfolding unsigned_ucast_eq unat_drop_bit_eq by (simp_all add: take_bit_eq_mod drop_bit_eq_div)
  then have "unat (ucast (NOT x) :: u8) + 256 * unat (ucast (drop_bit 8 (NOT x)) :: u8) = unat (NOT x) mod 65536"
    using mod_mult2_eq [of "unat (NOT x)" 256 256] by simp
  also have "\<dots> = 65535 - unat x"
  proof -
    define z where "z = 65535 - unat x"
    then have "4294967295 - unat x = z + 65535 * 65536" "z < 65536" using assms by linarith+
    then have "(4294967295 - unat x) mod 65536 = z" by (simp only: mod_mult_self1 mod_less)
    then show ?thesis unfolding n z_def .
  qed
  finally show ?thesis .
qed

lemma put_cksum_ok:
  assumes n: "n \<le> 65536" and k: "k < n" and zero: "pkt (p + 2 * k) = 0" "pkt (p + 2 * k + 1) = 0"
  shows "NetCksumOk (put_cksum (p + 2 * k) p n pkt) p n"
proof -
  let ?x = "NetCksum pkt p n" and ?q = "put_cksum (p + 2 * k) p n pkt"
  have q: "?q (p + 2 * k) = ucast (NOT ?x)" "?q (p + 2 * k + 1) = ucast (drop_bit 8 (NOT ?x))"
    "\<And>i. i \<noteq> 2 * k \<Longrightarrow> i \<noteq> 2 * k + 1 \<Longrightarrow> ?q (p + i) = pkt (p + i)"
    by (simp_all add: put_cksum_def Let_def store_Cons)
  have x: "unat ?x \<le> 65535" "unat ?x mod 65535 = csum pkt p n mod 65535"
    using csum_bound [of pkt p n] n by (simp_all add: NetCksum_nat fold16_mod fold16_bounds)
  have "csum ?q p n = csum pkt p n + (65535 - unat ?x)"
    using csum_word [OF k, of ?q p pkt] q zero complement_word [OF x(1)] by simp
  moreover have "(csum pkt p n + (65535 - unat ?x)) mod 65535 = (unat ?x + (65535 - unat ?x)) mod 65535"
    using x(2) by (metis mod_add_left_eq)
  ultimately show ?thesis using x(1) by (simp add: cksum_ok_iff [OF n])
qed

subsection \<open>The headers of a UDP packet\<close>

lemma bytes_at_2: "bytes_at m p 2 = [m p, m (p + 1)]"
  by (simp add: numeral_2_eq_2)

lemma be16_eq: "be16 w = [ucast (drop_bit 8 w), ucast w]"
  by (simp add: be16_def)

lemma NetReadIP_eq: "bytes_at pkt p 4 = put_le32 w \<Longrightarrow> NetReadIP pkt p = w"
proof -
  assume "bytes_at pkt p 4 = put_le32 w"
  then have "le32 (bytes_at pkt p 4 ! 0) (bytes_at pkt p 4 ! 1) (bytes_at pkt p 4 ! 2) (bytes_at pkt p 4 ! 3) = w"
    by (simp only: le32_put_le32)
  then show ?thesis by (simp add: NetReadIP_def)
qed

lemmas header_defs = net_set_udp_header_def net_set_ip_header_def put16_def NetWriteIP_def put_cksum_def be16_eq
  put_le32_def store_Cons Let_def

lemma udp_header_fields:
  assumes "net_set_udp_header p dest dp sp len st pkt = (q, st')"
  shows "q p = 0x45" "ntohs q (p + 2) = word_of_nat (28 + len)" "ntohs q (p + 6) = 0x4000" "q (p + 9) = IPPROTO_UDP"
    "NetReadIP q (p + 12) = NetOurIP st" "NetReadIP q (p + 16) = dest" "ntohs q (p + 20) = sp" "ntohs q (p + 22) = dp"
    "ntohs q (p + 24) = word_of_nat (8 + len)" "st' = st\<lparr>NetIPID := NetIPID st + 1\<rparr>"
    "a < p \<or> p + 28 \<le> a \<and> a < p + 28 + len \<Longrightarrow> q a = pkt a"
  using assms
  by (auto simp: header_defs bytes_at_2 bytes_at_4 intro!: ntohs_be16 NetReadIP_eq)

lemma cksum_ok_cong:
  "n \<le> 65536 \<Longrightarrow> (\<And>i. i < 2 * n \<Longrightarrow> q (p + i) = r (p' + i)) \<Longrightarrow> NetCksumOk q p n = NetCksumOk r p' n"
  using csum_cong [of n q p r p'] by (simp add: cksum_ok_iff)

lemma udp_header_cksum:
  assumes "net_set_udp_header p dest dp sp len st pkt = (q, st')"
  shows "NetCksumOk q p 10"
proof -
  obtain h where h: "q = put16 (p + 26) 0 (put16 (p + 24) (word_of_nat (8 + len)) (put16 (p + 22) dp (put16 (p + 20) sp
      (put_cksum (p + 10) p 10 h))))" "h (p + 10) = 0" "h (p + 11) = 0"
  proof (rule that [of "(put16 (p + 2) (word_of_nat (28 + len))
        (fst (net_set_ip_header p dest (NetOurIP st) st (if odd len then pkt(p + 28 + len := 0) else pkt))))(p + 9 := IPPROTO_UDP)"])
  qed (use assms in \<open>simp_all add: net_set_udp_header_def net_set_ip_header_def put16_def NetWriteIP_def be16_eq put_le32_def
      store_Cons Let_def\<close>)
  have "NetCksumOk (put_cksum (p + 10) p 10 h) p 10"
    using put_cksum_ok [of 10 5 h p] h(2,3) by (simp add: add.commute)
  then show ?thesis
    using cksum_ok_cong [of 10 q p "put_cksum (p + 10) p 10 h" p] unfolding h(1)
    by (simp add: put16_def be16_eq store_Cons)
qed

subsection \<open>From buffer to handler\<close>

text \<open>The receiver's buffer holds the frame.\<close>

definition holds :: "mem \<Rightarrow> bytes \<Rightarrow> bool" where
  "holds buf frame \<longleftrightarrow> bytes_at buf 0 (length frame) = frame"

lemma holds_nth: "holds buf (bytes_at q 0 n) \<Longrightarrow> i < n \<Longrightarrow> buf i = q i"
proof -
  assume "holds buf (bytes_at q 0 n)" and i: "i < n"
  then have "bytes_at buf 0 n ! i = bytes_at q 0 n ! i" by (simp add: holds_def)
  then show ?thesis using i by simp
qed

lemma holds_fields:
  assumes "holds buf (bytes_at q 0 n)"
  shows "i + 1 < n \<Longrightarrow> ntohs buf i = ntohs q i" "i + 3 < n \<Longrightarrow> NetReadIP buf i = NetReadIP q i"
    "i + 19 < n \<Longrightarrow> NetCksumOk buf i 10 = NetCksumOk q i 10"
  using holds_nth [OF assms] cksum_ok_cong [of 10 buf i q i] by (simp_all add: ntohs_def NetReadIP_def)

lemma ip_receive_udp:
  assumes q: "net_set_udp_header p dest dp sp len sst pkt = (q, st')" and buf: "holds buf (bytes_at q 0 (p + 28 + len))"
    and len: "28 + len < 65536" and st: "NetOurIP st = 0 \<or> dest = NetOurIP st \<or> dest = 0xffffffff" "udp_handler_set st"
  shows "ip_receive buf p (int (p + 28 + len) - int p) st =
    (st, Some (UdpPacket (p + 28) dp (NetOurIP sst) sp (word_of_nat len)))"
proof -
  note f = udp_header_fields [OF q] and c = udp_header_cksum [OF q]
  have b: "buf p = 0x45" "ntohs buf (p + 2) = word_of_nat (28 + len)" "ntohs buf (p + 6) = 0x4000" "buf (p + 9) = IPPROTO_UDP"
    "NetReadIP buf (p + 12) = NetOurIP sst" "NetReadIP buf (p + 16) = dest" "ntohs buf (p + 20) = sp" "ntohs buf (p + 22) = dp"
    "ntohs buf (p + 24) = word_of_nat (8 + len)" "NetCksumOk buf p 10"
    using f c holds_fields [OF buf] holds_nth [OF buf] by simp_all
  have u: "unat (word_of_nat (28 + len) :: u16) = 28 + len" using len by (simp add: unat_of_nat del: of_nat_add)
  have l: "(word_of_int (int (28 + len)) :: u32) = word_of_nat (28 + len)" by simp
  have n: "\<not> (word_of_nat (28 + len) :: u32) < 28" using len by (simp add: word_less_nat_alt unat_of_nat del: of_nat_add)
  have d: "(ucast (word_of_nat (8 + len) :: u16) :: u32) - 8 = word_of_nat len"
    using len unfolding ucast_block by simp
  show ?thesis
    unfolding ip_receive_def b u Let_def d
    using st n b(10) by (auto simp: IPPROTO_UDP_def IPPROTO_ICMP_def)
qed

lemma swab_mask: "swab16 v AND VLAN_IDMASK = our_vlan v AND VLAN_IDMASK"
  by (simp add: our_vlan_def VLAN_IDMASK_def VLAN_NONE_def)

lemma mask_mask: "v AND VLAN_IDMASK AND VLAN_IDMASK = v AND VLAN_IDMASK"
  by (simp add: and.assoc)

lemma NetSetEther_fields:
  assumes "NetSetEther st addr prot pkt = (q, p)" "length addr = 6" "length (NetOurEther st) = 6"
  shows "p = NetEthHdrSize st" "p \<le> a \<Longrightarrow> q a = pkt a"
    "p = 14 \<Longrightarrow> ntohs q 12 = prot"
    "p \<noteq> 14 \<Longrightarrow> ntohs q 12 = PROT_VLAN \<and> ntohs q 14 = our_vlan (NetOurVLAN st) AND VLAN_IDMASK \<and> ntohs q 16 = prot"
    "bytes_at q 0 6 = addr" "bytes_at q 6 6 = NetOurEther st"
proof -
  define m where "m = store (store pkt 0 addr) 6 (NetOurEther st)"
  have m: "6 + 6 \<le> a \<Longrightarrow> m a = pkt a" for a using assms(2,3) by (simp add: m_def store_out)
  have m6: "bytes_at m 0 6 = addr" "bytes_at m 6 6 = NetOurEther st"
    using bytes_at_store_in [of "store pkt 0 addr" 6 "NetOurEther st"] bytes_at_store_in [of pkt 0 addr] assms(2,3)
      bytes_at_store_out [of 0 6 6 "NetOurEther st" "store pkt 0 addr"] by (simp_all add: m_def)
  have eq: "NetSetEther st addr prot pkt = (if our_vlan (NetOurVLAN st) AND VLAN_IDMASK = VLAN_NONE then (put16 12 prot m, 14)
      else (put16 16 prot (put16 14 (our_vlan (NetOurVLAN st) AND VLAN_IDMASK) (put16 12 PROT_VLAN m)), 18))"
    by (simp add: NetSetEther_def m_def Let_def)
  have n: "ntohs (put16 12 prot m) 12 = prot" "ntohs (put16 16 prot x) 16 = prot"
    "ntohs (put16 16 prot (put16 14 v x)) 14 = v" "ntohs (put16 16 prot (put16 14 v (put16 12 w x))) 12 = w" for x v w
    by (simp_all add: put16_def be16_eq store_Cons bytes_at_2 ntohs_be16)
  show "p = NetEthHdrSize st" using assms(1) unfolding eq NetEthHdrSize_def by (auto split: if_splits)
  show "p \<le> a \<Longrightarrow> q a = pkt a"
    using assms(1) m [of a] unfolding eq by (auto simp: put16_def be16_eq store_Cons split: if_splits)
  show "p = 14 \<Longrightarrow> ntohs q 12 = prot"
    "p \<noteq> 14 \<Longrightarrow> ntohs q 12 = PROT_VLAN \<and> ntohs q 14 = our_vlan (NetOurVLAN st) AND VLAN_IDMASK \<and> ntohs q 16 = prot"
    using assms(1) n unfolding eq by (auto split: if_splits)
  show "bytes_at q 0 6 = addr" "bytes_at q 6 6 = NetOurEther st"
    using assms(1) m6 unfolding eq by (auto simp: put16_def be16_eq store_Cons split: if_splits)
qed

text \<open>The protocol field of a frame with the sender's tag.\<close>

definition eth_tag :: "mem \<Rightarrow> u16 \<Rightarrow> net \<Rightarrow> bool" where
  "eth_tag buf prot s \<longleftrightarrow>
     (if NetEthHdrSize s = 14 then ntohs buf 12 = prot
      else ntohs buf 12 = PROT_VLAN \<and> ntohs buf 14 = our_vlan (NetOurVLAN s) AND VLAN_IDMASK \<and> ntohs buf 16 = prot)"

lemma eth_tag_cong: "eth_tag q prot s \<Longrightarrow> (\<And>i. i < NetEthHdrSize s \<Longrightarrow> 12 \<le> i \<Longrightarrow> buf i = q i) \<Longrightarrow> eth_tag buf prot s"
  by (auto simp: eth_tag_def ntohs_def NetEthHdrSize_def split: if_splits)

lemma eth_header_tag:
  assumes "eth_tag buf prot s" "NetEthHdrSize s \<le> n" "NetOurVLAN r = NetOurVLAN s" "prot \<ge> 1514" "prot \<noteq> PROT_VLAN"
  shows "\<exists>v. eth_header buf n r = Some (prot, NetEthHdrSize s, v) \<and> vlan_matches v r"
proof (cases "our_vlan (NetOurVLAN s) AND VLAN_IDMASK = VLAN_NONE")
  case True
  then have p: "NetEthHdrSize s = 14" by (simp add: NetEthHdrSize_def)
  then have "eth_header buf n r = Some (prot, 14, VLAN_NONE)"
    using assms(1,2,4,5) by (simp add: eth_header_def eth_tag_def Let_def not_less)
  then show ?thesis using True assms(3) p by (simp add: vlan_matches_def Let_def)
next
  case False
  then have p: "NetEthHdrSize s = 18" by (simp add: NetEthHdrSize_def)
  moreover have "\<not> PROT_VLAN < 1514" by (simp add: PROT_VLAN_def)
  ultimately have "eth_header buf n r = Some (prot, 18, our_vlan (NetOurVLAN s) AND VLAN_IDMASK)"
    using assms(1-3) False by (simp add: eth_header_def eth_tag_def Let_def swab_mask mask_mask)
  then show ?thesis using False assms(3) p by (simp add: vlan_matches_def Let_def)
qed

lemma NetSetEther_tag:
  assumes "NetSetEther s addr prot pkt = (q, p)" "length addr = 6" "length (NetOurEther s) = 6"
  shows "eth_tag q prot s"
  using NetSetEther_fields [OF assms] by (auto simp: eth_tag_def)

lemma eth_header_set:
  assumes "NetSetEther s addr prot pkt = (q, p)" "length addr = 6" "length (NetOurEther s) = 6"
    and "\<And>i. i < p \<Longrightarrow> buf i = q i" and "p \<le> n" "NetOurVLAN r = NetOurVLAN s" "prot \<ge> 1514" "prot \<noteq> PROT_VLAN"
  shows "\<exists>v. eth_header buf n r = Some (prot, p, v) \<and> vlan_matches v r"
  using eth_header_tag [OF eth_tag_cong [OF NetSetEther_tag [OF assms(1-3)]]] NetSetEther_fields(1) [OF assms(1-3)] assms(4-)
  by simp

text \<open>The addresses of a station are six bytes long.\<close>

definition net_ok :: "net \<Rightarrow> bool" where
  "net_ok st \<longleftrightarrow> length (NetOurEther st) = 6 \<and> length (NetServerEther st) = 6"

lemma ether_addr_length: "net_ok st \<Longrightarrow> length (ether_addr e st) = 6"
  by (cases e) (simp_all add: ether_addr_def net_ok_def NetBcastAddr_def)

lemma prot_ip: "PROT_IP \<ge> 1514" "PROT_IP \<noteq> PROT_VLAN" "PROT_IP \<noteq> PROT_ARP"
  by (simp_all add: PROT_IP_def PROT_VLAN_def PROT_ARP_def)

definition udp_dest :: "u32 \<Rightarrow> u32" where
  "udp_dest dest = (if dest = 0 then 0xffffffff else dest)"

definition udp_ether :: "ether \<Rightarrow> u32 \<Rightarrow> ether" where
  "udp_ether e dest = (if udp_dest dest = 0xffffffff then BcastAddr else e)"

text \<open>The transmit buffer with the headers filled in.\<close>

definition udp_frame :: "ether \<Rightarrow> u32 \<Rightarrow> u16 \<Rightarrow> u16 \<Rightarrow> nat \<Rightarrow> net \<Rightarrow> mem" where
  "udp_frame e dest dp sp len s =
     (let (q, p) = NetSetEther s (ether_addr (udp_ether e dest) s) PROT_IP (NetTxPacket s)
      in fst (net_set_udp_header p (udp_dest dest) dp sp len s q))"

lemma udp_frame_cases:
  assumes "net_ok s"
  obtains q where
    "NetSetEther s (ether_addr (udp_ether e dest) s) PROT_IP (NetTxPacket s) = (q, NetEthHdrSize s)"
    "net_set_udp_header (NetEthHdrSize s) (udp_dest dest) dp sp len s q = (udp_frame e dest dp sp len s, s\<lparr>NetIPID := NetIPID s + 1\<rparr>)"
proof -
  obtain q p where qp: "NetSetEther s (ether_addr (udp_ether e dest) s) PROT_IP (NetTxPacket s) = (q, p)" by fastforce
  have p: "p = NetEthHdrSize s"
    using NetSetEther_fields(1) [OF qp ether_addr_length [OF assms]] assms by (simp add: net_ok_def)
  obtain f st' where f: "net_set_udp_header p (udp_dest dest) dp sp len s q = (f, st')" by fastforce
  show thesis
    using that [of q] qp f p udp_header_fields(10) [OF f] by (simp add: udp_frame_def)
qed

lemma NetSendUDPPacket_eq:
  assumes "net_ok s"
  shows "NetSendUDPPacket_net e dest dp sp len now s =
    (let f = udp_frame e dest dp sp len s; st = s\<lparr>NetIPID := NetIPID s + 1, NetTxPacket := f\<rparr>;
         n = NetEthHdrSize s + 28 + len
     in if ether_addr (udp_ether e dest) s = NetEtherNullAddr
        then (1, ArpRequest (st\<lparr>NetArpWaitPacketIP := udp_dest dest, NetArpWaitPacketMAC := Some (udp_ether e dest),
                NetArpWaitTxPacketSize := n, NetArpWaitTry := 1, NetArpWaitTimerStart := now\<rparr>))
        else (0, NetSendPacket f n st))"
proof -
  obtain q where q: "NetSetEther s (ether_addr (udp_ether e dest) s) PROT_IP (NetTxPacket s) = (q, NetEthHdrSize s)"
    "net_set_udp_header (NetEthHdrSize s) (udp_dest dest) dp sp len s q = (udp_frame e dest dp sp len s, s\<lparr>NetIPID := NetIPID s + 1\<rparr>)"
    by (rule udp_frame_cases [OF assms])
  have a: "ether_addr (udp_ether e dest) (s\<lparr>NetIPID := i, NetTxPacket := f\<rparr>) = ether_addr (udp_ether e dest) s" for i f
    by (simp add: ether_addr_def split: ether.split)
  show ?thesis
    unfolding NetSendUDPPacket_net_def udp_dest_def [symmetric] udp_ether_def [symmetric] Let_def q prod.case
    by (simp add: a)
qed

lemma udp_frame_payload:
  assumes "net_ok s" "NetEthHdrSize s + 28 \<le> a" "a < NetEthHdrSize s + 28 + len"
  shows "udp_frame e dest dp sp len s a = NetTxPacket s a"
proof -
  obtain q where q: "NetSetEther s (ether_addr (udp_ether e dest) s) PROT_IP (NetTxPacket s) = (q, NetEthHdrSize s)"
    "net_set_udp_header (NetEthHdrSize s) (udp_dest dest) dp sp len s q = (udp_frame e dest dp sp len s, s\<lparr>NetIPID := NetIPID s + 1\<rparr>)"
    by (rule udp_frame_cases [OF assms(1)])
  show ?thesis
    using udp_header_fields(11) [OF q(2), of a] NetSetEther_fields(2) [OF q(1) ether_addr_length [OF assms(1)], of a] assms
    by (simp add: net_ok_def)
qed

text \<open>A station that takes the packets of another: the same VLAN, its own address or none yet, a handler.\<close>

definition hears :: "net \<Rightarrow> u32 \<Rightarrow> net \<Rightarrow> bool" where
  "hears s dest r \<longleftrightarrow> NetOurVLAN r = NetOurVLAN s \<and> udp_handler_set r
     \<and> (NetOurIP r = 0 \<or> udp_dest dest = NetOurIP r \<or> udp_dest dest = 0xffffffff)"

lemma udp_frame_received:
  assumes s: "net_ok s" and len: "28 + len < 65536" and r: "hears s dest r"
    and buf: "holds buf (bytes_at (udp_frame e dest dp sp len s) 0 (NetEthHdrSize s + 28 + len))"
  shows "NetReceive buf (NetEthHdrSize s + 28 + len) r =
      (r, Some (UdpPacket (NetEthHdrSize s + 28) dp (NetOurIP s) sp (word_of_nat len)))"
    "bytes_at buf (NetEthHdrSize s + 28) len = bytes_at (NetTxPacket s) (NetEthHdrSize s + 28) len"
proof -
  let ?p = "NetEthHdrSize s" and ?f = "udp_frame e dest dp sp len s"
  obtain q where q: "NetSetEther s (ether_addr (udp_ether e dest) s) PROT_IP (NetTxPacket s) = (q, ?p)"
    "net_set_udp_header ?p (udp_dest dest) dp sp len s q = (?f, s\<lparr>NetIPID := NetIPID s + 1\<rparr>)"
    by (rule udp_frame_cases [OF s])
  have "length (NetOurEther s) = 6" using s by (simp add: net_ok_def)
  moreover have "buf i = q i" if "i < ?p" for i
    using holds_nth [OF buf, of i] udp_header_fields(11) [OF q(2), of i] that by simp
  moreover have "NetOurVLAN r = NetOurVLAN s" using r by (simp add: hears_def)
  ultimately obtain v where v: "eth_header buf (?p + 28 + len) r = Some (PROT_IP, ?p, v)" "vlan_matches v r"
    using eth_header_set [OF q(1) ether_addr_length [OF s], of buf "?p + 28 + len" r] prot_ip by auto
  have "ip_receive buf ?p (int (?p + 28 + len) - int ?p) r = (r, Some (UdpPacket (?p + 28) dp (NetOurIP s) sp (word_of_nat len)))"
    using r by (intro ip_receive_udp [OF q(2) buf len]) (auto simp: hears_def)
  then show "NetReceive buf (?p + 28 + len) r = (r, Some (UdpPacket (?p + 28) dp (NetOurIP s) sp (word_of_nat len)))"
    unfolding NetReceive_def v option.case prod.case using v(2) prot_ip(3) by simp
  show "bytes_at buf (?p + 28) len = bytes_at (NetTxPacket s) (?p + 28) len"
    using holds_nth [OF buf] udp_frame_payload [OF s] by (intro bytes_at_cong) simp
qed

subsection \<open>A TFTP packet in a buffer\<close>

lemma data_packet_at:
  assumes "bytes_at pk 0 (length (data_packet F b n)) = data_packet F b n"
  shows "ntohs pk 0 = 3" "ntohs pk 2 = word_of_nat n" "bytes_at pk 4 (length (block_of F b n)) = block_of F b n"
proof -
  have "pk i = packet (data_packet F b n) i" if "i < length (data_packet F b n)" for i
  proof -
    have "pk i = data_packet F b n ! i" using arg_cong [OF assms, of "\<lambda>l. l ! i"] that by simp
    then show ?thesis using that by (simp add: packet_def store_in)
  qed
  moreover have "length (data_packet F b n) = 4 + length (block_of F b n)" by (simp add: data_packet_def)
  ultimately have "ntohs pk 0 = ntohs (packet (data_packet F b n)) 0" "ntohs pk 2 = ntohs (packet (data_packet F b n)) 2"
    "bytes_at pk 4 (length (block_of F b n)) = bytes_at (packet (data_packet F b n)) 4 (length (block_of F b n))"
    by (auto simp: ntohs_def intro: bytes_at_cong)
  then show "ntohs pk 0 = 3" "ntohs pk 2 = word_of_nat n" "bytes_at pk 4 (length (block_of F b n)) = block_of F b n"
    by (simp_all add: data_packet_fields)
qed

subsection \<open>Damage\<close>

definition word_at :: "mem \<Rightarrow> nat \<Rightarrow> nat" where
  "word_at m a = unat (m a) + 256 * unat (m (a + 1))"

lemma cksum_damage:
  assumes "n \<le> 65536" "k < n" "NetCksumOk q p n" "\<And>i. i < 2 * n \<Longrightarrow> i \<noteq> 2 * k \<Longrightarrow> i \<noteq> 2 * k + 1 \<Longrightarrow> r (p + i) = q (p + i)"
    "word_at r (p + 2 * k) mod 65535 \<noteq> word_at q (p + 2 * k) mod 65535"
  shows "\<not> NetCksumOk r p n"
proof
  assume r: "NetCksumOk r p n"
  have eq: "csum r p n + word_at q (p + 2 * k) = csum q p n + word_at r (p + 2 * k)"
    using csum_word [OF assms(2), of r p q] assms(4) by (simp add: word_at_def)
  have "csum r p n mod 65535 = 0" "csum q p n mod 65535 = 0" using r assms(3) by (simp_all add: cksum_ok_iff [OF assms(1)])
  then have "(csum r p n + word_at q (p + 2 * k)) mod 65535 = word_at q (p + 2 * k) mod 65535"
    "(csum q p n + word_at r (p + 2 * k)) mod 65535 = word_at r (p + 2 * k) mod 65535"
    by (metis add_0 mod_add_left_eq)+
  with eq assms(5) show False by simp
qed

lemma ip_receive_bad_cksum: "\<not> NetCksumOk pkt p 10 \<Longrightarrow> ip_receive pkt p len st = (st, None)"
  by (simp add: ip_receive_def Let_def)

subsection \<open>Two stations\<close>

definition demo_station :: "u32 \<Rightarrow> u8 \<Rightarrow> net" where
  "demo_station ip mac = \<lparr>NetOurIP = ip, NetOurGatewayIP = 0, NetOurSubnetMask = 0, NetOurEther = [2, 0, 0, 0, 0, mac],
     NetServerEther = [2, 2, 2, 2, 2, 2], NetOurVLAN = 0xffff, NetOurNativeVLAN = 0xffff, NetIPID = 0, NetTxPacket = (\<lambda>_. 0),
     NetArpTxPacket = (\<lambda>_. 0), NetArpWaitPacketIP = 0, NetArpWaitReplyIP = 0, NetArpWaitPacketMAC = None,
     NetArpWaitTxPacketSize = 0, NetArpWaitTimerStart = 0, NetArpWaitTry = 0, NetPingIP = 0, PingSeqNo = 0, NetTryCount = 1,
     NetRestarted = False, NetRestartWrap = False, NetDevExists = True, timeHandler = None, timeStart = 0, timeDelta = 0,
     udp_handler_set = True, icmp_handler_set = True, nstate = NETLOOP_CONTINUE, acts = []\<rparr>"

definition demo_a :: net where
  "demo_a = demo_station 1 17"

definition demo_b :: net where
  "demo_b = demo_station 2 34"

text \<open>A server with the first block of the small file in its transmit buffer.\<close>

definition demo_server :: net where
  "demo_server = demo_a\<lparr>NetTxPacket := store (\<lambda>_. 0) 42 (data_packet (content demo_job) (bsize demo_job) 1)\<rparr>"

lemma null_addr: "NetEtherNullAddr = [0, 0, 0, 0, 0, 0]"
  by (simp add: NetEtherNullAddr_def numeral_eq_Suc)

lemma no_vlan: "our_vlan 0xffff AND VLAN_IDMASK = VLAN_NONE"
proof -
  have "swab16 0xffff = 0xffff" by code_simp
  then show ?thesis by (simp add: our_vlan_def VLAN_NONE_def VLAN_IDMASK_def)
qed

lemma demo_stations:
  "net_ok demo_a" "net_ok demo_b" "hears demo_a 2 demo_b" "NetEthHdrSize demo_a = 14" "NetOurVLAN demo_b = NetOurVLAN demo_a"
  "ether_addr (udp_ether ServerEther 2) demo_a \<noteq> NetEtherNullAddr" "acts demo_a = []" "NetOurIP demo_a = 1" "NetOurIP demo_b = 2"
  by (simp_all add: demo_a_def demo_b_def demo_station_def net_ok_def hears_def udp_dest_def udp_ether_def NetEthHdrSize_def
      no_vlan ether_addr_def null_addr)

lemma demo_server_stations: "net_ok demo_server" "hears demo_server 2 demo_b" "NetEthHdrSize demo_server = 14"
  using demo_stations by (simp_all add: demo_server_def net_ok_def hears_def NetEthHdrSize_def)

lemma holds_self: "holds q (bytes_at q 0 n)"
  by (simp add: holds_def)

subsection \<open>Properties\<close>

text \<open>
  C17: A UDP packet arrives: the frame that \<open>NetSendUDPPacket\<close> hands to the device, tagged or not, passes every
  test of a receiver on the same VLAN it is meant for, and the receiver's handler gets the ports, the sender's
  address, the length and exactly the payload.\<close>

theorem udp_packet_arrives:
  assumes "net_ok s" "28 + len < 65536" "ether_addr (udp_ether e dest) s \<noteq> NetEtherNullAddr" "hears s dest r"
    and "NetSendUDPPacket_net e dest dp sp len now s = (rc, s')"
    and "holds buf (bytes_at (NetTxPacket s') 0 (NetEthHdrSize s + 28 + len))"
  shows "rc = 0 \<and> acts s' = acts s @ [EthSend (bytes_at (NetTxPacket s') 0 (NetEthHdrSize s + 28 + len))]
    \<and> NetReceive buf (NetEthHdrSize s + 28 + len) r =
        (r, Some (UdpPacket (NetEthHdrSize s + 28) dp (NetOurIP s) sp (word_of_nat len)))
    \<and> bytes_at buf (NetEthHdrSize s + 28) len = bytes_at (NetTxPacket s) (NetEthHdrSize s + 28) len"
proof -
  have sent: "rc = 0" "s' = NetSendPacket (udp_frame e dest dp sp len s) (NetEthHdrSize s + 28 + len)
      (s\<lparr>NetIPID := NetIPID s + 1, NetTxPacket := udp_frame e dest dp sp len s\<rparr>)"
    using assms(3,5) unfolding NetSendUDPPacket_eq [OF assms(1)] by (simp_all add: Let_def)
  then have "NetTxPacket s' = udp_frame e dest dp sp len s" by (simp add: NetSendPacket_def act_def)
  then show ?thesis
    using sent udp_frame_received [OF assms(1,2,4)] assms(6) by (simp add: NetSendPacket_def act_def)
qed

theorem udp_packet_arrives_witness:
  "acts (snd (NetSendUDPPacket_net ServerEther 2 69 1024 3 0 demo_a)) =
      [EthSend (bytes_at (NetTxPacket (snd (NetSendUDPPacket_net ServerEther 2 69 1024 3 0 demo_a))) 0 45)]
    \<and> NetReceive (NetTxPacket (snd (NetSendUDPPacket_net ServerEther 2 69 1024 3 0 demo_a))) 45 demo_b =
      (demo_b, Some (UdpPacket 42 69 1 1024 3))"
  using udp_packet_arrives [OF demo_stations(1) _ _ demo_stations(3) prod.collapse [symmetric] holds_self,
      where len = 3 and dp = 69 and sp = 1024 and now = 0 and e = ServerEther]
  by (simp add: demo_stations)

text \<open>
  C28: A damaged header is dropped: when one 16-bit word of the IP header of a frame that \<open>NetSendUDPPacket\<close> built
  was changed to a value that is different modulo 65535, the receiver neither delivers the packet nor changes
  its state.\<close>

theorem ip_header_damage:
  assumes "net_ok s" "28 + len < 65536" "NetOurVLAN r = NetOurVLAN s" "k < 10"
    and "\<forall>i < NetEthHdrSize s + 28 + len. i \<noteq> NetEthHdrSize s + 2 * k \<and> i \<noteq> NetEthHdrSize s + 2 * k + 1 \<longrightarrow>
      buf i = udp_frame e dest dp sp len s i"
    and "word_at buf (NetEthHdrSize s + 2 * k) mod 65535
      \<noteq> word_at (udp_frame e dest dp sp len s) (NetEthHdrSize s + 2 * k) mod 65535"
  shows "NetReceive buf (NetEthHdrSize s + 28 + len) r = (r, None)"
proof -
  let ?p = "NetEthHdrSize s" and ?f = "udp_frame e dest dp sp len s"
  obtain q where q: "NetSetEther s (ether_addr (udp_ether e dest) s) PROT_IP (NetTxPacket s) = (q, ?p)"
    "net_set_udp_header ?p (udp_dest dest) dp sp len s q = (?f, s\<lparr>NetIPID := NetIPID s + 1\<rparr>)"
    by (rule udp_frame_cases [OF assms(1)])
  have "buf i = q i" if "i < ?p" for i
    using assms(5) udp_header_fields(11) [OF q(2), of i] that by simp
  then obtain v where v: "eth_header buf (?p + 28 + len) r = Some (PROT_IP, ?p, v)" "vlan_matches v r"
    using eth_header_set [OF q(1) ether_addr_length [OF assms(1)], of buf "?p + 28 + len" r] prot_ip assms(1,3)
    by (auto simp: net_ok_def)
  have "\<not> NetCksumOk buf ?p 10"
    using cksum_damage [OF _ assms(4) udp_header_cksum [OF q(2)], of buf] assms(5,6) by simp
  then show ?thesis
    unfolding NetReceive_def v(1) option.case prod.case using v(2) prot_ip(3) by (simp add: ip_receive_bad_cksum)
qed

theorem ip_header_damage_witness:
  "NetReceive ((udp_frame ServerEther 2 69 1024 3 demo_a)(14 := 0x46)) 45 demo_b = (demo_b, None)"
proof -
  let ?f = "udp_frame ServerEther 2 69 1024 3 demo_a"
  obtain q where "net_set_udp_header (NetEthHdrSize demo_a) (udp_dest 2) 69 1024 3 demo_a q = (?f, demo_a\<lparr>NetIPID := NetIPID demo_a + 1\<rparr>)"
    by (rule udp_frame_cases [OF demo_stations(1)])
  from udp_header_fields(1) [OF this] have "?f 14 = 0x45" by (simp add: demo_stations)
  moreover have "(70 + 256 * unat (?f 15)) mod 65535 \<noteq> (69 + 256 * unat (?f 15)) mod 65535"
  proof -
    have "70 + 256 * unat (?f 15) < 65535" using unat_u8_lt [of "?f 15"] by linarith
    then show ?thesis by simp
  qed
  ultimately show ?thesis
    using ip_header_damage [OF demo_stations(1), of 3 demo_b 0 "?f(14 := 0x46)" ServerEther 2 69 1024]
    by (simp add: demo_stations word_at_def)
qed

text \<open>
  C29: TFTP over the wire: a block of a file that the server puts in its transmit buffer and sends to the client's
  port has on the client the effect of the block in the protocol.\<close>

theorem tftp_block_over_udp:
  assumes "net_ok s" "hears s dest r" "bsize j < 65504" "sport j = unat sp" "oport j = unat dp"
    and "bytes_at (NetTxPacket s) (NetEthHdrSize s + 28) (length (data_packet (content j) (bsize j) k)) = data_packet (content j) (bsize j) k"
    and "holds buf (bytes_at (udp_frame e dest dp sp (length (data_packet (content j) (bsize j) k)) s) 0
      (NetEthHdrSize s + 28 + length (data_packet (content j) (bsize j) k)))"
  shows "\<exists>off dport sip sport' len. NetReceive buf (NetEthHdrSize s + 28 + length (data_packet (content j) (bsize j) k)) r =
      (r, Some (UdpPacket off dport sip sport' len))
    \<and> TftpHandler (\<lambda>i. buf (off + i)) (unat dport) (unat sport') (unat len) st = deliver j k st"
proof -
  let ?d = "data_packet (content j) (bsize j) k" and ?p = "NetEthHdrSize s + 28"
  have l: "length ?d = 4 + length (block_of (content j) (bsize j) k)" "length (block_of (content j) (bsize j) k) \<le> bsize j"
    by (simp_all add: data_packet_def block_of_def)
  then have len: "28 + length ?d < 65536" using assms(3) by simp
  note rx = udp_frame_received [OF assms(1) len assms(2,7)]
  have u: "unat (word_of_nat (length ?d) :: u32) = length ?d" using len by (simp add: unat_of_nat)
  have "bytes_at (\<lambda>i. buf (?p + i)) 0 (length ?d) = ?d"
    using rx(2) assms(6) by (auto simp: list_eq_iff_nth_eq)
  from data_packet_at [OF this] have "TftpHandler (\<lambda>i. buf (?p + i)) (oport j) (sport j) (length ?d) st = deliver j k st"
    by (simp add: TftpHandler_def deliver_def data_packet_fields handle_data_def handle_block_def l Let_def)
  then show ?thesis using rx(1) u assms(4,5) by auto
qed

theorem tftp_block_over_udp_witness:
  "\<exists>off dport sip sport' len.
    NetReceive (udp_frame ServerEther 2 1024 2000 9 (demo_server)) 51 demo_b = (demo_b, Some (UdpPacket off dport sip sport' len))
    \<and> TftpHandler (\<lambda>i. udp_frame ServerEther 2 1024 2000 9 demo_server (off + i)) (unat dport) (unat sport') (unat len) demo_started
      = deliver demo_job 1 demo_started"
proof -
  have l: "length (data_packet (content demo_job) (bsize demo_job) 1) = 9"
    by (simp add: data_packet_def block_of_def demo_job_def)
  have "bytes_at (NetTxPacket demo_server) 42 9 = data_packet (content demo_job) (bsize demo_job) 1"
    using bytes_at_store_in [of "\<lambda>_. 0" 42 "data_packet (content demo_job) (bsize demo_job) 1", unfolded l]
    by (simp add: demo_server_def)
  then show ?thesis
    using tftp_block_over_udp [of demo_server 2 demo_b demo_job 2000 1024 1 _ ServerEther demo_started, unfolded l]
    by (simp add: demo_server_stations demo_job_def holds_self)
qed

end
