(* ===== verification/Net_Arp.thy ===== *)
theory Net_Arp
  imports Net_Udp
begin

text \<open>
  Address resolution: the request, the answer of the station that has the address, and what the answer makes
  of the packet that waits for it; and the packets on which the network layer goes wrong.
\<close>

subsection \<open>Requests\<close>

lemma length6: "length xs = 6 \<Longrightarrow> \<exists>a b c d e f. xs = [a, b, c, d, e, f]"
  by (auto simp: numeral_eq_Suc length_Suc_conv)

lemma bytes_at_6: "bytes_at m p 6 = [m p, m (p + 1), m (p + 2), m (p + 3), m (p + 4), m (p + 5)]"
  by (simp add: numeral_eq_Suc)

definition arp_frame :: "u32 \<Rightarrow> bytes \<Rightarrow> u32 \<Rightarrow> net \<Rightarrow> mem" where
  "arp_frame sourceIP targetEther targetIP st = NetArpTxPacket (arp_raw_request sourceIP targetEther targetIP st)"

lemmas arp_defs = put16_def NetWriteIP_def be16_eq put_le32_def store_Cons Let_def

lemma arp_frame_fields:
  fixes sip tip
  assumes s: "net_ok s" and te: "length te = 6"
  defines "A \<equiv> arp_frame sip te tip s" and "p \<equiv> NetEthHdrSize s"
  shows "arp_raw_request sip te tip s = act (EthSend (bytes_at A 0 (p + 28))) (s\<lparr>NetArpTxPacket := A\<rparr>)"
    "eth_tag A PROT_ARP s" "ntohs A p = 1" "ntohs A (p + 2) = PROT_IP" "A (p + 4) = 6" "A (p + 5) = 4" "ntohs A (p + 6) = 1"
    "bytes_at A (p + 8) 6 = NetOurEther s" "NetReadIP A (p + 14) = sip" "NetReadIP A (p + 24) = tip" "bytes_at A 6 6 = NetOurEther s"
proof -
  have bl: "length NetBcastAddr = 6" and el: "length (NetOurEther s) = 6" using s by (simp_all add: NetBcastAddr_def net_ok_def)
  obtain q where q: "NetSetEther s NetBcastAddr PROT_ARP (NetArpTxPacket s) = (q, p)"
    using NetSetEther_fields(1) [OF _ bl el] unfolding p_def by (metis prod.collapse)
  note f = NetSetEther_fields [OF q bl el]
  obtain a b c d e g where ne: "NetOurEther s = [a, b, c, d, e, g]" using length6 [OF el] by blast
  obtain a' b' c' d' e' g' where te': "te = [a', b', c', d', e', g']" using length6 [OF te] by blast
  have p: "p = 14 \<or> p = 18" unfolding p_def NetEthHdrSize_def by simp
  have A: "A = NetWriteIP (p + 24) tip (store (NetWriteIP (p + 14) sip (store (put16 (p + 6) 1
      ((put16 (p + 2) PROT_IP (put16 p 1 q))(p + 4 := 6, p + 5 := 4))) (p + 8) (NetOurEther s))) (p + 18) te)"
    unfolding A_def arp_frame_def arp_raw_request_def q Let_def prod.case by (simp add: NetSendPacket_def act_def)
  have low: "A i = q i" if "i < p" for i
    using that unfolding A ne te' by (simp add: arp_defs)
  show "arp_raw_request sip te tip s = act (EthSend (bytes_at A 0 (p + 28))) (s\<lparr>NetArpTxPacket := A\<rparr>)"
    unfolding A arp_raw_request_def q Let_def prod.case by (simp add: NetSendPacket_def)
  show "eth_tag A PROT_ARP s" by (rule eth_tag_cong [OF NetSetEther_tag [OF q bl el]]) (simp add: low p_def)
  show "ntohs A p = 1" "ntohs A (p + 2) = PROT_IP" "A (p + 4) = 6" "A (p + 5) = 4" "ntohs A (p + 6) = 1"
    "bytes_at A (p + 8) 6 = NetOurEther s" "NetReadIP A (p + 14) = sip" "NetReadIP A (p + 24) = tip"
    unfolding A ne te' by (auto simp: arp_defs bytes_at_2 bytes_at_4 bytes_at_6 intro!: ntohs_be16 NetReadIP_eq)
  show "bytes_at A 6 6 = NetOurEther s" using f(6) low p by (auto simp: bytes_at_6)
qed

subsection \<open>Answers\<close>

text \<open>A buffer with an ARP packet of kind \<open>opc\<close> in a frame with the tag of \<open>s\<close>.\<close>

definition arp_packet :: "mem \<Rightarrow> u16 \<Rightarrow> bytes \<Rightarrow> u32 \<Rightarrow> u32 \<Rightarrow> net \<Rightarrow> bool" where
  "arp_packet A opc sha spa tpa s \<longleftrightarrow>
     (let p = NetEthHdrSize s
      in eth_tag A PROT_ARP s \<and> ntohs A p = 1 \<and> ntohs A (p + 2) = PROT_IP \<and> A (p + 4) = 6 \<and> A (p + 5) = 4
         \<and> ntohs A (p + 6) = opc \<and> bytes_at A (p + 8) 6 = sha \<and> NetReadIP A (p + 14) = spa \<and> NetReadIP A (p + 24) = tpa)"

lemma hdr_cases: "NetEthHdrSize s = 14 \<or> NetEthHdrSize s = 18"
  by (simp add: NetEthHdrSize_def)

lemma arp_packet_holds:
  assumes A: "arp_packet A opc sha spa tpa s" and buf: "holds buf (bytes_at A 0 (NetEthHdrSize s + 28))"
  shows "arp_packet buf opc sha spa tpa s"
proof -
  let ?p = "NetEthHdrSize s"
  have n: "buf i = A i" if "i < ?p + 28" for i using holds_nth [OF buf] that by simp
  have "eth_tag buf PROT_ARP s" using A n by (auto intro: eth_tag_cong simp: arp_packet_def Let_def)
  moreover have "bytes_at buf (?p + 8) 6 = bytes_at A (?p + 8) 6" using n by (intro bytes_at_cong) simp
  ultimately show ?thesis
    using A n holds_fields(1,2) [OF buf] by (simp add: arp_packet_def Let_def)
qed

lemma arp_received:
  assumes A: "arp_packet buf opc sha spa tpa s" and r: "NetOurVLAN r = NetOurVLAN s" "NetOurIP r = tpa" "tpa \<noteq> 0"
  shows "NetReceive buf (NetEthHdrSize s + 28) r =
    (if opc = 1 then arp_answer buf (NetEthHdrSize s) r else if opc = 2 then arp_learn buf (NetEthHdrSize s) r else r, None)"
proof -
  have "PROT_ARP \<ge> 1514" "PROT_ARP \<noteq> PROT_VLAN" by (simp_all add: PROT_ARP_def PROT_VLAN_def)
  then obtain v where v: "eth_header buf (NetEthHdrSize s + 28) r = Some (PROT_ARP, NetEthHdrSize s, v)" "vlan_matches v r"
    using eth_header_tag [of buf PROT_ARP s "NetEthHdrSize s + 28" r] A r(1) by (auto simp: arp_packet_def Let_def)
  show ?thesis
    unfolding NetReceive_def v(1) option.case prod.case
    using v(2) A r by (simp add: ArpReceive_def arp_packet_def Let_def)
qed

lemma arp_answer_packet:
  assumes A: "arp_packet buf 1 sha spa tpa s" and r: "net_ok r" "NetOurVLAN r = NetOurVLAN s"
  shows "\<exists>R. arp_answer buf (NetEthHdrSize s) r = act (EthSend (bytes_at R 0 (NetEthHdrSize s + 28))) r
    \<and> arp_packet R 2 (NetOurEther r) (NetOurIP r) spa s"
proof -
  let ?p = "NetEthHdrSize s"
  note f = A [unfolded arp_packet_def Let_def]
  obtain a b c d e g where ne: "NetOurEther r = [a, b, c, d, e, g]" using length6 [of "NetOurEther r"] r(1) by (auto simp: net_ok_def)
  define m where "m = store (store buf 0 (bytes_at buf 6 6)) 6 (NetOurEther r)"
  have m: "12 \<le> i \<Longrightarrow> m i = buf i" for i unfolding m_def ne bytes_at_6 by (simp add: store_Cons)
  have tag: "eth_tag m PROT_ARP s" using f m by (auto intro: eth_tag_cong)
  have ue: "net_update_ether r (bytes_at buf 6 6) PROT_ARP buf = (put16 (?p - 2) PROT_ARP m, ?p)"
    using tag hdr_cases [of s] by (auto simp: net_update_ether_def eth_tag_def m_def [symmetric] PROT_ARP_def PROT_VLAN_def Let_def)
  define n where "n = put16 (?p - 2) PROT_ARP m"
  have n: "?p \<le> i \<Longrightarrow> n i = buf i" for i
    using m [of i] hdr_cases [of s] by (auto simp: n_def put16_def be16_eq store_Cons)
  have tagn: "eth_tag n PROT_ARP s"
    using tag hdr_cases [of s]
    by (auto simp: n_def eth_tag_def put16_def be16_eq store_Cons ntohs_def PROT_ARP_def)
  define R where "R = NetWriteIP (?p + 14) (NetOurIP r) (store (NetCopyIP (?p + 24) (?p + 14)
      (store (put16 (?p + 6) 2 n) (?p + 18) (bytes_at (put16 (?p + 6) 2 n) (?p + 8) 6))) (?p + 8) (NetOurEther r))"
  have "arp_answer buf ?p r = act (EthSend (bytes_at R 0 (?p + 28))) r"
    unfolding arp_answer_def ue prod.case n_def [symmetric] R_def Let_def by (simp add: NetSendPacket_def)
  moreover have low: "R i = n i" if "i < ?p + 6" for i
    using that unfolding R_def ne bytes_at_6 NetCopyIP_def bytes_at_4 by (simp add: arp_defs)
  then have "eth_tag R PROT_ARP s" by (intro eth_tag_cong [OF tagn]) simp
  moreover have "ntohs R ?p = 1" "ntohs R (?p + 2) = PROT_IP" "R (?p + 4) = 6" "R (?p + 5) = 4"
    using low n f by (simp_all add: ntohs_def)
  moreover have "ntohs R (?p + 6) = 2" "bytes_at R (?p + 8) 6 = NetOurEther r" "NetReadIP R (?p + 14) = NetOurIP r"
    unfolding R_def ne bytes_at_6 NetCopyIP_def bytes_at_4
    by (auto simp: arp_defs bytes_at_2 bytes_at_4 bytes_at_6 intro!: ntohs_be16 NetReadIP_eq)
  moreover have "NetReadIP buf (?p + 14) = spa" using f by simp
  then have "NetReadIP R (?p + 24) = spa"
    using n unfolding R_def ne bytes_at_6 NetCopyIP_def bytes_at_4 by (simp add: arp_defs NetReadIP_def)
  ultimately show ?thesis unfolding arp_packet_def Let_def by blast
qed

subsection \<open>The packet that waits\<close>

text \<open>The destination is the only part of a frame that depends on the address of the server.\<close>

lemma NetCksum_store_before: "length xs \<le> p \<Longrightarrow> NetCksum (store m 0 xs) p n = NetCksum m p n"
  by (simp add: NetCksum_def store_out Let_def)

lemma udp_header_store_before:
  "length xs \<le> p \<Longrightarrow> fst (net_set_udp_header p dest dp sp len st (store pkt 0 xs))
    = store (fst (net_set_udp_header p dest dp sp len st pkt)) 0 xs"
  by (simp add: net_set_udp_header_def net_set_ip_header_def put16_def NetWriteIP_def put_cksum_def be16_eq put_le32_def
      store_Cons Let_def store_upd_swap [symmetric] NetCksum_store_before)

lemma store_over: "length xs = length ys \<Longrightarrow> store (store m p xs) p ys = store m p ys"
  by (rule ext) (metis store_in store_out not_le)

lemma NetSetEther_other:
  assumes "length x = 6" "length y = 6" "length (NetOurEther st) = 6"
  shows "NetSetEther st y prot pkt = (store (fst (NetSetEther st x prot pkt)) 0 y, snd (NetSetEther st x prot pkt))"
proof -
  obtain a b c d e g where ne: "NetOurEther st = [a, b, c, d, e, g]" using length6 [OF assms(3)] by blast
  have "store (store pkt 0 y) 6 (NetOurEther st) = store (store (store pkt 0 x) 6 (NetOurEther st)) 0 y"
    unfolding ne using assms(1,2) by (simp add: store_Cons store_upd_swap store_over)
  then show ?thesis
    using assms(2) by (simp add: NetSetEther_def Let_def put16_def be16_eq store_Cons store_upd_swap)
qed

lemma udp_frame_other:
  assumes "net_ok s" "length mac = 6" "udp_dest dest \<noteq> 0xffffffff"
  shows "udp_frame ServerEther dest dp sp len (s\<lparr>NetServerEther := mac\<rparr>) = store (udp_frame ServerEther dest dp sp len s) 0 mac"
proof -
  let ?t = "s\<lparr>NetServerEther := mac\<rparr>"
  have e: "udp_ether ServerEther dest = ServerEther" using assms(3) by (simp add: udp_ether_def)
  have l: "length (NetServerEther s) = 6" "length (NetOurEther s) = 6" using assms(1) by (simp_all add: net_ok_def)
  obtain q p where q: "NetSetEther s (NetServerEther s) PROT_IP (NetTxPacket s) = (q, p)" by fastforce
  have p: "length mac \<le> p" using NetSetEther_fields(1) [OF q l] hdr_cases [of s] assms(2) by auto
  have "NetSetEther ?t mac PROT_IP (NetTxPacket s) = (store q 0 mac, p)"
    using NetSetEther_other [OF l(1) assms(2) l(2), of PROT_IP "NetTxPacket s"] q by (simp add: NetSetEther_def)
  moreover have "net_set_udp_header p (udp_dest dest) dp sp len ?t m = (fst (net_set_udp_header p (udp_dest dest) dp sp len s m),
      ?t\<lparr>NetIPID := NetIPID s + 1\<rparr>)" for m
    by (simp add: net_set_udp_header_def net_set_ip_header_def Let_def)
  ultimately show ?thesis
    using q udp_header_store_before [OF p] by (simp add: udp_frame_def e ether_addr_def)
qed

lemma arp_request_sent:
  assumes "net_ok s"
  shows "\<exists>A tip. ArpRequest s = act (EthSend (bytes_at A 0 (NetEthHdrSize s + 28))) (s\<lparr>NetArpWaitReplyIP := tip, NetArpTxPacket := A\<rparr>)
    \<and> arp_packet A 1 (NetOurEther s) (NetOurIP s) tip s"
proof -
  obtain tip where t: "ArpRequest s = arp_raw_request (NetOurIP s) NetEtherNullAddr tip (s\<lparr>NetArpWaitReplyIP := tip\<rparr>)"
    by (simp add: ArpRequest_def Let_def)
  have ok: "net_ok (s\<lparr>NetArpWaitReplyIP := tip\<rparr>)" using assms by (simp add: net_ok_def)
  have h: "NetEthHdrSize (s\<lparr>NetArpWaitReplyIP := tip\<rparr>) = NetEthHdrSize s" by (simp add: NetEthHdrSize_def)
  have g: "eth_tag A PROT_ARP (s\<lparr>NetArpWaitReplyIP := tip\<rparr>) = eth_tag A PROT_ARP s" for A by (simp add: eth_tag_def h)
  note f = arp_frame_fields [OF ok, of NetEtherNullAddr "NetOurIP s" tip, unfolded h g]
  show ?thesis
    unfolding t arp_packet_def Let_def
    by (intro exI [of _ "arp_frame (NetOurIP s) NetEtherNullAddr tip (s\<lparr>NetArpWaitReplyIP := tip\<rparr>)"] exI [of _ tip])
      (use f in \<open>simp add: null_addr\<close>)
qed

text \<open>
  C14: Address resolution delivers: a packet for a server whose Ethernet address is not known waits, and a request
  goes out; the station that has the address asked for answers it; and the answer makes the sender transmit exactly
  the frame it would have sent at once had it known the address, which it now does.\<close>

theorem arp_resolves:
  assumes "net_ok s" "net_ok r" "NetOurVLAN r = NetOurVLAN s" "NetOurIP s \<noteq> 0" "NetOurIP r \<noteq> 0"
    and "NetServerEther s = NetEtherNullAddr" "NetOurEther r \<noteq> NetEtherNullAddr" "udp_dest dest \<noteq> 0xffffffff"
    and "NetSendUDPPacket_net ServerEther dest dp sp len now s = (rc, s1)" "NetOurIP r = NetArpWaitReplyIP s1"
    and "holds req (bytes_at (NetArpTxPacket s1) 0 (NetEthHdrSize s + 28))"
  shows "rc = 1 \<and> acts s1 = acts s @ [EthSend (bytes_at (NetArpTxPacket s1) 0 (NetEthHdrSize s + 28))]
    \<and> (\<exists>reply. acts (fst (NetReceive req (NetEthHdrSize s + 28) r)) = acts r @ [EthSend reply]
        \<and> (\<forall>buf. holds buf reply \<longrightarrow>
             NetServerEther (fst (NetReceive buf (NetEthHdrSize s + 28) s1)) = NetOurEther r
             \<and> acts (fst (NetReceive buf (NetEthHdrSize s + 28) s1)) = acts s1 @
                 drop (length (acts s)) (acts (snd (NetSendUDPPacket_net ServerEther dest dp sp len now (s\<lparr>NetServerEther := NetOurEther r\<rparr>))))))"
proof -
  let ?p = "NetEthHdrSize s" and ?f = "udp_frame ServerEther dest dp sp len s" and ?t = "s\<lparr>NetServerEther := NetOurEther r\<rparr>"
  have e: "udp_ether ServerEther dest = ServerEther" using assms(8) by (simp add: udp_ether_def)
  define w where "w = s\<lparr>NetIPID := NetIPID s + 1, NetTxPacket := ?f, NetArpWaitPacketIP := udp_dest dest,
      NetArpWaitPacketMAC := Some ServerEther, NetArpWaitTxPacketSize := ?p + 28 + len, NetArpWaitTry := 1, NetArpWaitTimerStart := now\<rparr>"
  have s1: "rc = 1" "s1 = ArpRequest w"
    using assms(6,9) unfolding NetSendUDPPacket_eq [OF assms(1)] w_def by (simp_all add: Let_def e ether_addr_def)
  have w: "net_ok w" "NetEthHdrSize w = ?p" "NetOurEther w = NetOurEther s" "NetOurIP w = NetOurIP s" "NetOurVLAN w = NetOurVLAN s"
    using assms(1) by (simp_all add: w_def net_ok_def NetEthHdrSize_def)
  obtain A tip where A: "s1 = act (EthSend (bytes_at A 0 (?p + 28))) (w\<lparr>NetArpWaitReplyIP := tip, NetArpTxPacket := A\<rparr>)"
    "arp_packet A 1 (NetOurEther s) (NetOurIP s) tip w"
    using arp_request_sent [OF w(1)] unfolding s1(2) w by blast
  have ap: "arp_packet m opc sha spa tpa w = arp_packet m opc sha spa tpa s" for m opc sha spa tpa
    by (simp add: arp_packet_def eth_tag_def w)
  have f: "NetArpTxPacket s1 = A" "NetArpWaitReplyIP s1 = tip" "NetOurIP s1 = NetOurIP s" "NetOurVLAN s1 = NetOurVLAN s"
    "acts s1 = acts s @ [EthSend (bytes_at A 0 (?p + 28))]"
    by (simp_all add: A(1) act_def w_def)
  have req: "arp_packet req 1 (NetOurEther s) (NetOurIP s) tip s"
    using arp_packet_holds [OF A(2) [unfolded ap]] assms(11) f(1) by simp
  obtain R where R: "arp_answer req ?p r = act (EthSend (bytes_at R 0 (?p + 28))) r" "arp_packet R 2 (NetOurEther r) (NetOurIP r) (NetOurIP s) s"
    using arp_answer_packet [OF req assms(2,3)] by blast
  have "NetReceive req (?p + 28) r = (act (EthSend (bytes_at R 0 (?p + 28))) r, None)"
    using arp_received [OF req assms(3)] assms(5,10) f(2) R(1) by simp
  then have sent: "acts (fst (NetReceive req (?p + 28) r)) = acts r @ [EthSend (bytes_at R 0 (?p + 28))]" by (simp add: act_def)
  have t: "net_ok ?t" "NetEthHdrSize ?t = ?p" using assms(1,2) by (simp_all add: net_ok_def NetEthHdrSize_def)
  have direct: "acts (snd (NetSendUDPPacket_net ServerEther dest dp sp len now ?t)) =
      acts s @ [EthSend (bytes_at (store ?f 0 (NetOurEther r)) 0 (?p + 28 + len))]"
    using assms(7) udp_frame_other [OF assms(1) _ assms(8), of "NetOurEther r"] assms(2)
    unfolding NetSendUDPPacket_eq [OF t(1)] t(2)
    by (simp add: Let_def e ether_addr_def NetSendPacket_def act_def net_ok_def)
  have "NetServerEther (fst (NetReceive buf (?p + 28) s1)) = NetOurEther r
      \<and> acts (fst (NetReceive buf (?p + 28) s1)) = acts s1 @ [EthSend (bytes_at (store ?f 0 (NetOurEther r)) 0 (?p + 28 + len))]"
    if "holds buf (bytes_at R 0 (?p + 28))" for buf
  proof -
    have b: "arp_packet buf 2 (NetOurEther r) (NetOurIP r) (NetOurIP s) s" by (rule arp_packet_holds [OF R(2) that])
    then have "NetReceive buf (?p + 28) s1 = (arp_learn buf ?p s1, None)" using arp_received [OF b f(4,3)] assms(4) by simp
    moreover have "udp_dest dest \<noteq> 0" by (simp add: udp_dest_def)
    ultimately show ?thesis
      using b assms(10) f(2) by (simp add: arp_learn_def arp_packet_def Let_def A(1) w_def act_def NetSendPacket_def)
  qed
  then show ?thesis
    using s1(1) f(1,5) sent unfolding direct by (intro conjI exI [of _ "bytes_at R 0 (?p + 28)"]) simp_all
qed

definition demo_asking :: net where
  "demo_asking = demo_a\<lparr>NetServerEther := NetEtherNullAddr\<rparr>"

definition demo_waiting :: net where
  "demo_waiting = snd (NetSendUDPPacket_net ServerEther 2 69 1024 3 0 demo_asking)"

lemma arp_raw_request_reply [simp]: "NetArpWaitReplyIP (arp_raw_request a b c st) = NetArpWaitReplyIP st"
  by (simp add: arp_raw_request_def NetSendPacket_def act_def Let_def split: prod.split)

lemma demo_asking_ok:
  "net_ok demo_asking" "NetOurVLAN demo_b = NetOurVLAN demo_asking" "NetOurIP demo_asking = 1" "NetEthHdrSize demo_asking = 14"
  "NetServerEther demo_asking = NetEtherNullAddr" "NetOurEther demo_b = [2, 0, 0, 0, 0, 34]" "acts demo_b = []"
  using demo_stations by (simp_all add: demo_asking_def net_ok_def null_addr NetEthHdrSize_def demo_b_def demo_station_def)

lemma demo_waiting_reply: "NetArpWaitReplyIP demo_waiting = 2"
proof -
  have "NetOurSubnetMask demo_asking = 0" by (simp add: demo_asking_def demo_a_def demo_station_def)
  then show ?thesis
    unfolding demo_waiting_def NetSendUDPPacket_eq [OF demo_asking_ok(1)]
    by (simp add: demo_asking_ok ether_addr_def udp_ether_def udp_dest_def ArpRequest_def Let_def)
qed

theorem arp_resolves_witness:
  "\<exists>reply. acts (fst (NetReceive (NetArpTxPacket demo_waiting) 42 demo_b)) = [EthSend reply]
    \<and> NetServerEther (fst (NetReceive (packet reply) 42 demo_waiting)) = [2, 0, 0, 0, 0, 34]"
proof -
  have "holds (packet xs) xs" for xs by (simp add: holds_def packet_def)
  then show ?thesis
    using arp_resolves [OF demo_asking_ok(1) demo_stations(2) demo_asking_ok(2) _ _ demo_asking_ok(5) _ _ prod.collapse [symmetric] _ holds_self,
        where dest = 2 and dp = 69 and sp = 1024 and len = 3 and now = 0, folded demo_waiting_def]
    by (simp add: demo_asking_ok demo_stations demo_waiting_reply null_addr udp_dest_def) blast
qed

subsection \<open>Where the network layer goes wrong\<close>

text \<open>The length field of the UDP header is not compared with the length of the packet: below 8 it wraps
  around, and the handler is told that the payload has about four billion bytes.\<close>

theorem udp_length_underflow:
  assumes "28 \<le> n" "n < 2 ^ 31" "ntohs pkt (p + 2) = 28" "pkt p = 0x45" "NetCksumOk pkt p 10" "NetOurIP st = 0"
    "ntohs pkt (p + 6) = 0x4000" "pkt (p + 9) = IPPROTO_UDP" "udp_handler_set st" "ntohs pkt (p + 24) = 7"
  shows "ip_receive pkt p (int n) st =
    (st, Some (UdpPacket (p + 28) (ntohs pkt (p + 22)) (NetReadIP pkt (p + 12)) (ntohs pkt (p + 20)) 0xffffffff))"
proof -
  have "\<not> (word_of_nat n :: u32) < 28" using assms(1,2) by (simp add: word_less_nat_alt unat_of_nat)
  then show ?thesis
    unfolding ip_receive_def Let_def assms(3,4,7,8,10) using assms by (simp add: IPPROTO_UDP_def IPPROTO_ICMP_def)
qed

end
