(* ===== verification/Net_Addr.thy ===== *)
theory Net_Addr
  imports Net_Udp
begin

text \<open>
  Addresses and VLANs as text: \<open>ip_to_string\<close>, \<open>VLAN_to_string\<close> and \<open>string_to_VLAN\<close> of \<open>net/net.c\<close>, and
  \<open>string_to_ip\<close> of \<open>lib/net_utils.c\<close>. An address is kept in network byte order.
\<close>

definition ntohl :: "u32 \<Rightarrow> u32" where
  "ntohl w = le32 (ucast (drop_bit 24 w)) (ucast (drop_bit 16 w)) (ucast (drop_bit 8 w)) (ucast w)"

definition ip_to_string :: "u32 \<Rightarrow> bytes" where
  "ip_to_string x =
     (let x = ntohl x
      in sprintf_text (bs ''%d.%d.%d.%d'')
           [W32 (drop_bit 24 x AND 0xff), W32 (drop_bit 16 x AND 0xff), W32 (drop_bit 8 x AND 0xff), W32 (x AND 0xff)])"

fun string_to_ip_loop :: "nat \<Rightarrow> bytes \<Rightarrow> u32 \<Rightarrow> u32" where
  "string_to_ip_loop 0 s addr = addr"
| "string_to_ip_loop (Suc i) s addr =
     (let (val, e) = simple_strtoul s 10
      in string_to_ip_loop i (if peek e \<noteq> 0 then tl e else e) (push_bit 8 addr OR (val AND 0xff)))"

definition string_to_ip :: "bytes option \<Rightarrow> u32" where
  "string_to_ip s = (case s of None \<Rightarrow> 0 | Some s \<Rightarrow> ntohl (string_to_ip_loop 4 s 0))"

definition VLAN_to_string :: "u16 \<Rightarrow> bytes" where
  "VLAN_to_string x =
     (let x = our_vlan x
      in if x = VLAN_NONE then bs ''none'' else sprintf_text (bs ''%d'') [W32 (ucast (x AND VLAN_IDMASK))])"

definition string_to_VLAN :: "bytes option \<Rightarrow> u16" where
  "string_to_VLAN s =
     (case s of
        None \<Rightarrow> swab16 VLAN_NONE
      | Some s \<Rightarrow> swab16 (if peek s < 48 \<or> peek s > 57 then VLAN_NONE else ucast (fst (simple_strtoul s 10))))"

subsection \<open>Bytes of a word\<close>

lemma ntohl_le32: "ntohl (le32 a b c d) = le32 d c b a"
proof -
  have "put_le32 (le32 a b c d) = [a, b, c, d]" by (rule put_le32_le32)
  then show ?thesis by (simp add: ntohl_def put_le32_def)
qed

lemma word_of_bytes: obtains a b c d where "(w :: u32) = le32 a b c d"
  using le32_put_le32 [of w] by (metis (no_types))

lemma le32_fields:
  "le32 a b c d AND 255 = ucast a" "drop_bit 8 (le32 a b c d) AND 255 = ucast b"
  "drop_bit 16 (le32 a b c d) AND 255 = ucast c" "drop_bit 24 (le32 a b c d) AND 255 = ucast d"
  using le32_bytes [of a b c d] by (simp_all add: drop_bit_drop_bit)

lemma le32_shift: "push_bit 8 (push_bit 8 (push_bit 8 (ucast d) OR ucast c) OR ucast b) OR ucast a = le32 a b c d"
  unfolding le32_def
  by (rule bit_word_eqI) (auto simp: bit_simps dest: bit_u8_lt)

lemma ucast_and_255: "(ucast (b :: u8) :: u32) AND 255 = ucast b"
  unfolding mask_255 by (rule bit_word_eqI) (auto simp: bit_simps dest: bit_u8_lt)

subsection \<open>Dotted decimal\<close>

lemma fmt_dot:
  assumes "\<not> sint w < 0"
  shows "vs_text m (37 # 100 # 46 # fmt) (W32 w # args) =
    map_option (\<lambda>(t, r). (decimal (unat w) @ 46 # t, r)) (vs_text m fmt args)"
  using assms
  by (simp add: fmt_simps(2-) vs_text.simps [of m "37 # x" for x] vs_text.simps [of m "46 # x" for x] digits_text_10
      sint_scast_64 magnitude_32 option.map_comp comp_def case_prod_beta split: option.split)

lemma sint_ucast_small:
  fixes b :: "'a::len word"
  assumes "LENGTH('a) < 32"
  shows "\<not> sint (ucast b :: u32) < 0"
proof -
  have "(2 :: int) ^ LENGTH('a) \<le> 2 ^ 31" by (rule power_increasing) (use assms in simp_all)
  then have "uint b < 2 ^ 31" by (rule less_le_trans [OF uint_lt2p])
  then have "signed_take_bit 31 (uint b) = uint b"
    by (intro signed_take_bit_int_eq_self order_trans [OF _ uint_ge_0]) simp_all
  then have "sint (ucast b :: u32) = uint b" by (simp add: signed_ucast_eq)
  then show ?thesis by simp
qed

lemma ip_to_string_eq:
  "ip_to_string (le32 a b c d) = decimal (unat a) @ 46 # decimal (unat b) @ 46 # decimal (unat c) @ 46 # decimal (unat d)"
proof -
  have "bs ''%d.%d.%d.%d'' = 37 # 100 # 46 # 37 # 100 # 46 # 37 # 100 # 46 # bs ''%d''" by simp
  then show ?thesis
    by (simp add: ip_to_string_def ntohl_le32 le32_fields sprintf_text_def fmt_dot fmt_d sint_ucast_small unat_ucast_u8 Let_def del: bs_simps)
qed

lemma stops_dot: "stops (10 :: u32) (46 # s)" "peek (46 # s) \<noteq> 120"
  by (simp_all add: stops_def isxdigit_iff)

lemma loop_dot:
  "string_to_ip_loop (Suc i) (decimal (unat (b :: u8)) @ 46 # s) addr = string_to_ip_loop i s (push_bit 8 addr OR ucast b)"
  "string_to_ip_loop (Suc i) (decimal (unat (b :: u8))) addr = string_to_ip_loop i [] (push_bit 8 addr OR ucast b)"
  using strtoul_decimal [of 10 "46 # s" "unat b"] strtoul_decimal [of 10 "[]" "unat b"] stops_dot [of s]
  by (simp_all add: ucast_and_255)

text \<open>
  C30: An address survives its text: \<open>string_to_ip\<close> reads back what \<open>ip_to_string\<close> prints, for every address.\<close>

theorem ip_string_roundtrip: "string_to_ip (Some (ip_to_string x)) = x"
proof -
  obtain a b c d where x: "x = le32 a b c d" by (rule word_of_bytes)
  have "string_to_ip_loop 4 (ip_to_string x) 0 = le32 d c b a"
  proof -
    have four: "4 = Suc (Suc (Suc (Suc 0)))" by simp
    show ?thesis
      unfolding x ip_to_string_eq four loop_dot string_to_ip_loop.simps(1) using le32_shift [of a b c d] by simp
  qed
  then show ?thesis by (simp add: string_to_ip_def ntohl_le32 x)
qed

subsection \<open>VLANs\<close>

lemma swab16_swab16: "swab16 (swab16 w) = w"
proof (rule bit_word_eqI)
  fix n assume "n < LENGTH(16)"
  then consider "n < 8" | "8 \<le> n" "n < 16" by force
  then show "bit (swab16 (swab16 w)) n = bit w n"
    by cases (auto simp: swab16_def bit_simps dest: bit_imp_le_length)
qed

lemma vlan_small: "our_vlan v AND VLAN_IDMASK \<noteq> 0xffff" "unat (our_vlan v AND VLAN_IDMASK) < 4096"
proof -
  have "VLAN_IDMASK = mask 12" by (simp add: VLAN_IDMASK_def mask_eq_exp_minus_1)
  then have "our_vlan v AND VLAN_IDMASK = take_bit 12 (our_vlan v)" by (simp add: take_bit_eq_mask)
  then have "unat (our_vlan v AND VLAN_IDMASK) = unat (our_vlan v) mod 4096"
    by (simp only: unsigned_take_bit_eq) (simp add: take_bit_eq_mod)
  then show s: "unat (our_vlan v AND VLAN_IDMASK) < 4096" by simp
  show "our_vlan v AND VLAN_IDMASK \<noteq> 0xffff"
  proof
    assume "our_vlan v AND VLAN_IDMASK = 0xffff"
    with s show False by simp
  qed
qed

text \<open>
  A VLAN survives its text: what \<open>string_to_VLAN\<close> makes of the text that \<open>VLAN_to_string\<close> prints selects the
  same VLAN, or none.\<close>

theorem vlan_string_roundtrip:
  "our_vlan (string_to_VLAN (Some (VLAN_to_string v))) AND VLAN_IDMASK = our_vlan v AND VLAN_IDMASK"
proof (cases "our_vlan v = VLAN_NONE")
  case True
  then show ?thesis
    by (simp add: VLAN_to_string_def string_to_VLAN_def our_vlan_def [of "swab16 x" for x] swab16_swab16)
next
  case False
  let ?x = "our_vlan v AND VLAN_IDMASK"
  have u: "unat (ucast ?x :: u32) = unat ?x"
    using vlan_small(2) [of v] by (simp add: unsigned_ucast_eq take_bit_eq_mod)
  have "\<not> sint (ucast ?x :: u32) < 0" by (rule sint_ucast_small) simp
  then have t: "VLAN_to_string v = decimal (unat ?x)"
    using False by (simp add: VLAN_to_string_def sprintf_text_def fmt_d u Let_def del: bs_simps)
  have "\<not> peek (decimal (unat ?x)) < 48" "\<not> peek (decimal (unat ?x)) > 57"
    using decimal_hd_digit [of "unat ?x"] by (auto simp: isdigit_iff)
  moreover have "fst (simple_strtoul (decimal (unat ?x)) 10) = word_of_nat (unat ?x)"
    using strtoul_decimal [of 10 "[]" "unat ?x"] by simp
  moreover have "(ucast (ucast ?x :: u32) :: u16) = ?x"
    by (rule bit_word_eqI) (auto simp: bit_simps)
  ultimately have "string_to_VLAN (Some (VLAN_to_string v)) = swab16 ?x" by (simp add: t string_to_VLAN_def)
  then show ?thesis using vlan_small(1) [of v] by (simp add: our_vlan_def [of "swab16 ?x"] swab16_swab16 mask_mask)
qed

end
