(* ===== verification/Fwtool.thy ===== *)
theory Fwtool
  imports Image "HOL-Library.Monad_Syntax"
begin

text \<open>
  The check of a firmware's manifest, \<open>lib/fwtool.c\<close>, which the recovery web server runs on an uploaded
  firmware, and the search for a string literal that it and the server share.

  A firmware ends in two blocks, each data followed by a trailer of 16 bytes (magic, checksum, type, size,
  big-endian; the size counts the block's data and its trailer): the manifest's block and then the
  signature's. The check finds the two trailers from the end, copies up to 512 bytes of the manifest into a
  buffer on the stack and looks for three words in it. \<open>None\<close> is a write outside of that buffer.
\<close>

subsection \<open>Searching for a literal\<close>

text \<open>
  \<open>strstr\<close> with the pattern given by its characters, as for a literal (which has an address of its own);
  \<open>strstr_lit_strstr\<close> relates it to the routine of \<open>lib/string.c\<close>.
\<close>

definition index_of :: "bytes \<Rightarrow> bytes \<Rightarrow> nat option" where
  "index_of t s = find (\<lambda>i. take (length t) (drop i s) = t) [0..<length s + 1 - length t]"

definition strstr_lit :: "mem \<Rightarrow> nat \<Rightarrow> bytes \<Rightarrow> nat option option" where
  "strstr_lit m p t = map_option (\<lambda>l. map_option (\<lambda>i. p + i) (index_of t (bytes_at m p l))) (strlen m p)"

subsection \<open>The check\<close>

datatype fwtool_ret_id = FWTOOL_FIRMWARE_VALID | FWTOOL_ERROR_INVALID_FILE

definition FWIMAGE_MAGIC :: u32 where "FWIMAGE_MAGIC = 0x46577830"

record fwimage_trailer =
  tr_magic :: u32
  tr_crc32 :: u32
  tr_type :: u8
  tr_size :: u32

definition read_trailer :: "mem \<Rightarrow> nat \<Rightarrow> fwimage_trailer" where
  "read_trailer m a = \<lparr>tr_magic = load32 m a, tr_crc32 = load32 m (a + 4), tr_type = m (a + 8), tr_size = load32 m (a + 12)\<rparr>"

definition trailer_bad :: "fwimage_trailer \<Rightarrow> u32 \<Rightarrow> bool" where
  "trailer_bad tr n \<longleftrightarrow> uimage_to_cpu (tr_magic tr) \<noteq> FWIMAGE_MAGIC \<or> uimage_to_cpu (tr_size tr) \<ge> n"

definition DEVICE_MODEL_MANIFEST :: bytes where "DEVICE_MODEL_MANIFEST = bs ''rutx''"

definition manifest_words :: "mem \<Rightarrow> fwtool_ret_id option" where
  "manifest_words buffer =
     do { a \<leftarrow> strstr_lit buffer 0 (bs ''supported_devices'');
          if a = None then Some FWTOOL_ERROR_INVALID_FILE
          else do { b \<leftarrow> strstr_lit buffer 0 (bs ''teltonika,'');
            if b = None then Some FWTOOL_ERROR_INVALID_FILE
            else do { c \<leftarrow> strstr_lit buffer 0 DEVICE_MODEL_MANIFEST;
              if c = None then Some FWTOOL_ERROR_INVALID_FILE else Some FWTOOL_FIRMWARE_VALID } } }"

definition manifest_buffer :: "mem \<Rightarrow> u32 \<Rightarrow> u32 \<Rightarrow> mem option" where
  "manifest_buffer m src n =
     (let n = (if n > 512 then 512 else n)
      in if n = 0 then None
         else Some ((store (\<lambda>_. 0) 0 (bytes_at m (unat src) (unat n)))(unat n - 1 := 0)))"

definition fwtool_validate_manifest :: "mem \<Rightarrow> u32 \<Rightarrow> u32 \<Rightarrow> fwtool_ret_id option" where
  "fwtool_validate_manifest m ptr n =
     (if 16 * 2 > n then Some FWTOOL_ERROR_INVALID_FILE
      else let offset = n - 16; tr = read_trailer m (unat (ptr + offset))
      in if trailer_bad tr n then Some FWTOOL_ERROR_INVALID_FILE
      else let offset = n - 16 - uimage_to_cpu (tr_size tr); tr = read_trailer m (unat (ptr + offset))
      in if trailer_bad tr n then Some FWTOOL_ERROR_INVALID_FILE
      else let offset = offset - (uimage_to_cpu (tr_size tr) - 16 - 8)
      in Option.bind (manifest_buffer m (ptr + offset) (uimage_to_cpu (tr_size tr) - 16)) manifest_words)"

subsection \<open>Facts on the search\<close>

lemma strlen_loop_Some:
  assumes "strlen_loop m p q = Some l"
  shows "p \<le> q \<Longrightarrow> q \<le> p + l \<and> cstr m q (bytes_at m q (p + l - q))"
  using assms
proof (induction rule: strlen_loop.raw_induct [rotated, consumes 1, case_names step])
  case (step f m p q l)
  show ?case
  proof (cases "m q = 0")
    case True
    with step show ?thesis by auto
  next
    case False
    then have "f m p (q + 1) = Some l" using step(2) by simp
    from step(1) [OF this] step(3) have "q + 1 \<le> p + l" "cstr m (q + 1) (bytes_at m (q + 1) (p + l - (q + 1)))" by auto
    moreover from this(1) have "p + l - q = Suc (p + l - (q + 1))" by arith
    ultimately show ?thesis using False by simp
  qed
qed

lemma strlen_Some: "strlen m p = Some l \<longleftrightarrow> cstr m p (bytes_at m p l)"
  using strlen_loop_Some [of m p p l] strlen_cstr [of m p "bytes_at m p l"] by (auto simp: strlen_def)

lemma strstr_lit_cstr: "cstr m p s \<Longrightarrow> strstr_lit m p t = Some (map_option (\<lambda>i. p + i) (index_of t s))"
  by (simp add: strstr_lit_def cstr_iff)

lemma strstr_lit_strstr:
  assumes "cstr m q t" "t \<noteq> []"
  shows "strstr_lit m p t = strstr m p q"
proof (cases "strlen m p")
  case None
  then show ?thesis using strlen_cstr [OF assms(1)] assms(2) by (simp add: strstr_lit_def strstr_def)
next
  case (Some l)
  then have "cstr m p (bytes_at m p l)" by (simp add: strlen_Some)
  from strstr_cstr [OF this assms(1)] Some show ?thesis by (simp add: strstr_lit_def index_of_def)
qed

text \<open>Where a pattern first occurs, as a decomposition of the text.\<close>

lemma find_range_Some: "find P [0..<n] = Some i \<longleftrightarrow> i < n \<and> P i \<and> (\<forall>j < i. \<not> P j)"
  unfolding find_Some_iff by (auto simp: exI [of _ i])

lemma index_of_Some:
  "index_of t s = Some i \<longleftrightarrow>
     i + length t \<le> length s \<and> take (length t) (drop i s) = t \<and> (\<forall>j < i. take (length t) (drop j s) \<noteq> t)"
  unfolding index_of_def find_range_Some by auto

lemma take_drop_le: "take n (drop j s) = t \<Longrightarrow> length t = n \<Longrightarrow> 0 < n \<Longrightarrow> j + n \<le> length s"
  by auto

lemma index_of_None:
  assumes "t \<noteq> []"
  shows "index_of t s = None \<longleftrightarrow> (\<forall>j. take (length t) (drop j s) \<noteq> t)"
proof -
  have "j < length s + 1 - length t" if "take (length t) (drop j s) = t" for j
    using take_drop_le [OF that] assms by fastforce
  then show ?thesis unfolding index_of_def find_None_iff by auto
qed

lemma index_of_split: "index_of t s = Some i \<Longrightarrow> s = take i s @ t @ drop (i + length t) s"
  by (metis add.commute append_take_drop_id drop_drop index_of_Some)

lemma index_of_append:
  assumes "index_of t s = Some i"
  shows "index_of t (s @ r) = Some i"
  using assms unfolding index_of_Some by (auto simp: take_append drop_append)

lemma index_of_append_None:
  assumes "t \<noteq> []" "index_of t (s @ r) = None"
  shows "index_of t s = None"
  using assms index_of_append [of t s _ r] by (cases "index_of t s") auto

lemma index_of_occurs: "t \<noteq> [] \<Longrightarrow> index_of t (a @ t @ b) \<noteq> None"
  unfolding index_of_None by (auto intro: exI [of _ "length a"])

text \<open>The C string that starts at an address, when a zero byte is in sight.\<close>

abbreviation c_text :: "bytes \<Rightarrow> bytes" where
  "c_text xs \<equiv> takeWhile (\<lambda>c. c \<noteq> 0) xs"

lemma cstr_c_text: "m (p + n) = 0 \<Longrightarrow> cstr m p (c_text (bytes_at m p n))"
  by (induction n arbitrary: p) auto

subsection \<open>A firmware as the build writes it\<close>

definition fw_trailer :: "u32 \<Rightarrow> u8 \<Rightarrow> nat \<Rightarrow> bytes" where
  "fw_trailer crc typ n =
     PUT_UINT32_BE FWIMAGE_MAGIC @ PUT_UINT32_BE crc @ [typ, 0, 0, 0] @ PUT_UINT32_BE (word_of_nat (n + 16))"

definition fw_image :: "bytes \<Rightarrow> bytes \<Rightarrow> bytes \<Rightarrow> u32 \<Rightarrow> u32 \<Rightarrow> u8 \<Rightarrow> u8 \<Rightarrow> bytes" where
  "fw_image base manifest sig crc1 crc2 typ1 typ2 =
     base @ manifest @ fw_trailer crc1 typ1 (length manifest) @ sig @ fw_trailer crc2 typ2 (length sig)"

text \<open>What of the manifest the check can see: after the first 8 bytes, at most 511 bytes, up to a zero byte.\<close>

definition visible_manifest :: "bytes \<Rightarrow> u32 \<Rightarrow> u8 \<Rightarrow> bytes" where
  "visible_manifest manifest crc1 typ1 =
     c_text (take (min 512 (length manifest) - 1) (drop 8 (manifest @ fw_trailer crc1 typ1 (length manifest))))"

definition manifest_names_device :: "bytes \<Rightarrow> bool" where
  "manifest_names_device s \<longleftrightarrow>
     index_of (bs ''supported_devices'') s \<noteq> None \<and> index_of (bs ''teltonika,'') s \<noteq> None \<and>
     index_of DEVICE_MODEL_MANIFEST s \<noteq> None"

lemma fw_trailer_length [simp]: "length (fw_trailer crc typ n) = 16"
  by (simp add: fw_trailer_def)

lemma read_fw_trailer:
  assumes "at m a (fw_trailer crc typ n)"
  shows "uimage_to_cpu (tr_magic (read_trailer m a)) = FWIMAGE_MAGIC"
    "uimage_to_cpu (tr_size (read_trailer m a)) = word_of_nat (n + 16)"
proof -
  have "at m a (PUT_UINT32_BE FWIMAGE_MAGIC)" "at m (a + 12) (PUT_UINT32_BE (word_of_nat (n + 16)))"
    using assms unfolding fw_trailer_def at_append by (simp_all add: ac_simps del: of_nat_add)
  then show "uimage_to_cpu (tr_magic (read_trailer m a)) = FWIMAGE_MAGIC"
    "uimage_to_cpu (tr_size (read_trailer m a)) = word_of_nat (n + 16)"
    by (simp_all only: read_trailer_def fwimage_trailer.simps uimage_to_cpu_load32 at_word)
qed

lemma manifest_words_cstr:
  assumes "cstr m 0 s"
  shows "manifest_words m = Some (if manifest_names_device s then FWTOOL_FIRMWARE_VALID else FWTOOL_ERROR_INVALID_FILE)"
  unfolding manifest_words_def manifest_names_device_def strstr_lit_cstr [OF assms] by (simp del: bs_simps)

lemma manifest_buffer_text:
  assumes "n \<noteq> 0" "k = min 512 (unat n)"
  shows "\<exists>b. manifest_buffer m src n = Some b \<and> cstr b 0 (c_text (bytes_at m (unat src) (k - 1)))"
proof -
  define b where "b = (store (\<lambda>_. 0) 0 (bytes_at m (unat src) k))(k - 1 := 0)"
  have "unat n \<noteq> 0" using assms(1) by (simp add: unat_eq_0)
  then have k: "0 < k" "unat (if n > 512 then 512 else n) = k" using assms(2) by (auto simp: word_less_nat_alt)
  moreover have "x \<noteq> 0" if "unat x = k" "0 < k" for x :: u32 using that by auto
  ultimately have "(if n > 512 then 512 else n) \<noteq> 0" by blast
  with k have "manifest_buffer m src n = Some b"
    unfolding manifest_buffer_def Let_def b_def by (simp only: if_False)
  moreover have "bytes_at b 0 (k - 1) = bytes_at m (unat src) (k - 1)"
    using k by (auto simp: b_def bytes_at_def store_def)
  moreover have "b (0 + (k - 1)) = 0" by (simp add: b_def)
  ultimately show ?thesis using cstr_c_text [of b 0 "k - 1"] by auto
qed

lemma at_drop: "at m p xs \<Longrightarrow> k \<le> length xs \<Longrightarrow> at m (p + k) (drop k xs)"
  using at_append [of m p "take k xs" "drop k xs"] by simp

lemma bytes_at_prefix: "at m p xs \<Longrightarrow> n \<le> length xs \<Longrightarrow> bytes_at m p n = take n xs"
  by (metis at_def min.absorb1 take_bytes_at)

lemma trailer_good:
  assumes "at m a (fw_trailer crc typ k)" "k + 16 < n" "n < 2 ^ 32"
  shows "\<not> trailer_bad (read_trailer m a) (word_of_nat n)"
  using assms(2,3) unfolding trailer_bad_def read_fw_trailer [OF assms(1)]
  by (simp add: word_le_nat_alt unat_of_nat not_le del: of_nat_add)

lemma fwtool_image:
  assumes img: "img = fw_image base manifest sig crc1 crc2 typ1 typ2"
    and at: "at m (unat ptr) img" and fits: "unat ptr + length img < 2 ^ 32"
  shows "fwtool_validate_manifest m ptr (word_of_nat (length img)) =
    Option.bind (manifest_buffer m (ptr + word_of_nat (length base + 8)) (word_of_nat (length manifest))) manifest_words"
proof -
  let ?b = "length base" and ?m = "length manifest" and ?s = "length sig"
  have len: "length img = ?b + ?m + 16 + ?s + 16" by (simp add: img fw_image_def)
  have parts: "at m (unat ptr + (?b + ?m)) (fw_trailer crc1 typ1 ?m)"
    "at m (unat ptr + (?b + ?m + 16 + ?s)) (fw_trailer crc2 typ2 ?s)"
    using at unfolding img fw_image_def at_append by (simp_all add: add.assoc)
  have addr: "unat (ptr + word_of_nat k) = unat ptr + k" if "k \<le> length img" for k
    using that fits by (subst unat_plus_no_wrap) (simp_all add: unat_of_nat)
  have offs: "word_of_nat (length img) - 16 = (word_of_nat (?b + ?m + 16 + ?s) :: u32)"
    "word_of_nat (?b + ?m + 16 + ?s) - word_of_nat (?s + 16) = (word_of_nat (?b + ?m) :: u32)"
    "word_of_nat (?m + 16) - 16 = (word_of_nat ?m :: u32)"
    "word_of_nat (?b + ?m) - (word_of_nat ?m - 8) = (word_of_nat (?b + 8) :: u32)"
    by (simp_all add: len)
  note good = trailer_good [OF parts(1), of "length img"] trailer_good [OF parts(2), of "length img"]
  have long: "\<not> (16 * 2 :: u32) > word_of_nat (length img)"
    using fits len by (simp add: word_less_nat_alt unat_of_nat del: of_nat_add)
  have a: "unat (ptr + word_of_nat (?b + ?m + 16 + ?s)) = unat ptr + (?b + ?m + 16 + ?s)"
    "unat (ptr + word_of_nat (?b + ?m)) = unat ptr + (?b + ?m)"
    by (rule addr, simp add: len)+
  have g: "\<not> trailer_bad (read_trailer m (unat ptr + (?b + ?m))) (word_of_nat (length img))"
    "\<not> trailer_bad (read_trailer m (unat ptr + (?b + ?m + 16 + ?s))) (word_of_nat (length img))"
    using good len fits by simp_all
  show ?thesis
    unfolding fwtool_validate_manifest_def Let_def offs(1) a
    by (simp only: long g if_False a read_fw_trailer(2) [OF parts(1)] read_fw_trailer(2) [OF parts(2)] offs(2-4))
qed

lemma fwtool_laid_out:
  assumes "img = fw_image base manifest sig crc1 crc2 typ1 typ2" "manifest \<noteq> []"
    and "bytes_at m (unat ptr) (length img) = img" "unat ptr + length img < 2 ^ 32"
  shows "fwtool_validate_manifest m ptr (word_of_nat (length img)) =
    Some (if manifest_names_device (visible_manifest manifest crc1 typ1)
          then FWTOOL_FIRMWARE_VALID else FWTOOL_ERROR_INVALID_FILE)"
proof -
  let ?n = "word_of_nat (length manifest) :: u32" and ?src = "ptr + word_of_nat (length base + 8)"
  let ?k = "min 512 (length manifest)"
  have at: "at m (unat ptr) img" using assms(3) by (simp add: at_def)
  have lt: "length manifest < 2 ^ 32" "length base + 8 < 2 ^ 32" "unat ptr + (length base + 8) < 2 ^ 32"
    using assms(1,4) by (simp_all add: fw_image_def)
  then have n: "unat ?n = length manifest" and src: "unat ?src = unat ptr + (length base + 8)"
    by (simp_all add: unat_of_nat unat_plus_no_wrap del: of_nat_add)
  have "?n \<noteq> 0" using n assms(2) by (metis length_0_conv unsigned_0)
  from manifest_buffer_text [OF this refl, of m ?src] obtain b where
    b: "manifest_buffer m ?src ?n = Some b" "cstr b 0 (c_text (bytes_at m (unat ?src) (?k - 1)))"
    unfolding n by auto
  have "at m (unat ptr + length base) (manifest @ fw_trailer crc1 typ1 (length manifest))" (is "at m _ ?mt")
    using at unfolding assms(1) fw_image_def at_append by simp
  then have "at m (unat ?src) (drop 8 ?mt)"
    using at_drop [of m "unat ptr + length base" ?mt 8] unfolding src by (simp add: add.assoc)
  then have "bytes_at m (unat ?src) (?k - 1) = take (?k - 1) (drop 8 ?mt)"
    by (rule bytes_at_prefix) simp
  then show ?thesis
    using fwtool_image [OF assms(1) at assms(4)] b manifest_words_cstr [OF b(2)] by (simp add: visible_manifest_def)
qed

text \<open>
  C16: On a firmware that is laid out as the build writes it, at any place in memory, the check looks at the
  manifest only: it accepts the firmware exactly when the part of the manifest it sees holds the words for
  the device, whatever the firmware's other bytes, its checksums and its signature are.
\<close>

theorem fwtool_manifest:
  assumes "img = fw_image base manifest sig crc1 crc2 typ1 typ2" "manifest \<noteq> []"
    and "bytes_at m (unat ptr) (length img) = img" "unat ptr + length img < 2 ^ 32"
  shows "fwtool_validate_manifest m ptr (word_of_nat (length img)) =
    Some (if manifest_names_device (visible_manifest manifest crc1 typ1)
          then FWTOOL_FIRMWARE_VALID else FWTOOL_ERROR_INVALID_FILE)"
  using assms by (rule fwtool_laid_out)

definition demo_manifest :: bytes where
  "demo_manifest = replicate 8 0 @ bs ''{supported_devices:[teltonika,rutx]}''"

definition demo_firmware :: bytes where
  "demo_firmware = fw_image [1, 2, 3] demo_manifest [4, 5] 6 7 1 0"

definition demo_fw_mem :: mem where
  "demo_fw_mem = store (\<lambda>_. 0) 0x81000000 demo_firmware"

lemma demo_visible: "manifest_names_device (visible_manifest demo_manifest 6 1)"
  by code_simp

theorem fwtool_manifest_witness:
  "fwtool_validate_manifest demo_fw_mem 0x81000000 (word_of_nat (length demo_firmware)) = Some FWTOOL_FIRMWARE_VALID"
proof -
  have "demo_manifest \<noteq> []" "length demo_firmware = 81" by (simp_all add: demo_manifest_def demo_firmware_def fw_image_def)
  moreover have "bytes_at demo_fw_mem (unat (0x81000000 :: u32)) (length demo_firmware) = demo_firmware"
    by (simp add: demo_fw_mem_def)
  ultimately show ?thesis
    using fwtool_manifest [where m = demo_fw_mem and ptr = "0x81000000", OF demo_firmware_def] demo_visible by simp
qed

text \<open>
  A manifest block without data makes the check write in front of its buffer: the length of the copy is
  then 0 and the terminating zero goes to index -1.
\<close>

theorem fwtool_empty_manifest:
  assumes "img = fw_image base [] sig crc1 crc2 typ1 typ2"
    and "bytes_at m (unat ptr) (length img) = img" "unat ptr + length img < 2 ^ 32"
  shows "fwtool_validate_manifest m ptr (word_of_nat (length img)) = None"
  using fwtool_image [OF assms(1) _ assms(3)] assms(2) by (simp add: at_def manifest_buffer_def)

definition bare_firmware :: bytes where
  "bare_firmware = fw_image [] [] [] 0 0 0 0"

theorem fwtool_empty_manifest_witness:
  "fwtool_validate_manifest (store (\<lambda>_. 0) 0x81000000 bare_firmware) 0x81000000 32 = None"
proof -
  have "length bare_firmware = 32" by (simp add: bare_firmware_def fw_image_def)
  moreover have "bytes_at (store (\<lambda>_. 0) 0x81000000 bare_firmware) (unat (0x81000000 :: u32)) (length bare_firmware)
      = bare_firmware" by simp
  ultimately show ?thesis
    using fwtool_empty_manifest [where ptr = "0x81000000", OF bare_firmware_def] by simp
qed

end
