(* ===== verification/Httpd.thy ===== *)
theory Httpd
  imports Fwtool
begin

text \<open>
  The recovery web server, \<open>httpd/httpd.c\<close> and \<open>httpd/fs.c\<close>: the pages it serves, the firmware it takes in
  a form upload, and the application callback \<open>httpd_appcall\<close> that the TCP stack runs for every event.

  The state of the callback is one record: the fields of \<open>struct httpd_state\<close> (one global object, shared by
  the connections), the file's static variables, the globals of \<open>net/net.c\<close> it writes, and the memory.
  What the TCP stack provides is an argument (\<open>uip\<close>): the event flags, the received bytes with whatever the
  buffer holds after them, their number, the connection's segment size and the number of bytes in flight.
  The generated file table and the success of \<open>malloc\<close> are arguments too (\<open>site\<close>). The boundary string is
  kept by its characters. \<open>None\<close> is undefined behaviour: a string search that finds no terminator, an
  uninitialised page, a copy of received data to addresses outside of the SDRAM that is free for it. That ends at \<open>sdram_end\<close>, on this board
  at most \<open>CONFIG_SYS_TEXT_BASE\<close>, where the boot loader itself is.
\<close>

subsection \<open>State\<close>

datatype http_mode = STATE_NONE | STATE_FILE_REQUEST | STATE_UPLOAD_REQUEST

datatype upgrade = WEBFAILSAFE_UPGRADE_TYPE_FIRMWARE | WEBFAILSAFE_UPGRADE_TYPE_UBOOT | WEBFAILSAFE_UPGRADE_TYPE_ART

record http =
  hs_state :: http_mode
  hs_count :: u16
  hs_dataptr :: u32
  hs_upload :: u32
  hs_upload_total :: u32
  post_done :: bool
  upload_failed :: bool
  data_start_found :: bool
  small_file_flag :: bool
  post_packet_counter :: u8
  boundary_value :: "bytes option"
  ready_for_upgrade :: bool
  upgrade_type :: upgrade
  xfer_size :: u32
  data_pointer :: u32
  led_flashing_flag :: bool
  sdram :: mem
  sdram_end :: nat

record uip =
  uip_lport :: u16
  uip_flags :: u8
  uip_appdata :: mem
  uip_len :: u16
  uip_mss :: u16
  uip_conn_len :: u16

datatype uip_act = uip_send nat nat | uip_close | uip_abort

definition UIP_ACKDATA :: u8 where "UIP_ACKDATA = 1"
definition UIP_NEWDATA :: u8 where "UIP_NEWDATA = 2"
definition UIP_REXMIT :: u8 where "UIP_REXMIT = 4"
definition UIP_POLL :: u8 where "UIP_POLL = 8"
definition UIP_CLOSE :: u8 where "UIP_CLOSE = 16"
definition UIP_ABORT :: u8 where "UIP_ABORT = 32"
definition UIP_CONNECTED :: u8 where "UIP_CONNECTED = 64"
definition UIP_TIMEDOUT :: u8 where "UIP_TIMEDOUT = 128"

definition flagged :: "u8 \<Rightarrow> uip \<Rightarrow> bool" where
  "flagged f u \<longleftrightarrow> uip_flags u AND f \<noteq> 0"

definition CONFIG_LOADADDR :: u32 where "CONFIG_LOADADDR = 0x81000000"
definition CONFIG_MAX_UBOOT_SIZE :: u32 where "CONFIG_MAX_UBOOT_SIZE = 0x80000"
definition WEBFAILSAFE_UPLOAD_ART_SIZE_IN_BYTES :: u32 where "WEBFAILSAFE_UPLOAD_ART_SIZE_IN_BYTES = 0x10000"
definition WEBFAILSAFE_UPLOAD_FW_SIZE_IN_BYTES :: u32 where "WEBFAILSAFE_UPLOAD_FW_SIZE_IN_BYTES = 96 * 1024 * 1024"

definition eol :: bytes where "eol = [0x0d, 0x0a]"
definition eol2 :: bytes where "eol2 = [0x0d, 0x0a, 0x0d, 0x0a]"

subsection \<open>The pages\<close>

record fsdata_file =
  f_name :: bytes
  f_data :: u32
  f_len :: u32

record site =
  FS_ROOT :: "fsdata_file list"
  file_index_html :: bytes
  file_404_html :: bytes
  file_flashing_html :: bytes
  file_fail_html :: bytes
  malloc_ok :: "nat \<Rightarrow> bool"

definition str_mem :: "bytes \<Rightarrow> mem" where
  "str_mem s i = (if i < length s then s ! i else 0)"

partial_function (option) fs_strcmp :: "mem \<Rightarrow> mem \<Rightarrow> u8 \<Rightarrow> u8 option" where
  "fs_strcmp str1 str2 i =
     (if str2 (unat i) = 0 \<or> str1 (unat i) = 0x0d \<or> str1 (unat i) = 0x0a then Some 0
      else if str1 (unat i) \<noteq> str2 (unat i) then Some 1
      else fs_strcmp str1 str2 (i + 1))"

fun fs_open :: "mem \<Rightarrow> fsdata_file list \<Rightarrow> fsdata_file option option" where
  "fs_open name [] = Some None"
| "fs_open name (f # fs) =
     do { r \<leftarrow> fs_strcmp name (str_mem (f_name f)) 0;
          if r = 0 then Some (Some f) else fs_open name fs }"

subsection \<open>Helpers\<close>

definition is_digit :: "u8 \<Rightarrow> bool" where
  "is_digit c \<longleftrightarrow> 0x30 \<le> c \<and> c \<le> 0x39"

partial_function (option) atoi :: "mem \<Rightarrow> nat \<Rightarrow> u32 \<Rightarrow> u32 option" where
  "atoi m s i = (if is_digit (m s) then atoi m (s + 1) (i * 10 + ucast (m s) - 0x30) else Some i)"

definition httpd_download_progress :: "http \<Rightarrow> http" where
  "httpd_download_progress st =
     st\<lparr>post_packet_counter := (if post_packet_counter st = 39 then 0 else post_packet_counter st) + 1\<rparr>"

definition httpd_state_reset :: "http \<Rightarrow> http" where
  "httpd_state_reset st =
     st\<lparr>hs_state := STATE_NONE, hs_count := 0, hs_dataptr := 0, hs_upload := 0, hs_upload_total := 0,
        data_start_found := False, post_packet_counter := 0, boundary_value := None\<rparr>"

definition http_abort :: "http \<Rightarrow> (http \<times> uip_act option) option" where
  "http_abort st = Some (httpd_state_reset st, Some uip_abort)"

text \<open>Sending the next chunk of the page: at most a segment.\<close>

definition http_chunk :: "uip \<Rightarrow> http \<Rightarrow> uip_act" where
  "http_chunk u st =
     uip_send (unat (hs_dataptr st)) (unat (if hs_upload st > ucast (uip_mss u) then ucast (uip_mss u) else hs_upload st))"

definition serve :: "uip \<Rightarrow> fsdata_file \<Rightarrow> http \<Rightarrow> (http \<times> uip_act option) option" where
  "serve u f st =
     (let st = st\<lparr>hs_state := STATE_FILE_REQUEST, hs_dataptr := f_data f, hs_upload := f_len f\<rparr>
      in Some (st, Some (http_chunk u st)))"

subsection \<open>The first chunk of an upload\<close>

definition find_upgrade_type :: "mem \<Rightarrow> nat \<Rightarrow> upgrade option option" where
  "find_upgrade_type m start =
     do { a \<leftarrow> strstr_lit m start (bs ''name=\"firmware\"'');
          if a \<noteq> None then Some (Some WEBFAILSAFE_UPGRADE_TYPE_FIRMWARE)
          else do { b \<leftarrow> strstr_lit m start (bs ''name=\"uboot\"'');
            if b \<noteq> None then Some (Some WEBFAILSAFE_UPGRADE_TYPE_UBOOT)
            else do { c \<leftarrow> strstr_lit m start (bs ''name=\"art\"'');
              if c \<noteq> None then Some (Some WEBFAILSAFE_UPGRADE_TYPE_ART) else Some None } } }"

definition size_wrong :: "upgrade \<Rightarrow> u32 \<Rightarrow> bool" where
  "size_wrong t n \<longleftrightarrow>
     t = WEBFAILSAFE_UPGRADE_TYPE_UBOOT \<and> n > CONFIG_MAX_UBOOT_SIZE \<or>
     t = WEBFAILSAFE_UPGRADE_TYPE_ART \<and> n \<noteq> WEBFAILSAFE_UPLOAD_ART_SIZE_IN_BYTES \<or>
     n > WEBFAILSAFE_UPLOAD_FW_SIZE_IN_BYTES"

text \<open>The SDRAM is at \<open>CONFIG_SYS_SDRAM_BASE\<close>.\<close>

definition in_ram :: "http \<Rightarrow> nat \<Rightarrow> nat \<Rightarrow> bool" where
  "in_ram st p n \<longleftrightarrow> 0x80000000 \<le> p \<and> p + n \<le> sdram_end st"

definition copied :: "mem \<Rightarrow> nat \<Rightarrow> nat \<Rightarrow> http \<Rightarrow> http" where
  "copied m src n st =
     st\<lparr>sdram := store (sdram st) (unat (data_pointer st)) (bytes_at m src n),
        data_pointer := data_pointer st + word_of_nat n\<rparr>"

definition copy_in :: "mem \<Rightarrow> nat \<Rightarrow> nat \<Rightarrow> http \<Rightarrow> http option" where
  "copy_in m src n st = (if in_ram st (unat (data_pointer st)) n then Some (copied m src n st) else None)"

definition store_firstchunk :: "uip \<Rightarrow> nat \<Rightarrow> nat \<Rightarrow> bytes \<Rightarrow> http \<Rightarrow> http option" where
  "store_firstchunk u start e b st =
     (let e = e + 4;
          total = hs_upload_total st - word_of_nat (e - start) - word_of_nat (length b) - 6;
          n = ucast (uip_len u) - word_of_nat e;
          st = st\<lparr>hs_upload_total := total, upload_failed := (size_wrong (upgrade_type st) total \<or> upload_failed st),
                  hs_upload := n\<rparr>
      in map_option httpd_download_progress (copy_in (uip_appdata u) e (unat n) st))"

definition httpd_findandstore_firstchunk :: "uip \<Rightarrow> http \<Rightarrow> (bool \<times> http) option" where
  "httpd_findandstore_firstchunk u st =
     (case boundary_value st of None \<Rightarrow> Some (False, st)
      | Some b \<Rightarrow> do { start \<leftarrow> strstr_lit (uip_appdata u) 0 b;
          case start of None \<Rightarrow> Some (False, st)
          | Some start \<Rightarrow> do { ty \<leftarrow> find_upgrade_type (uip_appdata u) start;
              case ty of None \<Rightarrow> Some (False, st)
              | Some t \<Rightarrow> do { e \<leftarrow> strstr_lit (uip_appdata u) start eol2;
                  case e of None \<Rightarrow> Some (False, st\<lparr>upgrade_type := t\<rparr>)
                  | Some e \<Rightarrow>
                      if e < unat (uip_len u)
                      then map_option (Pair True) (store_firstchunk u start e b (st\<lparr>upgrade_type := t\<rparr>))
                      else Some (False, st\<lparr>upgrade_type := t\<rparr>) } } })"

subsection \<open>Requests\<close>

text \<open>\<open>uip_appdata[uip_len] = '\0'\<close>.\<close>

definition end_buffer :: "uip \<Rightarrow> uip" where
  "end_buffer u = u\<lparr>uip_appdata := (uip_appdata u)(unat (uip_len u) := 0)\<rparr>"

definition http_get :: "site \<Rightarrow> uip \<Rightarrow> http \<Rightarrow> (http \<times> uip_act option) option" where
  "http_get si u st =
     (case find (\<lambda>i. uip_appdata u i \<in> {0x20, 0x0d, 0x0a, 0x09}) [4..<30] of
        None \<Rightarrow> http_abort st
      | Some i \<Rightarrow>
          let m = (uip_appdata u)(i := 0)
          in do { f \<leftarrow> (if m 4 = 0x2f \<and> m 5 = 0 then fs_open (str_mem (file_index_html si)) (FS_ROOT si)
                       else do { r \<leftarrow> fs_open (\<lambda>k. m (4 + k)) (FS_ROOT si);
                                 case r of Some g \<Rightarrow> Some (Some g)
                                 | None \<Rightarrow> fs_open (str_mem (file_404_html si)) (FS_ROOT si) });
                  case f of None \<Rightarrow> None | Some g \<Rightarrow> serve u g st })"

datatype post_error = No_Content_Length | No_Boundary | No_Memory

definition post_length :: "mem \<Rightarrow> (post_error + u32) option" where
  "post_length m =
     do { s \<leftarrow> strstr_lit m 0 (bs ''Content-Length:'');
          case s of None \<Rightarrow> Some (Inl No_Content_Length)
          | Some s \<Rightarrow> do { e \<leftarrow> strstr_lit m (s + 16) eol;
              case e of None \<Rightarrow> Some (Inl No_Content_Length)
              | Some e \<Rightarrow> do { n \<leftarrow> atoi m (s + 16) 0; Some (Inr n) } } }"

definition post_boundary :: "(nat \<Rightarrow> bool) \<Rightarrow> mem \<Rightarrow> (post_error + bytes) option" where
  "post_boundary ok m =
     do { s \<leftarrow> strstr_lit m 0 (bs ''boundary='');
          case s of None \<Rightarrow> Some (Inl No_Boundary)
          | Some s \<Rightarrow> do { e \<leftarrow> strstr_lit m (s + 9) eol;
              case e of None \<Rightarrow> Some (Inl No_Boundary)
              | Some e \<Rightarrow>
                  if ok (e - (s + 9) + 3) then Some (Inr (bs ''--'' @ bytes_at m (s + 9) (e - (s + 9))))
                  else Some (Inl No_Memory) } }"

definition http_post :: "site \<Rightarrow> uip \<Rightarrow> http \<Rightarrow> (http \<times> uip_act option) option" where
  "http_post si u st =
     (let u = end_buffer u
      in do { r \<leftarrow> post_length (uip_appdata u);
              case r of Inl _ \<Rightarrow> http_abort st
              | Inr n \<Rightarrow>
                  let st = st\<lparr>hs_upload_total := n, small_file_flag := (n < 10240 \<or> small_file_flag st)\<rparr>
                  in do { r \<leftarrow> post_boundary (malloc_ok si) (uip_appdata u);
                          case r of Inl _ \<Rightarrow> http_abort st
                          | Inr b \<Rightarrow>
                              let st = st\<lparr>boundary_value := Some b, data_pointer := CONFIG_LOADADDR, led_flashing_flag := True,
                                          sdram := memset (sdram st) (unat CONFIG_LOADADDR) 0xFF (unat CONFIG_MAX_UBOOT_SIZE)\<rparr>
                              in if in_ram st (unat CONFIG_LOADADDR) (unat CONFIG_MAX_UBOOT_SIZE)
                                 then do { (found, st) \<leftarrow> httpd_findandstore_firstchunk u st;
                                           Some (st\<lparr>data_start_found := found\<rparr>, None) }
                                 else None } })"

text \<open>The first data of a connection: a \<open>GET\<close>, a \<open>POST\<close>, or an error.\<close>

definition http_request :: "site \<Rightarrow> uip \<Rightarrow> http \<Rightarrow> (http \<times> uip_act option) option" where
  "http_request si u st =
     (let m = uip_appdata u
      in if m 0 = 0x47 \<and> m 1 = 0x45 \<and> m 2 = 0x54 \<and> (m 3 = 0x20 \<or> m 3 = 0x09)
         then http_get si u (st\<lparr>hs_state := STATE_FILE_REQUEST\<rparr>)
         else if m 0 = 0x50 \<and> m 1 = 0x4f \<and> m 2 = 0x53 \<and> m 3 = 0x54 \<and> (m 4 = 0x20 \<or> m 4 = 0x09)
         then http_post si u (st\<lparr>hs_state := STATE_UPLOAD_REQUEST\<rparr>)
         else http_abort st)"

subsection \<open>The other events\<close>

definition http_acked :: "uip \<Rightarrow> http \<Rightarrow> (http \<times> uip_act option) option" where
  "http_acked u st =
     (if hs_state st = STATE_FILE_REQUEST
      then if hs_upload st \<le> ucast (uip_mss u)
           then let st = (if post_done st
                          then st\<lparr>ready_for_upgrade := (\<not> upload_failed st \<or> ready_for_upgrade st),
                                  post_done := False, upload_failed := False\<rparr>
                          else st)
                in Some (httpd_state_reset st, Some uip_close)
           else let st = st\<lparr>hs_dataptr := hs_dataptr st + ucast (uip_conn_len u),
                            hs_upload := hs_upload st - ucast (uip_conn_len u)\<rparr>
                in Some (st, Some (http_chunk u st))
      else Some (st, None))"

text \<open>The end of an upload: validation, and the page that tells the result.\<close>

definition http_upload_done :: "site \<Rightarrow> uip \<Rightarrow> http \<Rightarrow> (http \<times> uip_act option) option" where
  "http_upload_done si u st =
     (let st = st\<lparr>post_done := True, xfer_size := hs_upload_total st\<rparr>
      in do { bad \<leftarrow> (if \<not> upload_failed st \<and> upgrade_type st = WEBFAILSAFE_UPGRADE_TYPE_FIRMWARE
                     then map_option (\<lambda>r. r \<noteq> FWTOOL_FIRMWARE_VALID)
                            (fwtool_validate_manifest (sdram st) CONFIG_LOADADDR (hs_upload_total st))
                     else Some (upload_failed st));
              f \<leftarrow> fs_open (str_mem (if bad then file_fail_html si else file_flashing_html si)) (FS_ROOT si);
              case f of None \<Rightarrow> None
              | Some f \<Rightarrow>
                  map_option (\<lambda>(st, a). (st\<lparr>led_flashing_flag := False\<rparr>, a))
                    (serve u f (httpd_state_reset (st\<lparr>upload_failed := bad, small_file_flag := False\<rparr>))) })"

definition http_upload_data :: "site \<Rightarrow> uip \<Rightarrow> http \<Rightarrow> (http \<times> uip_act option) option" where
  "http_upload_data si u st =
     (if hs_state st = STATE_UPLOAD_REQUEST
      then let u = end_buffer u
           in if \<not> small_file_flag st \<and> \<not> data_start_found st
              then do { (found, st) \<leftarrow> httpd_findandstore_firstchunk u st;
                        if found then Some (st\<lparr>data_start_found := True\<rparr>, None) else http_abort st }
              else let st = st\<lparr>hs_upload := hs_upload st + ucast (uip_len u)\<rparr>
                   in do { st \<leftarrow> (if upload_failed st then Some st else copy_in (uip_appdata u) 0 (unat (uip_len u)) st);
                           let st = httpd_download_progress st
                           in case boundary_value st of None \<Rightarrow> None
                              | Some b \<Rightarrow> if hs_upload st \<ge> hs_upload_total st + word_of_nat (length b) + 6
                                          then http_upload_done si u st else Some (st, None) }
      else Some (st, None))"

definition httpd_appcall :: "site \<Rightarrow> uip \<Rightarrow> http \<Rightarrow> (http \<times> uip_act option) option" where
  "httpd_appcall si u st =
     (if uip_lport u \<noteq> 0x5000 then Some (st, Some uip_abort)
      else if flagged UIP_CLOSE u then Some (httpd_state_reset st, Some uip_close)
      else if flagged UIP_ABORT u \<or> flagged UIP_TIMEDOUT u then Some (httpd_state_reset st, Some uip_abort)
      else if flagged UIP_POLL u
           then let old = hs_count st; st = st\<lparr>hs_count := hs_count st + 1\<rparr>
                in if old \<ge> 100 then http_abort st else Some (st, None)
      else if flagged UIP_CONNECTED u then Some (httpd_state_reset st, None)
      else if flagged UIP_NEWDATA u \<and> hs_state st = STATE_NONE then http_request si u st
      else if flagged UIP_ACKDATA u then http_acked u st
      else if flagged UIP_REXMIT u
           then Some (st, if hs_state st = STATE_FILE_REQUEST then Some (http_chunk u st) else None)
      else if flagged UIP_NEWDATA u then http_upload_data si u st
      else Some (st, None))"

text \<open>A sequence of events.\<close>

fun http_run :: "site \<Rightarrow> uip list \<Rightarrow> http \<Rightarrow> (http \<times> uip_act option list) option" where
  "http_run si [] st = Some (st, [])"
| "http_run si (u # us) st =
     do { (st, a) \<leftarrow> httpd_appcall si u st;
          (st, as) \<leftarrow> http_run si us st;
          Some (st, a # as) }"

subsection \<open>Sequences of events\<close>

text \<open>
  What a client of an event-driven component relies on: a run is the composition of its steps. Invariants
  of the steps are invariants of the runs, and a condition that a run brings about has a first moment.
\<close>

locale event_steps =
  fixes step :: "'e \<Rightarrow> 's \<Rightarrow> ('s \<times> 'a) option"
    and run :: "'e list \<Rightarrow> 's \<Rightarrow> ('s \<times> 'a list) option"
  assumes run_Nil: "run [] s = Some (s, [])"
    and run_Cons: "run (e # es) s = do { (s, a) \<leftarrow> step e s; (s, as) \<leftarrow> run es s; Some (s, a # as) }"
begin

lemma run_append:
  "run (es @ fs) s = do { (s, as) \<leftarrow> run es s; (s, bs) \<leftarrow> run fs s; Some (s, as @ bs) }"
  by (induction es arbitrary: s) (auto simp: run_Nil run_Cons split: bind_splits option.splits prod.splits)

lemma run_step: "step e s = Some (s', a) \<Longrightarrow> run es s' = Some (t, as) \<Longrightarrow> run (e # es) s = Some (t, a # as)"
  by (simp add: run_Cons)

lemma run_invariant:
  assumes "\<And>e s s' a. step e s = Some (s', a) \<Longrightarrow> P s \<Longrightarrow> P s'" "run es s = Some (t, as)" "P s"
  shows "P t"
  using assms(2,3)
proof (induction es arbitrary: s as)
  case (Cons e es)
  then obtain s' a bs where "step e s = Some (s', a)" "run es s' = Some (t, bs)" by (auto simp: run_Cons split: bind_splits)
  with Cons.IH assms(1) Cons.prems(2) show ?case by blast
qed (simp add: run_Nil)

lemma run_first:
  assumes "\<And>e s s' a. step e s = Some (s', a) \<Longrightarrow> \<not> P s \<Longrightarrow> P s' \<Longrightarrow> Q s'" "run es s = Some (t, as)" "P t" "\<not> P s"
  shows "\<exists>es1 es2 s1 bs. es = es1 @ es2 \<and> run es1 s = Some (s1, bs) \<and> Q s1"
  using assms(2,3)
proof (induction es arbitrary: t as rule: rev_induct)
  case (snoc e es)
  obtain s1 bs a where s1: "run es s = Some (s1, bs)" "step e s1 = Some (t, a)"
    using snoc.prems(1) by (auto simp: run_append run_Cons run_Nil split: bind_splits)
  show ?case
  proof (cases "P s1")
    case True
    with snoc.IH [OF s1(1)] obtain es1 es2 s2 cs where "es = es1 @ es2" "run es1 s = Some (s2, cs)" "Q s2" by blast
    then show ?thesis by (intro exI [of _ es1] exI [of _ "es2 @ [e]"]) auto
  next
    case False
    then have "Q t" using assms(1) s1(2) snoc.prems(2) by blast
    with snoc.prems(1) show ?thesis by (intro exI [of _ "es @ [e]"] exI [of _ "[]"]) auto
  qed
qed (use assms(4) in \<open>simp add: run_Nil\<close>)

end

interpretation web: event_steps "httpd_appcall si" "http_run si" for si
  by unfold_locales simp_all

end
