(* ===== verification/Httpd_Get.thy ===== *)
theory Httpd_Get
  imports Httpd "HOL-Library.Sublist"
begin

text \<open>
  The pages of the recovery web server: which file a name opens, and that a page is sent whole.
\<close>

subsection \<open>Names\<close>

fun fs_match :: "bytes \<Rightarrow> bytes \<Rightarrow> bool" where
  "fs_match s [] \<longleftrightarrow> True"
| "fs_match [] (d # t) \<longleftrightarrow> False"
| "fs_match (c # s) (d # t) \<longleftrightarrow> c = 0x0d \<or> c = 0x0a \<or> c = d \<and> fs_match s t"

lemma cstr_str_mem: "0 \<notin> set s \<Longrightarrow> cstr (str_mem s) 0 s"
  by (auto simp: cstr_iff str_mem_def bytes_at_def intro: nth_equalityI)

lemma fs_strcmp_cstr_at:
  "cstr m1 (unat i) s \<Longrightarrow> cstr m2 (unat i) t \<Longrightarrow> unat i + length t < 256 \<Longrightarrow>
     fs_strcmp m1 m2 i = Some (if fs_match s t then 0 else 1)"
proof (induction s t arbitrary: i rule: fs_match.induct)
  case (3 c s d t)
  have "unat (i + 1) = Suc (unat i)" using "3.prems"(3) by (subst unat_plus_no_wrap) simp_all
  then have "fs_strcmp m1 m2 (i + 1) = Some (if fs_match s t then 0 else 1)"
    using "3.IH" "3.prems" by simp
  then show ?case using "3.prems" by (subst fs_strcmp.simps) auto
qed (subst fs_strcmp.simps; force)+

definition names_short :: "fsdata_file list \<Rightarrow> bool" where
  "names_short fs \<longleftrightarrow> (\<forall>f \<in> set fs. 0 \<notin> set (f_name f) \<and> length (f_name f) < 256)"

lemma fs_open_cstr:
  "cstr m 0 s \<Longrightarrow> names_short fs \<Longrightarrow> fs_open m fs = Some (find (\<lambda>f. fs_match s (f_name f)) fs)"
proof (induction fs)
  case (Cons f fs)
  have "fs_strcmp m (str_mem (f_name f)) 0 = Some (if fs_match s (f_name f) then 0 else 1)"
    using Cons.prems cstr_str_mem by (intro fs_strcmp_cstr_at) (simp_all add: names_short_def)
  moreover have "fs_open m fs = Some (find (\<lambda>f. fs_match s (f_name f)) fs)"
    using Cons by (simp add: names_short_def)
  ultimately show ?case by simp
qed simp

lemma fs_match_prefix: "0x0d \<notin> set s \<Longrightarrow> 0x0a \<notin> set s \<Longrightarrow> fs_match s t \<longleftrightarrow> prefix t s"
  by (induction s t rule: fs_match.induct) auto

text \<open>Termination of the comparison for any name, also one without an end.\<close>

lemma fs_strcmp_total_at:
  "cstr m2 (unat i) t \<Longrightarrow> unat i + length t < 256 \<Longrightarrow> \<exists>r. fs_strcmp m1 m2 i = Some r"
proof (induction t arbitrary: i)
  case (Cons d t)
  have "unat (i + 1) = Suc (unat i)" using Cons.prems(2) by (subst unat_plus_no_wrap) simp_all
  then have "\<exists>r. fs_strcmp m1 m2 (i + 1) = Some r" using Cons by simp
  then show ?case by (subst fs_strcmp.simps) auto
qed (subst fs_strcmp.simps, simp)

lemma fs_open_total: "names_short fs \<Longrightarrow> \<exists>r. fs_open m fs = Some r"
proof (induction fs)
  case (Cons f fs)
  obtain r where "fs_strcmp m (str_mem (f_name f)) 0 = Some r"
    using fs_strcmp_total_at [of "str_mem (f_name f)" 0 "f_name f" m] Cons.prems cstr_str_mem by (auto simp: names_short_def)
  with Cons show ?case by (auto simp: names_short_def)
qed simp

subsection \<open>A request for a page\<close>

lemmas uip_bits = UIP_ACKDATA_def UIP_NEWDATA_def UIP_REXMIT_def UIP_POLL_def UIP_CLOSE_def UIP_ABORT_def
  UIP_CONNECTED_def UIP_TIMEDOUT_def flagged_def

text \<open>An event that brings the bytes \<open>xs\<close> to the server, and one that acknowledges \<open>n\<close> bytes.\<close>

definition brings :: "uip \<Rightarrow> bytes \<Rightarrow> bool" where
  "brings u xs \<longleftrightarrow> uip_lport u = 0x5000 \<and> uip_flags u = UIP_NEWDATA \<and> unat (uip_len u) = length xs \<and>
     bytes_at (uip_appdata u) 0 (length xs) = xs"

definition acks :: "uip \<Rightarrow> nat \<Rightarrow> bool" where
  "acks u n \<longleftrightarrow> uip_lport u = 0x5000 \<and> uip_flags u = UIP_ACKDATA \<and> unat (uip_conn_len u) = n"

lemma appcall_brings:
  assumes "brings u xs"
  shows "httpd_appcall si u st = (if hs_state st = STATE_NONE then http_request si u st else http_upload_data si u st)"
  using assms by (simp add: httpd_appcall_def brings_def uip_bits)

lemma appcall_acks:
  assumes "acks u n"
  shows "httpd_appcall si u st = http_acked u st"
  using assms by (simp add: httpd_appcall_def acks_def uip_bits)

lemma brings_nth: "brings u xs \<Longrightarrow> i < length xs \<Longrightarrow> uip_appdata u i = xs ! i"
  unfolding brings_def by (metis add_0 nth_bytes_at)

definition name_char :: "u8 \<Rightarrow> bool" where
  "name_char c \<longleftrightarrow> c \<notin> {0, 0x20, 0x0d, 0x0a, 0x09}"

definition get_request :: "bytes \<Rightarrow> bytes \<Rightarrow> bytes" where
  "get_request name rest = bs ''GET '' @ name @ 0x20 # rest"

lemma find_upt_from:
  assumes "a \<le> i" "i < n" "P i" "\<And>j. a \<le> j \<Longrightarrow> j < i \<Longrightarrow> \<not> P j"
  shows "find P [a..<n] = Some i"
  unfolding find_Some_iff using assms by (intro exI [of _ "i - a"]) auto

lemma get_end:
  assumes "brings u (get_request name rest)" "list_all name_char name" "length name < 26"
  shows "find (\<lambda>i. uip_appdata u i \<in> {0x20, 0x0d, 0x0a, 0x09}) [4..<30] = Some (4 + length name)"
    and "cstr (\<lambda>k. ((uip_appdata u)(4 + length name := 0)) (4 + k)) 0 name"
proof -
  have at: "uip_appdata u (4 + k) = (name @ [0x20]) ! k" if "k \<le> length name" for k
    using brings_nth [OF assms(1), of "4 + k"] that by (simp add: get_request_def nth_append)
  have name: "uip_appdata u j \<notin> {0x20, 0x0d, 0x0a, 0x09} \<and> uip_appdata u j \<noteq> 0" if "4 \<le> j" "j < 4 + length name" for j
    using that at [of "j - 4"] assms(2) by (auto simp: nth_append list_all_length name_char_def)
  show "find (\<lambda>i. uip_appdata u i \<in> {0x20, 0x0d, 0x0a, 0x09}) [4..<30] = Some (4 + length name)"
    using at [of "length name"] name assms(3) by (intro find_upt_from) auto
  show "cstr (\<lambda>k. ((uip_appdata u)(4 + length name := 0)) (4 + k)) 0 name"
    using at assms(2) by (auto simp: cstr_iff bytes_at_def nth_append list_all_iff name_char_def intro!: nth_equalityI)
qed

text \<open>The page for a name: the index, the first file whose name begins the requested one, or the error page.\<close>

definition open_file :: "site \<Rightarrow> bytes \<Rightarrow> fsdata_file option" where
  "open_file si name = find (\<lambda>f. prefix (f_name f) name) (FS_ROOT si)"

definition page_for :: "site \<Rightarrow> bytes \<Rightarrow> fsdata_file option" where
  "page_for si name =
     (if name = bs ''/'' then open_file si (file_index_html si)
      else case open_file si name of Some f \<Rightarrow> Some f | None \<Rightarrow> open_file si (file_404_html si))"

definition clean_name :: "bytes \<Rightarrow> bool" where
  "clean_name s \<longleftrightarrow> 0 \<notin> set s \<and> 0x0d \<notin> set s \<and> 0x0a \<notin> set s"

definition site_ok :: "site \<Rightarrow> bool" where
  "site_ok si \<longleftrightarrow> names_short (FS_ROOT si) \<and> clean_name (file_index_html si) \<and> clean_name (file_404_html si) \<and>
     clean_name (file_flashing_html si) \<and> clean_name (file_fail_html si)"

lemma fs_open_file:
  assumes "cstr m 0 s" "clean_name s" "names_short (FS_ROOT si)"
  shows "fs_open m (FS_ROOT si) = Some (open_file si s)"
  using fs_open_cstr [OF assms(1,3)] assms(2) by (simp add: open_file_def clean_name_def fs_match_prefix)

lemma fs_open_lit: "clean_name s \<Longrightarrow> names_short (FS_ROOT si) \<Longrightarrow> fs_open (str_mem s) (FS_ROOT si) = Some (open_file si s)"
  by (rule fs_open_file [OF cstr_str_mem]) (simp_all add: clean_name_def)

lemma cstr_slash: "cstr m 0 name \<Longrightarrow> name = bs ''/'' \<longleftrightarrow> m 0 = 0x2f \<and> m 1 = 0"
  by (cases name; cases "tl name") (auto simp: of_char_def)

lemma get_serves:
  assumes "brings u (get_request name rest)" "list_all name_char name" "length name < 26" "site_ok si"
    "page_for si name = Some f"
  shows "http_request si u st = serve u f (st\<lparr>hs_state := STATE_FILE_REQUEST\<rparr>)"
proof -
  let ?m = "(uip_appdata u)(4 + length name := 0)"
  have short: "names_short (FS_ROOT si)" and pl: "clean_name (file_index_html si)" "clean_name (file_404_html si)"
    using assms(4) by (simp_all add: site_ok_def)
  note c = get_end(2) [OF assms(1-3)]
  have "clean_name name" using assms(2) by (auto simp: clean_name_def list_all_iff name_char_def)
  note o = fs_open_file [OF c this short] fs_open_lit [OF pl(1) short] fs_open_lit [OF pl(2) short]
  have "bs ''GET '' = [0x47, 0x45, 0x54, 0x20 :: u8]" by (simp add: of_char_def)
  then have req: "get_request name rest = 0x47 # 0x45 # 0x54 # 0x20 # name @ 0x20 # rest" by (simp add: get_request_def)
  have m: "uip_appdata u 0 = 0x47" "uip_appdata u 1 = 0x45" "uip_appdata u 2 = 0x54" "uip_appdata u 3 = 0x20"
    using brings_nth [OF assms(1), of 0] brings_nth [OF assms(1), of 1] brings_nth [OF assms(1), of 2]
      brings_nth [OF assms(1), of 3] by (simp_all add: req)
  have slash: "?m 4 = 0x2f \<and> ?m 5 = 0 \<longleftrightarrow> name = bs ''/''" using cstr_slash [OF c] by simp
  have "http_get si u st1 = serve u f st1" for st1
    using assms(5)
    unfolding http_get_def get_end(1) [OF assms(1-3)] option.case Let_def slash page_for_def o
    by (cases "open_file si name") (simp_all del: bs_simps split: if_splits)
  then show ?thesis unfolding http_request_def Let_def m by simp
qed

subsection \<open>Sending a page\<close>

primrec sent_bytes :: "mem \<Rightarrow> uip_act option list \<Rightarrow> bytes" where
  "sent_bytes m [] = []"
| "sent_bytes m (a # as) = (case a of Some (uip_send p n) \<Rightarrow> bytes_at m p n | _ \<Rightarrow> []) @ sent_bytes m as"

text \<open>The acknowledgements of a page of \<open>n\<close> bytes, a segment at a time, with a constant segment size.\<close>

fun page_acks :: "nat \<Rightarrow> nat \<Rightarrow> uip list \<Rightarrow> bool" where
  "page_acks mss n [] \<longleftrightarrow> False"
| "page_acks mss n (u # us) \<longleftrightarrow>
     acks u (min n mss) \<and> unat (uip_mss u) = mss \<and> (if n \<le> mss then us = [] else page_acks mss (n - mss) us)"

text \<open>What the last acknowledgement of a page settles.\<close>

definition settle :: "http \<Rightarrow> http" where
  "settle st =
     (if post_done st
      then st\<lparr>ready_for_upgrade := (\<not> upload_failed st \<or> ready_for_upgrade st), post_done := False, upload_failed := False\<rparr>
      else st)"

lemma unat_ucast_u16 [simp]: "unat (ucast (w :: u16) :: u32) = unat w"
  by transfer (simp add: take_bit_nat_eq_self take_bit_int_eq_self)

lemma http_chunk_eq: "http_chunk u st = uip_send (unat (hs_dataptr st)) (min (unat (hs_upload st)) (unat (uip_mss u)))"
  by (auto simp: http_chunk_def word_less_nat_alt)

lemma page_acked_last:
  assumes "hs_state st = STATE_FILE_REQUEST" "unat (hs_upload st) \<le> unat (uip_mss u)"
  shows "http_acked u st = Some (httpd_state_reset (settle st), Some uip_close)"
  using assms by (simp add: http_acked_def settle_def word_le_nat_alt)

lemma acked_more:
  assumes "hs_state st = STATE_FILE_REQUEST" "unat (hs_upload st) > unat (uip_mss u)"
  shows "http_acked u st =
    (let st = st\<lparr>hs_dataptr := hs_dataptr st + ucast (uip_conn_len u), hs_upload := hs_upload st - ucast (uip_conn_len u)\<rparr>
     in Some (st, Some (http_chunk u st)))"
  using assms by (simp add: http_acked_def word_le_nat_alt)

lemma settle_reset_file [simp]:
  "httpd_state_reset (settle (st\<lparr>hs_dataptr := a, hs_upload := n\<rparr>)) = httpd_state_reset (settle st)"
  "httpd_state_reset (settle (st\<lparr>hs_state := x\<rparr>)) = httpd_state_reset (settle st)"
  by (simp_all add: httpd_state_reset_def settle_def)

lemma page_run:
  assumes "page_acks mss n us" "hs_state st = STATE_FILE_REQUEST" "unat (hs_upload st) = n" "0 < mss"
    "unat (hs_dataptr st) + n < 2 ^ 32"
  shows "\<exists>as. http_run si us st = Some (httpd_state_reset (settle st), as) \<and> last as = Some uip_close \<and>
    bytes_at m (unat (hs_dataptr st)) (min n mss) @ sent_bytes m as = bytes_at m (unat (hs_dataptr st)) n"
  using assms
proof (induction mss n us arbitrary: st rule: page_acks.induct)
  case (2 mss n u us)
  have u: "acks u (min n mss)" "unat (uip_mss u) = mss" using "2.prems"(1) by simp_all
  show ?case
  proof (cases "n \<le> mss")
    case True
    with "2.prems" u show ?thesis by (simp add: appcall_acks [OF u(1)] page_acked_last)
  next
    case False
    let ?st = "st\<lparr>hs_dataptr := hs_dataptr st + ucast (uip_conn_len u), hs_upload := hs_upload st - ucast (uip_conn_len u)\<rparr>"
    have len: "unat (uip_conn_len u) = mss" using u False by (simp add: acks_def)
    have step: "http_acked u st = Some (?st, Some (http_chunk u ?st))"
      using "2.prems" u False by (subst acked_more) (simp_all add: Let_def)
    have d: "unat (hs_dataptr st + ucast (uip_conn_len u)) = unat (hs_dataptr st) + mss"
      "unat (hs_upload st - ucast (uip_conn_len u)) = n - mss"
      using "2.prems"(3,5) False len by (simp_all add: unat_plus_no_wrap unat_minus_no_wrap word_le_nat_alt)
    obtain as where as: "http_run si us ?st = Some (httpd_state_reset (settle ?st), as)" "last as = Some uip_close"
      "bytes_at m (unat (hs_dataptr ?st)) (min (n - mss) mss) @ sent_bytes m as = bytes_at m (unat (hs_dataptr ?st)) (n - mss)"
      using "2.IH" [of ?st] "2.prems" False d by auto
    have "as \<noteq> []" using as(1) "2.prems"(1) False by (cases us) (auto split: bind_splits)
    moreover have "bytes_at m (unat (hs_dataptr st)) n =
        bytes_at m (unat (hs_dataptr st)) mss @ bytes_at m (unat (hs_dataptr st) + mss) (n - mss)"
      using False bytes_at_append [of m "unat (hs_dataptr st)" mss "n - mss"] by simp
    ultimately show ?thesis
      using as False u(2) by (simp add: appcall_acks [OF u(1)] step http_chunk_eq d)
  qed
qed simp

lemma page_sent:
  assumes "hs_state st = STATE_NONE" "site_ok si" "page_for si name = Some f"
    and "brings u (get_request name rest)" "list_all name_char name" "length name < 26"
    and "unat (uip_mss u) = mss" "0 < mss" "page_acks mss (unat (f_len f)) us"
    and "unat (f_data f) + unat (f_len f) < 2 ^ 32"
  shows "\<exists>as. http_run si (u # us) st = Some (httpd_state_reset (settle st), as) \<and>
    sent_bytes (sdram st) as = bytes_at (sdram st) (unat (f_data f)) (unat (f_len f)) \<and> last as = Some uip_close"
proof -
  let ?st = "st\<lparr>hs_state := STATE_FILE_REQUEST, hs_dataptr := f_data f, hs_upload := f_len f\<rparr>"
  have "httpd_appcall si u st = Some (?st, Some (http_chunk u ?st))"
    using assms(1) get_serves [OF assms(4,5,6,2,3), of st]
    by (simp add: appcall_brings [OF assms(4)] serve_def Let_def)
  moreover obtain as where as: "http_run si us ?st = Some (httpd_state_reset (settle ?st), as)" "last as = Some uip_close"
    "bytes_at (sdram st) (unat (f_data f)) (min (unat (f_len f)) mss) @ sent_bytes (sdram st) as
       = bytes_at (sdram st) (unat (f_data f)) (unat (f_len f))"
    using page_run [OF assms(9), of ?st si "sdram st"] assms(8,10) by auto
  moreover have "as \<noteq> []" using as(1) assms(9) by (cases us) (auto split: bind_splits)
  ultimately show ?thesis using assms(7) by (simp add: http_chunk_eq)
qed

subsection \<open>Theorems\<close>

text \<open>
  C15: A \<open>GET\<close> request for a name of less than 26 characters is answered with the page for the name, whole, as
  long as the connection's segment size stays the same: when the peer acknowledges segment after segment, the chunks
  the server sends are together exactly the bytes of the page, then the connection is closed and the state is the
  idle one. (When the segment size grows, the end of the page can stay unsent: \<open>page_cut_short\<close>.)
\<close>

theorem page_delivered:
  assumes "hs_state st = STATE_NONE" "site_ok si" "page_for si name = Some f"
    and "brings u (get_request name rest)" "list_all name_char name" "length name < 26"
    and "unat (uip_mss u) = mss" "0 < mss" "page_acks mss (unat (f_len f)) us"
    and "unat (f_data f) + unat (f_len f) < 2 ^ 32"
  shows "\<exists>as. http_run si (u # us) st = Some (httpd_state_reset (settle st), as) \<and>
    sent_bytes (sdram st) as = bytes_at (sdram st) (unat (f_data f)) (unat (f_len f)) \<and> last as = Some uip_close"
  using assms by (rule page_sent)

text \<open>
  The server takes a page for sent when its remaining bytes fit the \<^emph>\<open>current\<close> segment size. When the
  peer's window grows between a chunk and its acknowledgement, the connection is closed although bytes of
  the page after that chunk were never sent.
\<close>

theorem page_cut_short:
  assumes "hs_state st = STATE_FILE_REQUEST" "acks u n" "n < unat (hs_upload st)" "unat (hs_upload st) \<le> unat (uip_mss u)"
  shows "httpd_appcall si u st = Some (httpd_state_reset (settle st), Some uip_close)"
  using page_acked_last [OF assms(1,4)] by (simp add: appcall_acks [OF assms(2)])

subsection \<open>A site\<close>

definition demo_site :: site where
  "demo_site = \<lparr>FS_ROOT = [\<lparr>f_name = bs ''/index.html'', f_data = 1000, f_len = 5\<rparr>, \<lparr>f_name = bs ''/404.html'', f_data = 2000, f_len = 2\<rparr>,
       \<lparr>f_name = bs ''/flashing.html'', f_data = 3000, f_len = 3\<rparr>, \<lparr>f_name = bs ''/fail.html'', f_data = 4000, f_len = 3\<rparr>],
     file_index_html = bs ''/index.html'', file_404_html = bs ''/404.html'', file_flashing_html = bs ''/flashing.html'',
     file_fail_html = bs ''/fail.html'', malloc_ok = (\<lambda>_. True)\<rparr>"

definition demo_idle :: http where
  "demo_idle = \<lparr>hs_state = STATE_NONE, hs_count = 0, hs_dataptr = 0, hs_upload = 0, hs_upload_total = 0, post_done = False,
     upload_failed = False, data_start_found = False, small_file_flag = False, post_packet_counter = 0, boundary_value = None,
     ready_for_upgrade = False, upgrade_type = WEBFAILSAFE_UPGRADE_TYPE_FIRMWARE, xfer_size = 0, data_pointer = 0,
     led_flashing_flag = False, sdram = (\<lambda>a. word_of_nat a), sdram_end = 0x87300000\<rparr>"

definition data_event :: "bytes \<Rightarrow> uip" where
  "data_event xs = \<lparr>uip_lport = 0x5000, uip_flags = UIP_NEWDATA, uip_appdata = str_mem xs, uip_len = word_of_nat (length xs),
     uip_mss = 2, uip_conn_len = 0\<rparr>"

definition ack_event :: "u16 \<Rightarrow> u16 \<Rightarrow> uip" where
  "ack_event mss n = \<lparr>uip_lport = 0x5000, uip_flags = UIP_ACKDATA, uip_appdata = str_mem [], uip_len = 0, uip_mss = mss, uip_conn_len = n\<rparr>"

lemma bytes_at_lit: "bytes_at (str_mem xs) 0 (length xs) = xs"
  by (auto simp: bytes_at_def str_mem_def intro: nth_equalityI)

lemma brings_data_event: "length xs < 65536 \<Longrightarrow> brings (data_event xs) xs"
  by (simp add: brings_def data_event_def unat_of_nat bytes_at_lit)

lemma acks_ack_event: "acks (ack_event mss n) (unat n)"
  by (simp add: acks_def ack_event_def)

lemma demo_site_ok: "site_ok demo_site"
  by (simp add: site_ok_def demo_site_def names_short_def clean_name_def of_char_def)

theorem page_delivered_witness:
  "\<exists>as. http_run demo_site (data_event (get_request (bs ''/'') []) # [ack_event 2 2, ack_event 2 2, ack_event 2 1]) demo_idle
      = Some (httpd_state_reset (settle demo_idle), as) \<and>
    sent_bytes (sdram demo_idle) as = bytes_at (sdram demo_idle) 1000 5 \<and> last as = Some uip_close"
proof -
  have "page_for demo_site (bs ''/'') = Some \<lparr>f_name = bs ''/index.html'', f_data = 1000, f_len = 5\<rparr>"
    by (simp add: page_for_def open_file_def demo_site_def)
  moreover have "brings (data_event (get_request (bs ''/'') [])) (get_request (bs ''/'') [])"
    by (rule brings_data_event) (simp add: get_request_def)
  moreover have "hs_state demo_idle = STATE_NONE" "unat (uip_mss (data_event (get_request (bs ''/'') []))) = 2"
    "list_all name_char (bs ''/'')" "length (bs ''/'') < 26" "page_acks 2 5 [ack_event 2 2, ack_event 2 2, ack_event 2 1]"
    by (simp_all add: demo_idle_def data_event_def name_char_def of_char_def acks_def ack_event_def)
  ultimately show ?thesis
    using page_delivered [of demo_idle demo_site "bs ''/''" "\<lparr>f_name = bs ''/index.html'', f_data = 1000, f_len = 5\<rparr>"
        "data_event (get_request (bs ''/'') [])" "[]" 2 "[ack_event 2 2, ack_event 2 2, ack_event 2 1]"] demo_site_ok
    by (simp del: http_run.simps bs_simps)
qed

theorem page_cut_short_witness:
  "httpd_appcall demo_site (ack_event 1446 500) (demo_idle\<lparr>hs_state := STATE_FILE_REQUEST, hs_upload := 1000\<rparr>)
     = Some (httpd_state_reset (settle (demo_idle\<lparr>hs_state := STATE_FILE_REQUEST, hs_upload := 1000\<rparr>)), Some uip_close)"
proof -
  let ?st = "demo_idle\<lparr>hs_state := STATE_FILE_REQUEST, hs_upload := 1000\<rparr>"
  have "hs_state ?st = STATE_FILE_REQUEST" "unat (500 :: u16) < unat (hs_upload ?st)"
    "unat (hs_upload ?st) \<le> unat (uip_mss (ack_event 1446 500))"
    by (simp_all add: ack_event_def)
  from page_cut_short [OF this(1) acks_ack_event this(2,3)] show ?thesis .
qed

end
