(* ===== verification/Httpd_Safe.thy ===== *)
theory Httpd_Safe
  imports Httpd_Get
begin

text \<open>
  The invariant of the web server's state: every event keeps it, and the events that are undefined in it. And the
  guarantee behind an upgrade: it is started only after a complete upload that was found valid.
\<close>

subsection \<open>The invariant\<close>

definition http_ok :: "http \<Rightarrow> bool" where
  "http_ok st \<longleftrightarrow>
     (boundary_value st = None \<longleftrightarrow> hs_state st \<noteq> STATE_UPLOAD_REQUEST) \<and>
     (case boundary_value st of None \<Rightarrow> True | Some b \<Rightarrow> 0 \<notin> set b \<and> 2 \<le> length b) \<and>
     (data_start_found st \<longrightarrow> hs_state st = STATE_UPLOAD_REQUEST) \<and> hs_count st \<le> 100 \<and> post_packet_counter st \<le> 39"

lemma reset_ok [simp, intro]: "http_ok (httpd_state_reset st)"
  by (simp add: http_ok_def httpd_state_reset_def)

text \<open>The fields that the storing of a chunk leaves alone.\<close>

definition same_session :: "http \<Rightarrow> http \<Rightarrow> bool" where
  "same_session st st' \<longleftrightarrow> hs_state st' = hs_state st \<and> boundary_value st' = boundary_value st \<and>
     hs_count st' = hs_count st \<and> data_start_found st' = data_start_found st \<and> small_file_flag st' = small_file_flag st \<and>
     post_done st' = post_done st \<and> ready_for_upgrade st' = ready_for_upgrade st \<and> xfer_size st' = xfer_size st \<and>
     (upload_failed st \<longrightarrow> upload_failed st') \<and> (post_packet_counter st \<le> 39 \<longrightarrow> post_packet_counter st' \<le> 39)"

lemma progress_counter: "c \<noteq> 39 \<Longrightarrow> c \<le> 39 \<Longrightarrow> c + 1 \<le> (39 :: u8)"
  by (simp add: inc_le)

lemma same_session_store: "same_session st (httpd_download_progress (copied m p n st))"
  using progress_counter [of "post_packet_counter st"] by (simp add: same_session_def copied_def httpd_download_progress_def)

lemma firstchunk_session:
  assumes "httpd_findandstore_firstchunk u st = Some (found, st')"
  shows "same_session st st'"
  using assms progress_counter [of "post_packet_counter st"]
  by (auto simp: httpd_findandstore_firstchunk_def same_session_def store_firstchunk_def copy_in_def copied_def Let_def
      httpd_download_progress_def split: option.splits bind_splits if_splits)

lemma same_session_ok: "same_session st st' \<Longrightarrow> http_ok st \<Longrightarrow> http_ok st'"
  by (simp add: same_session_def http_ok_def)

lemma strstr_lit_Some:
  assumes "strstr_lit m p t = Some (Some e)"
  shows "p \<le> e" "0 \<notin> set (bytes_at m p (e - p))"
proof -
  obtain l i where l: "strlen m p = Some l" "index_of t (bytes_at m p l) = Some i" "e = p + i"
    using assms by (auto simp: strstr_lit_def)
  then show "p \<le> e" by simp
  have "0 \<notin> set (bytes_at m p l)" using l(1) cstr_NUL_free by (auto simp: strlen_Some)
  moreover have "bytes_at m p (e - p) = take i (bytes_at m p l)" using l(2,3) by (simp add: index_of_Some)
  ultimately show "0 \<notin> set (bytes_at m p (e - p))" using in_set_takeD by metis
qed

lemma post_boundary_ok:
  assumes "post_boundary ok m = Some (Inr b)"
  shows "0 \<notin> set b \<and> 2 \<le> length b"
proof -
  obtain s e where e: "strstr_lit m (s + 9) eol = Some (Some e)" "b = bs ''--'' @ bytes_at m (s + 9) (e - (s + 9))"
    using assms by (auto simp: post_boundary_def split: bind_splits option.splits if_splits)
  with strstr_lit_Some(2) [OF e(1)] show ?thesis by (auto simp: of_char_def)
qed

subsection \<open>Preservation\<close>

lemma serve_ok: "serve u f st = Some (st', a) \<Longrightarrow> http_ok st \<Longrightarrow> boundary_value st = None \<Longrightarrow> \<not> data_start_found st \<Longrightarrow> http_ok st'"
  by (auto simp: serve_def Let_def http_ok_def)

lemma http_get_cases:
  assumes "http_get si u st = Some (st', a)"
  obtains "st' = httpd_state_reset st" | f where "serve u f st = Some (st', a)"
proof (cases "find (\<lambda>i. uip_appdata u i \<in> {0x20, 0x0d, 0x0a, 0x09}) [4..<30]")
  case None
  with assms show ?thesis by (simp only: http_get_def option.case http_abort_def) (simp add: that)
next
  case (Some i)
  with assms show ?thesis
    by (simp only: http_get_def option.case Let_def) (auto split: bind_splits option.splits intro: that)
qed

lemma http_get_ok:
  assumes "http_get si u (st\<lparr>hs_state := STATE_FILE_REQUEST\<rparr>) = Some (st', a)" "http_ok st" "hs_state st = STATE_NONE"
  shows "http_ok st'"
proof -
  have st: "http_ok (st\<lparr>hs_state := STATE_FILE_REQUEST\<rparr>)" "boundary_value st = None" "\<not> data_start_found st"
    using assms(2,3) by (auto simp: http_ok_def)
  from assms(1) show ?thesis
    by (rule http_get_cases) (use st in \<open>auto dest: serve_ok\<close>)
qed

lemma http_post_ok:
  assumes "http_post si u (st\<lparr>hs_state := STATE_UPLOAD_REQUEST\<rparr>) = Some (st', a)" "http_ok st"
  shows "http_ok st'"
proof -
  have *: "http_ok (s\<lparr>data_start_found := x\<rparr>)"
    if "httpd_findandstore_firstchunk v (st\<lparr>hs_state := STATE_UPLOAD_REQUEST, hs_upload_total := n, small_file_flag := f,
        boundary_value := Some b, data_pointer := d, led_flashing_flag := l, sdram := r\<rparr>) = Some (x, s)"
      "0 \<notin> set b \<and> 2 \<le> length b" for n f b d l r s x v
    using firstchunk_session [OF that(1)] that(2) assms(2) by (simp add: same_session_def http_ok_def)
  show ?thesis using assms(1)
    by (auto simp: http_post_def http_abort_def Let_def split: bind_splits sum.splits if_splits dest!: post_boundary_ok intro: *)
qed

lemma http_acked_ok: "http_acked u st = Some (st', a) \<Longrightarrow> http_ok st \<Longrightarrow> http_ok st'"
  by (auto simp: http_acked_def Let_def http_ok_def httpd_state_reset_def split: if_splits)

lemma http_upload_done_ok: "http_upload_done si u st = Some (st', a) \<Longrightarrow> http_ok st'"
  by (auto simp: http_upload_done_def Let_def serve_def http_ok_def httpd_state_reset_def split: bind_splits option.splits)

lemma http_upload_data_ok:
  assumes "http_upload_data si u st = Some (st', a)" "http_ok st"
  shows "http_ok st'"
proof -
  let ?st = "st\<lparr>hs_upload := hs_upload st + ucast (uip_len u)\<rparr>"
  have ok: "http_ok (httpd_download_progress ?st)" "http_ok (httpd_download_progress (copied m 0 n ?st))" for m n
    using assms(2) same_session_ok [OF same_session_store, of ?st m 0 n] progress_counter [of "post_packet_counter st"]
    by (simp_all add: http_ok_def httpd_download_progress_def)
  have first: "http_ok (s\<lparr>data_start_found := True\<rparr>)"
    if "httpd_findandstore_firstchunk v st = Some (f, s)" "hs_state st = STATE_UPLOAD_REQUEST" for v f s
    using firstchunk_session [OF that(1)] that(2) assms(2) by (simp add: same_session_def http_ok_def)
  show ?thesis using assms ok
    by (auto simp: http_upload_data_def Let_def http_abort_def end_buffer_def copy_in_def split: if_splits bind_splits option.splits
        intro: http_upload_done_ok first)
qed

lemma http_request_ok:
  assumes "http_request si u st = Some (st', a)" "http_ok st" "hs_state st = STATE_NONE"
  shows "http_ok st'"
  using assms http_get_ok http_post_ok by (auto simp: http_request_def http_abort_def Let_def split: if_splits)

lemma appcall_ok:
  assumes "httpd_appcall si u st = Some (st', a)" "http_ok st"
  shows "http_ok st'"
proof -
  have poll: "http_ok (st\<lparr>hs_count := hs_count st + 1\<rparr>)" if "\<not> 100 \<le> hs_count st"
    using that assms(2) by (auto simp: http_ok_def inc_le)
  show ?thesis
    using assms poll http_request_ok [of si u st st' a] http_acked_ok [of u st st' a] http_upload_data_ok [of si u st st' a]
    by (auto simp: httpd_appcall_def http_abort_def Let_def split: if_splits)
qed

subsection \<open>Progress\<close>

definition site_pages :: "site \<Rightarrow> bool" where
  "site_pages si \<longleftrightarrow> open_file si (file_index_html si) \<noteq> None \<and> open_file si (file_404_html si) \<noteq> None \<and>
     open_file si (file_flashing_html si) \<noteq> None \<and> open_file si (file_fail_html si) \<noteq> None"

text \<open>The SDRAM holds the area that a request blanks at the load address.\<close>

definition ram_ok :: "http \<Rightarrow> bool" where
  "ram_ok st \<longleftrightarrow> unat CONFIG_LOADADDR + unat CONFIG_MAX_UBOOT_SIZE \<le> sdram_end st"

text \<open>The received text ends in the name of the header, so that its value is looked for behind the terminator.\<close>

definition length_cut :: "uip \<Rightarrow> bool" where
  "length_cut u \<longleftrightarrow> strstr_lit (uip_appdata (end_buffer u)) 0 (bs ''Content-Length:'') = Some (Some (unat (uip_len u) - 15))
     \<and> 15 \<le> unat (uip_len u)"

definition nul_at :: "mem \<Rightarrow> nat \<Rightarrow> bool" where
  "nul_at m e \<longleftrightarrow> m e = 0"

lemma nul_at_cstr: "nul_at m e \<Longrightarrow> p \<le> e \<Longrightarrow> cstr m p (c_text (bytes_at m p (e - p)))"
  using cstr_c_text [of m p "e - p"] by (simp add: nul_at_def)

lemma strstr_lit_total:
  assumes "nul_at m e" "p \<le> e"
  shows "\<exists>r. strstr_lit m p t = Some r"
  using strstr_lit_cstr [OF nul_at_cstr [OF assms]] by blast

lemma strstr_lit_end:
  assumes "strstr_lit m p t = Some (Some i)" "nul_at m e" "p \<le> e"
  shows "i + length t \<le> e"
proof -
  have "map_option (\<lambda>i. p + i) (index_of t (c_text (bytes_at m p (e - p)))) = Some i"
    using strstr_lit_cstr [OF nul_at_cstr [OF assms(2,3)], of t] assms(1) by simp
  then obtain k where "i = p + k" "index_of t (c_text (bytes_at m p (e - p))) = Some k"
    unfolding map_option_eq_Some by blast
  moreover have "length (c_text (bytes_at m p (e - p))) \<le> e - p"
    using length_takeWhile_le [of _ "bytes_at m p (e - p)"] by simp
  ultimately show ?thesis using assms(3) by (auto simp: index_of_Some)
qed

lemma unat_u16_lt: "unat (w :: u16) < 65536"
  using unsigned_less [of w] by simp

lemma end_buffer_nul: "nul_at (uip_appdata (end_buffer u)) (unat (uip_len u))"
  by (simp add: nul_at_def end_buffer_def)

lemma atoi_total: "cstr m p s \<Longrightarrow> \<exists>n. atoi m p i = Some n"
proof (induction s arbitrary: p i)
  case Nil
  then show ?case by (subst atoi.simps) (simp add: is_digit_def)
next
  case (Cons c s)
  then show ?case by (subst atoi.simps) auto
qed

lemma strstr_lit_atoi: "strstr_lit m p t = Some (Some e) \<Longrightarrow> \<exists>n. atoi m p 0 = Some n"
  using atoi_total by (auto simp: strstr_lit_def strlen_Some)

lemma find_upgrade_type_total: "nul_at m e \<Longrightarrow> p \<le> e \<Longrightarrow> \<exists>r. find_upgrade_type m p = Some r"
  using strstr_lit_total [of m e p "bs ''name=\"firmware\"''"] strstr_lit_total [of m e p "bs ''name=\"uboot\"''"]
    strstr_lit_total [of m e p "bs ''name=\"art\"''"]
  by (auto simp: find_upgrade_type_def simp del: bs_simps)

lemma firstchunk_total:
  assumes "nul_at (uip_appdata u) (unat (uip_len u))" "in_ram st (unat (data_pointer st)) (unat (uip_len u))"
  shows "\<exists>r. httpd_findandstore_firstchunk u st = Some r"
proof (cases "boundary_value st")
  case (Some b)
  let ?e = "unat (uip_len u)"
  obtain r where r: "strstr_lit (uip_appdata u) 0 b = Some r" using strstr_lit_total [OF assms(1), of 0] by auto
  show ?thesis
  proof (cases r)
    case (Some start)
    have "start \<le> ?e" using strstr_lit_end [OF r [unfolded Some] assms(1)] by simp
    then obtain ty x where x: "find_upgrade_type (uip_appdata u) start = Some ty" "strstr_lit (uip_appdata u) start eol2 = Some x"
      using find_upgrade_type_total [OF assms(1)] strstr_lit_total [OF assms(1)] by blast
    have "\<exists>s. store_firstchunk u start e b (st\<lparr>upgrade_type := t\<rparr>) = Some s" if "x = Some e" for e t
    proof -
      have e: "e + 4 \<le> ?e" using strstr_lit_end [OF x(2) [unfolded that] assms(1) \<open>start \<le> ?e\<close>] by (simp add: eol2_def)
      have "ucast (uip_len u) = (word_of_nat ?e :: u32)" by simp
      then have "ucast (uip_len u) - word_of_nat (e + 4) = (word_of_nat (?e - (e + 4)) :: u32)" using e by (simp only: of_nat_diff)
      moreover have "?e - (e + 4) < 2 ^ 32" using unat_u16_lt [of "uip_len u"] by simp
      ultimately have "unat (ucast (uip_len u) - word_of_nat (e + 4) :: u32) \<le> ?e" by (simp add: unat_of_nat)
      with assms(2) show ?thesis by (simp add: store_firstchunk_def Let_def copy_in_def in_ram_def)
    qed
    with r x Some \<open>boundary_value st = Some b\<close> show ?thesis
      by (auto simp: httpd_findandstore_firstchunk_def split: option.splits)
  qed (use r Some in \<open>auto simp: httpd_findandstore_firstchunk_def\<close>)
qed (auto simp: httpd_findandstore_firstchunk_def)

lemma post_length_total:
  assumes "nul_at m n" "strstr_lit m 0 (bs ''Content-Length:'') \<noteq> Some (Some (n - 15)) \<or> n < 15"
  shows "\<exists>r. post_length m = Some r"
proof -
  obtain s where s: "strstr_lit m 0 (bs ''Content-Length:'') = Some s" using strstr_lit_total [OF assms(1)] by blast
  show ?thesis
  proof (cases s)
    case (Some p)
    have "p + 15 \<le> n" using strstr_lit_end [OF s [unfolded Some] assms(1)] by simp
    moreover have "p \<noteq> n - 15 \<or> n < 15" using assms(2) s Some by simp
    ultimately have "p + 16 \<le> n" by linarith
    then obtain x where x: "strstr_lit m (p + 16) eol = Some x" using strstr_lit_total [OF assms(1)] by blast
    show ?thesis using s Some x strstr_lit_atoi [of m "p + 16" eol]
      by (cases x) (auto simp: post_length_def simp del: bs_simps)
  qed (use s in \<open>simp add: post_length_def del: bs_simps\<close>)
qed

lemma post_boundary_total:
  assumes "nul_at m n"
  shows "\<exists>r. post_boundary ok m = Some r"
proof -
  obtain s where s: "strstr_lit m 0 (bs ''boundary='') = Some s" using strstr_lit_total [OF assms] by blast
  show ?thesis
  proof (cases s)
    case (Some p)
    have "p + 9 \<le> n" using strstr_lit_end [OF s [unfolded Some] assms] by simp
    then obtain x where "strstr_lit m (p + 9) eol = Some x" using strstr_lit_total [OF assms] by blast
    with s Some show ?thesis by (cases x) (auto simp: post_boundary_def simp del: bs_simps)
  qed (use s in \<open>simp add: post_boundary_def del: bs_simps\<close>)
qed

lemma http_post_total:
  assumes "\<not> length_cut u" "ram_ok st"
  shows "\<exists>r. http_post si u st = Some r"
proof -
  note e = end_buffer_nul [of u]
  have "strstr_lit (uip_appdata (end_buffer u)) 0 (bs ''Content-Length:'') \<noteq> Some (Some (unat (uip_len u) - 15)) \<or> unat (uip_len u) < 15"
    using assms(1) by (auto simp: length_cut_def not_le simp del: bs_simps)
  then obtain r1 r2 where "post_length (uip_appdata (end_buffer u)) = Some r1"
    "post_boundary (malloc_ok si) (uip_appdata (end_buffer u)) = Some r2"
    using post_length_total [OF e] post_boundary_total [OF e] by blast
  moreover have "\<exists>f s. httpd_findandstore_firstchunk (end_buffer u) st' = Some (f, s)"
    if "data_pointer st' = CONFIG_LOADADDR" "sdram_end st' = sdram_end st" for st'
    using firstchunk_total [of "end_buffer u" st'] e assms(2) that unat_u16_lt [of "uip_len u"]
    by (auto simp: in_ram_def ram_ok_def CONFIG_LOADADDR_def CONFIG_MAX_UBOOT_SIZE_def end_buffer_def)
  then have "\<exists>a b. Option.bind (httpd_findandstore_firstchunk (end_buffer u) st')
      (\<lambda>(f, s). Some (s\<lparr>data_start_found := f\<rparr>, None :: uip_act option)) = Some (a, b)"
    if "data_pointer st' = CONFIG_LOADADDR" "sdram_end st' = sdram_end st" for st'
    using that by (metis (no_types, lifting) bind.bind_lunit case_prod_conv)
  moreover have "in_ram st' (unat CONFIG_LOADADDR) (unat CONFIG_MAX_UBOOT_SIZE)" if "sdram_end st' = sdram_end st" for st'
    using assms(2) that by (simp add: in_ram_def ram_ok_def CONFIG_LOADADDR_def)
  ultimately show ?thesis by (auto simp: http_post_def Let_def http_abort_def split: sum.splits)
qed

lemma http_get_total:
  assumes "site_ok si" "site_pages si"
  shows "\<exists>r. http_get si u st = Some r"
proof (cases "find (\<lambda>i. uip_appdata u i \<in> {0x20, 0x0d, 0x0a, 0x09}) [4..<30]")
  case None
  then show ?thesis by (simp only: http_get_def option.case http_abort_def) simp
next
  case (Some i)
  have n: "names_short (FS_ROOT si)" "clean_name (file_index_html si)" "clean_name (file_404_html si)"
    using assms(1) by (simp_all add: site_ok_def)
  obtain r where r: "fs_open (\<lambda>k. ((uip_appdata u)(i := 0)) (4 + k)) (FS_ROOT si) = Some r"
    using fs_open_total [OF n(1)] by blast
  show ?thesis
    using assms(2) unfolding http_get_def Some option.case Let_def r fs_open_lit [OF n(2,1)] fs_open_lit [OF n(3,1)]
    by (cases r) (auto simp: site_pages_def serve_def Let_def)
qed

lemma http_request_total:
  assumes "site_ok si" "site_pages si" "\<not> length_cut u" "ram_ok st"
  shows "\<exists>r. http_request si u st = Some r"
  using http_get_total [OF assms(1,2)] http_post_total [OF assms(3)] assms(4)
  by (simp add: http_request_def Let_def http_abort_def ram_ok_def)

lemma http_upload_done_failed:
  assumes "site_ok si" "site_pages si" "upload_failed st"
  shows "\<exists>r. http_upload_done si u st = Some r"
proof -
  have "names_short (FS_ROOT si)" "clean_name (file_fail_html si)" using assms(1) by (simp_all add: site_ok_def)
  then obtain f where "fs_open (str_mem (file_fail_html si)) (FS_ROOT si) = Some (Some f)"
    using assms(2) by (auto simp: fs_open_lit site_pages_def)
  with assms(3) show ?thesis by (simp add: http_upload_done_def Let_def serve_def)
qed

lemma http_upload_done_other:
  assumes "site_ok si" "site_pages si" "\<not> upload_failed st" "upgrade_type st \<noteq> WEBFAILSAFE_UPGRADE_TYPE_FIRMWARE"
  shows "\<exists>r. http_upload_done si u st = Some r"
proof -
  have "names_short (FS_ROOT si)" "clean_name (file_flashing_html si)" using assms(1) by (simp_all add: site_ok_def)
  then obtain f where "fs_open (str_mem (file_flashing_html si)) (FS_ROOT si) = Some (Some f)"
    using assms(2) by (auto simp: fs_open_lit site_pages_def)
  with assms(3,4) show ?thesis by (simp add: http_upload_done_def Let_def serve_def)
qed

lemma http_upload_done_total:
  assumes "site_ok si" "site_pages si" "fwtool_validate_manifest (sdram st) CONFIG_LOADADDR (hs_upload_total st) \<noteq> None"
  shows "\<exists>r. http_upload_done si u st = Some r"
proof -
  have "names_short (FS_ROOT si)" "clean_name (file_flashing_html si)" "clean_name (file_fail_html si)"
    using assms(1) by (simp_all add: site_ok_def)
  then obtain f g where "fs_open (str_mem (file_fail_html si)) (FS_ROOT si) = Some (Some f)"
    "fs_open (str_mem (file_flashing_html si)) (FS_ROOT si) = Some (Some g)"
    using assms(2) by (auto simp: fs_open_lit site_pages_def)
  moreover obtain r where "fwtool_validate_manifest (sdram st) CONFIG_LOADADDR (hs_upload_total st) = Some r"
    using assms(3) by blast
  ultimately show ?thesis
    by (cases "upload_failed st"; cases "r = FWTOOL_FIRMWARE_VALID") (simp_all add: http_upload_done_def Let_def serve_def)
qed

text \<open>The two ways in which received data of an upload can lead to undefined behaviour.\<close>

definition copy_leaves_ram :: "uip \<Rightarrow> http \<Rightarrow> bool" where
  "copy_leaves_ram u st \<longleftrightarrow> \<not> in_ram st (unat (data_pointer st)) (unat (uip_len u))"

definition manifest_unreadable :: "uip \<Rightarrow> http \<Rightarrow> bool" where
  "manifest_unreadable u st \<longleftrightarrow>
     \<not> upload_failed st \<and> upgrade_type st = WEBFAILSAFE_UPGRADE_TYPE_FIRMWARE \<and>
     (\<exists>b. boundary_value st = Some b \<and> hs_upload st + ucast (uip_len u) \<ge> hs_upload_total st + word_of_nat (length b) + 6) \<and>
     fwtool_validate_manifest (store (sdram st) (unat (data_pointer st)) (bytes_at (uip_appdata u) 0 (unat (uip_len u))))
       CONFIG_LOADADDR (hs_upload_total st) = None"

lemma http_upload_data_total:
  assumes "http_ok st" "site_ok si" "site_pages si" "\<not> copy_leaves_ram u st" "\<not> manifest_unreadable u st"
  shows "\<exists>r. http_upload_data si u st = Some r"
proof (cases "hs_state st = STATE_UPLOAD_REQUEST")
  case True
  let ?u = "end_buffer u" and ?st = "st\<lparr>hs_upload := hs_upload st + ucast (uip_len u)\<rparr>"
  let ?c = "copied (uip_appdata ?u) 0 (unat (uip_len u)) ?st"
  obtain b where b: "boundary_value st = Some b" using assms(1) True by (auto simp: http_ok_def)
  have ram: "in_ram st (unat (data_pointer st)) (unat (uip_len u))" using assms(4) by (simp add: copy_leaves_ram_def)
  then have copy: "copy_in (uip_appdata ?u) 0 (unat (uip_len u)) ?st = Some ?c" by (simp add: copy_in_def in_ram_def)
  obtain f s where first: "httpd_findandstore_firstchunk ?u st = Some (f, s)"
    using firstchunk_total [of ?u st] end_buffer_nul ram by (auto simp: end_buffer_def)
  have mem: "sdram ?c = store (sdram st) (unat (data_pointer st)) (bytes_at (uip_appdata u) 0 (unat (uip_len u)))"
    by (simp add: copied_def end_buffer_def)
  have "\<exists>r. http_upload_done si ?u (httpd_download_progress ?c) = Some r"
    if "hs_upload_total st + word_of_nat (length b) + 6 \<le> hs_upload st + ucast (uip_len u)" "\<not> upload_failed st"
  proof (cases "upgrade_type st = WEBFAILSAFE_UPGRADE_TYPE_FIRMWARE")
    case True
    then show ?thesis
      using assms(5) b that mem
      by (intro http_upload_done_total [OF assms(2,3)]) (simp add: manifest_unreadable_def httpd_download_progress_def copied_def)
  next
    case False
    then show ?thesis
      using that by (intro http_upload_done_other [OF assms(2,3)]) (simp_all add: httpd_download_progress_def copied_def)
  qed
  moreover have "\<exists>r. http_upload_done si ?u (httpd_download_progress ?st) = Some r" if "upload_failed st"
    using that assms(2,3) by (intro http_upload_done_failed) (simp_all add: httpd_download_progress_def)
  ultimately show ?thesis
    using True b first copy
    by (auto simp: http_upload_data_def Let_def http_abort_def httpd_download_progress_def copied_def end_buffer_def)
qed (simp add: http_upload_data_def)

subsection \<open>Soundness of the state\<close>



subsection \<open>Upgrades\<close>

text \<open>A finished upload that passed the checks.\<close>

definition upload_checked :: "http \<Rightarrow> bool" where
  "upload_checked st \<longleftrightarrow> post_done st \<and> \<not> upload_failed st \<and>
     (upgrade_type st = WEBFAILSAFE_UPGRADE_TYPE_FIRMWARE \<longrightarrow>
        fwtool_validate_manifest (sdram st) CONFIG_LOADADDR (xfer_size st) = Some FWTOOL_FIRMWARE_VALID)"

definition pending :: "http \<Rightarrow> bool" where
  "pending st \<longleftrightarrow> post_done st \<and> \<not> upload_failed st"

text \<open>What one step may do to the flags of an upgrade.\<close>

definition fair_step :: "http \<Rightarrow> http \<Rightarrow> bool" where
  "fair_step st st' \<longleftrightarrow> (ready_for_upgrade st' \<longrightarrow> ready_for_upgrade st \<or> pending st) \<and>
     (pending st' \<longrightarrow> pending st \<or> upload_checked st')"

lemma fair_reset [simp]: "fair_step st (httpd_state_reset st)"
  by (simp add: fair_step_def pending_def httpd_state_reset_def)

lemma fair_fields:
  "ready_for_upgrade st' = ready_for_upgrade st \<Longrightarrow> post_done st' = post_done st \<Longrightarrow> (upload_failed st \<longrightarrow> upload_failed st')
     \<Longrightarrow> fair_step st st'"
  by (auto simp: fair_step_def pending_def)

lemma fair_session: "same_session st st' \<Longrightarrow> fair_step st (st'\<lparr>data_start_found := x\<rparr>)"
  by (rule fair_fields) (simp_all add: same_session_def)

lemma fair_serve: "serve u f st = Some (st', a) \<Longrightarrow> fair_step st st'"
  by (rule fair_fields) (auto simp: serve_def Let_def)

lemma fair_post:
  assumes "http_post si u st = Some (st', a)"
  shows "fair_step st st'"
proof -
  have reset: "fair_step st (httpd_state_reset (st\<lparr>hs_upload_total := n, small_file_flag := f\<rparr>))" for n f
    by (simp add: fair_step_def pending_def httpd_state_reset_def)
  have first: "fair_step st (s\<lparr>data_start_found := x\<rparr>)"
    if "httpd_findandstore_firstchunk v (st\<lparr>hs_upload_total := n, small_file_flag := f,
        boundary_value := Some b, data_pointer := d, led_flashing_flag := l, sdram := r\<rparr>) = Some (x, s)" for n f b d l r s x v
    using firstchunk_session [OF that] by (intro fair_fields) (simp_all add: same_session_def)
  show ?thesis using assms
    by (auto simp: http_post_def http_abort_def Let_def split: bind_splits sum.splits if_splits intro: reset first)
qed

lemma fair_request:
  assumes "http_request si u st = Some (st', a)"
  shows "fair_step st st'"
proof -
  have mode: "fair_step st s" if "fair_step (st\<lparr>hs_state := x\<rparr>) s" for x s
    using that by (simp add: fair_step_def pending_def)
  have "fair_step st st'" if "http_get si u (st\<lparr>hs_state := STATE_FILE_REQUEST\<rparr>) = Some (st', a)"
    using that by (rule http_get_cases) (metis fair_reset mode, metis fair_serve mode)
  moreover have "fair_step st st'" if "http_post si u (st\<lparr>hs_state := STATE_UPLOAD_REQUEST\<rparr>) = Some (st', a)"
    using fair_post [OF that] by (rule mode)
  ultimately show ?thesis using assms by (auto simp: http_request_def http_abort_def Let_def split: if_splits)
qed

lemma fair_acked: "http_acked u st = Some (st', a) \<Longrightarrow> fair_step st st'"
  by (auto simp: http_acked_def Let_def fair_step_def pending_def httpd_state_reset_def split: if_splits)

lemma fair_done: "http_upload_done si u st = Some (st', a) \<Longrightarrow> fair_step st st'"
  by (auto simp: http_upload_done_def Let_def serve_def fair_step_def pending_def upload_checked_def httpd_state_reset_def
      split: bind_splits option.splits if_splits)

lemma fair_upload:
  assumes "http_upload_data si u st = Some (st', a)"
  shows "fair_step st st'"
proof -
  let ?st = "st\<lparr>hs_upload := hs_upload st + ucast (uip_len u)\<rparr>"
  have frame: "fair_step t s \<Longrightarrow> fair_step st s" "fair_step st t"
    if "t = httpd_download_progress (copied m p n ?st) \<or> t = httpd_download_progress ?st" for t s m p n
    using that by (auto simp: fair_step_def pending_def httpd_download_progress_def copied_def)
  have first: "fair_step st (s\<lparr>data_start_found := x\<rparr>) \<and> fair_step st (httpd_state_reset s)"
    if "httpd_findandstore_firstchunk v st = Some (f, s)" for v f s x
    using firstchunk_session [OF that] by (auto simp: same_session_def fair_step_def pending_def httpd_state_reset_def)
  have self: "fair_step s s" for s by (simp add: fair_step_def)
  show ?thesis using assms first
    by (auto simp: http_upload_data_def Let_def http_abort_def end_buffer_def copy_in_def self split: if_splits bind_splits option.splits
        dest!: fair_done intro: frame [OF disjI1 [OF refl]] frame [OF disjI2 [OF refl]])
qed

lemma appcall_fair:
  assumes "httpd_appcall si u st = Some (st', a)"
  shows "fair_step st st'"
  using assms fair_request [of si u st st' a] fair_acked [of u st st' a] fair_upload [of si u st st' a]
  by (auto simp: httpd_appcall_def http_abort_def Let_def fair_step_def pending_def httpd_state_reset_def split: if_splits)

lemma run_ok: "http_run si us st = Some (st', as) \<Longrightarrow> http_ok st \<Longrightarrow> http_ok st'"
  by (rule web.run_invariant [where P = http_ok]) (auto intro: appcall_ok)

lemma pending_checked:
  assumes "http_run si us st = Some (st', as)" "pending st' \<or> ready_for_upgrade st'" "\<not> (pending st \<or> ready_for_upgrade st)"
  shows "\<exists>us1 us2 s as1. us = us1 @ us2 \<and> http_run si us1 st = Some (s, as1) \<and> upload_checked s"
  by (rule web.run_first [OF _ assms]) (auto dest!: appcall_fair simp: fair_step_def)

end
