(* ===== verification/Httpd_Upload.thy ===== *)
theory Httpd_Upload
  imports Httpd_Safe
begin

text \<open>
  The upload of a file through the web server's form: from the segments of a \<open>POST\<close> request, cut anywhere
  behind the headers, to the file in memory, its size and the verdict.
\<close>

subsection \<open>The headers of a request\<close>

definition digits_value :: "bytes \<Rightarrow> nat" where
  "digits_value s = foldl (\<lambda>a c. a * 10 + (unat c - 48)) 0 s"

definition content_length :: "bytes \<Rightarrow> nat option" where
  "content_length s =
     (case index_of (bs ''Content-Length:'') s of None \<Rightarrow> None
      | Some i \<Rightarrow> if index_of eol (drop (i + 16) s) = None then None
                  else Some (digits_value (takeWhile is_digit (drop (i + 16) s))))"

definition boundary_of :: "bytes \<Rightarrow> bytes option" where
  "boundary_of s =
     (case index_of (bs ''boundary='') s of None \<Rightarrow> None
      | Some i \<Rightarrow> map_option (\<lambda>k. bs ''--'' @ take k (drop (i + 9) s)) (index_of eol (drop (i + 9) s)))"

definition form_type :: "bytes \<Rightarrow> upgrade option" where
  "form_type s =
     (if index_of (bs ''name=\"firmware\"'') s \<noteq> None then Some WEBFAILSAFE_UPGRADE_TYPE_FIRMWARE
      else if index_of (bs ''name=\"uboot\"'') s \<noteq> None then Some WEBFAILSAFE_UPGRADE_TYPE_UBOOT
      else if index_of (bs ''name=\"art\"'') s \<noteq> None then Some WEBFAILSAFE_UPGRADE_TYPE_ART else None)"

lemma digit_step:
  assumes "is_digit c"
  shows "word_of_nat a * 10 + ucast c - 0x30 = (word_of_nat (a * 10 + (unat c - 48)) :: u32)"
proof -
  have "48 \<le> unat c" using assms by (simp add: is_digit_def word_le_nat_alt)
  moreover have "ucast c = (word_of_nat (unat c) :: u32)" by simp
  ultimately show ?thesis by (simp only: of_nat_add of_nat_mult of_nat_diff) simp
qed

lemma atoi_cstr:
  "cstr m p s \<Longrightarrow> atoi m p (word_of_nat a) =
     Some (word_of_nat (foldl (\<lambda>a c. a * 10 + (unat c - 48)) a (takeWhile is_digit s)))"
proof (induction s arbitrary: p a)
  case Nil
  then show ?case by (subst atoi.simps) (simp add: is_digit_def)
next
  case (Cons c s)
  then show ?case by (subst atoi.simps) (auto simp: digit_step simp del: of_nat_add of_nat_mult)
qed

lemma index_of_le: "index_of t s = Some i \<Longrightarrow> i + length t \<le> length s"
  by (simp add: index_of_Some)

lemma post_length_cstr:
  assumes "cstr m 0 s" "content_length s = Some n"
  shows "post_length m = Some (Inr (word_of_nat n))"
proof -
  obtain i k where i: "index_of (bs ''Content-Length:'') s = Some i" "index_of eol (drop (i + 16) s) = Some k"
    "n = digits_value (takeWhile is_digit (drop (i + 16) s))"
    using assms(2) by (auto simp: content_length_def split: option.splits if_splits)
  have "i + 16 \<le> length s" using index_of_le [OF i(2)] by (simp add: eol_def)
  then have "cstr m (i + 16) (drop (i + 16) s)" using cstr_drop [OF assms(1), of "i + 16"] by simp
  then have "strstr_lit m (i + 16) eol = Some (Some (i + 16 + k))" "atoi m (i + 16) 0 = Some (word_of_nat n)"
    using i(2,3) atoi_cstr [of m "i + 16" "drop (i + 16) s" 0] by (simp_all add: strstr_lit_cstr digits_value_def)
  moreover have "strstr_lit m 0 (bs ''Content-Length:'') = Some (Some i)"
    using strstr_lit_cstr [OF assms(1)] i(1) by (simp del: bs_simps)
  ultimately show ?thesis by (simp add: post_length_def del: bs_simps)
qed

lemma post_boundary_cstr:
  assumes "cstr m 0 s" "boundary_of s = Some b" "\<And>n. ok n"
  shows "post_boundary ok m = Some (Inr b)"
proof -
  obtain i k where i: "index_of (bs ''boundary='') s = Some i" "index_of eol (drop (i + 9) s) = Some k"
    "b = bs ''--'' @ take k (drop (i + 9) s)"
    using assms(2) by (auto simp: boundary_of_def split: option.splits)
  have "i + 9 \<le> length s" using index_of_le [OF i(2)] by (simp add: eol_def)
  then have c: "cstr m (i + 9) (drop (i + 9) s)" using cstr_drop [OF assms(1), of "i + 9"] by simp
  have "bytes_at m (i + 9) k = take k (drop (i + 9) s)"
    using c index_of_le [OF i(2)] bytes_at_prefix [of m "i + 9" "drop (i + 9) s" k] by (simp add: cstr_iff at_def)
  moreover have "strstr_lit m (i + 9) eol = Some (Some (i + 9 + k))" using c i(2) by (simp add: strstr_lit_cstr)
  moreover have "strstr_lit m 0 (bs ''boundary='') = Some (Some i)"
    using strstr_lit_cstr [OF assms(1)] i(1) by (simp del: bs_simps)
  ultimately show ?thesis using i(3) assms(3) by (simp add: post_boundary_def del: bs_simps)
qed

lemma takeWhile_stop: "\<not> list_all P s \<Longrightarrow> takeWhile P (s @ r) = takeWhile P s"
  by (induction s) auto

lemma content_length_append:
  assumes "content_length s = Some n"
  shows "content_length (s @ r) = Some n"
proof -
  obtain i k where i: "index_of (bs ''Content-Length:'') s = Some i" "index_of eol (drop (i + 16) s) = Some k"
    "n = digits_value (takeWhile is_digit (drop (i + 16) s))"
    using assms by (auto simp: content_length_def split: option.splits if_splits)
  have "i + 16 \<le> length s" using index_of_le [OF i(2)] by (simp add: eol_def)
  then have d: "drop (i + 16) (s @ r) = drop (i + 16) s @ r" by simp
  have "0x0d \<in> set (drop (i + 16) s)"
    by (subst index_of_split [OF i(2)]) (simp add: eol_def)
  then have "\<not> list_all is_digit (drop (i + 16) s)" by (force simp: list_all_iff is_digit_def)
  then have "takeWhile is_digit (drop (i + 16) (s @ r)) = takeWhile is_digit (drop (i + 16) s)"
    unfolding d by (rule takeWhile_stop)
  then show ?thesis
    using index_of_append [OF i(1), of r] index_of_append [OF i(2), of r] i(3)
    unfolding content_length_def by (simp only: option.case d) simp
qed

lemma boundary_of_append:
  assumes "boundary_of s = Some b"
  shows "boundary_of (s @ r) = Some b"
proof -
  obtain i k where i: "index_of (bs ''boundary='') s = Some i" "index_of eol (drop (i + 9) s) = Some k"
    "b = bs ''--'' @ take k (drop (i + 9) s)"
    using assms by (auto simp: boundary_of_def split: option.splits)
  have "i + 9 + k \<le> length s" using index_of_le [OF i(2)] by (simp add: eol_def)
  then have "drop (i + 9) (s @ r) = drop (i + 9) s @ r" "take k (drop (i + 9) s @ r) = take k (drop (i + 9) s)" by simp_all
  then show ?thesis
    using index_of_append [OF i(1), of r] index_of_append [OF i(2), of r] i(3)
    unfolding boundary_of_def by (simp only: option.case option.map)
qed

lemma find_upgrade_type_cstr: "cstr m p s \<Longrightarrow> find_upgrade_type m p = Some (form_type s)"
  unfolding find_upgrade_type_def form_type_def by (simp add: strstr_lit_cstr del: bs_simps)

subsection \<open>The first segment of the body\<close>

text \<open>
  The head of the body: the boundary line and the headers of the form's field, up to the empty line. The
  boundary must not occur earlier in the request, and the first empty line is the head's last.
\<close>

definition form_head :: "bytes \<Rightarrow> bytes \<Rightarrow> bytes \<Rightarrow> bool" where
  "form_head pre part b \<longleftrightarrow> 0 \<notin> set pre \<and> 0 \<notin> set part \<and> index_of b (pre @ part) = Some (length pre) \<and>
     4 \<le> length part \<and> index_of eol2 part = Some (length part - 4)"

lemma c_text_append: "0 \<notin> set s \<Longrightarrow> c_text (s @ r) = s @ c_text r"
  by (induction s) auto

lemma packet_text:
  assumes "brings u pkt"
  shows "cstr (uip_appdata (end_buffer u)) 0 (c_text pkt)"
proof -
  have "bytes_at (uip_appdata (end_buffer u)) 0 (length pkt) = pkt" "uip_appdata (end_buffer u) (length pkt) = 0"
    using assms by (simp_all add: brings_def end_buffer_def)
  with cstr_c_text [of "uip_appdata (end_buffer u)" 0 "length pkt"] show ?thesis by simp
qed

lemma firstchunk_found:
  assumes "brings u (pre @ part @ rest)" "form_head pre part b" "boundary_value st = Some b"
    "form_type (c_text (part @ rest)) = Some t"
  shows "httpd_findandstore_firstchunk (end_buffer u) st =
    map_option (Pair True) (store_firstchunk (end_buffer u) (length pre) (length pre + length part - 4) b (st\<lparr>upgrade_type := t\<rparr>))"
proof -
  let ?m = "uip_appdata (end_buffer u)"
  note h = assms(2) [unfolded form_head_def]
  have whole: "cstr ?m 0 (pre @ part @ c_text rest)"
    using packet_text [OF assms(1)] h by (simp add: c_text_append)
  then have tail: "cstr ?m (length pre) (part @ c_text rest)"
    using cstr_drop [OF whole, of "length pre"] by simp
  have "strstr_lit ?m 0 b = Some (Some (length pre))"
    using strstr_lit_cstr [OF whole] index_of_append [of b "pre @ part"] h by simp
  moreover have "find_upgrade_type ?m (length pre) = Some (Some t)"
    using find_upgrade_type_cstr [OF tail] assms(4) h by (simp add: c_text_append)
  moreover have "strstr_lit ?m (length pre) eol2 = Some (Some (length pre + length part - 4))"
    using strstr_lit_cstr [OF tail] index_of_append [of eol2 part] h by simp
  moreover have "length pre + length part - 4 < unat (uip_len u)"
    using assms(1) h by (auto simp: brings_def)
  ultimately show ?thesis
    using assms(3) by (simp add: httpd_findandstore_firstchunk_def) (simp add: end_buffer_def)
qed

text \<open>
  An upload in progress: \<open>got\<close> is what has arrived of the file and the closing boundary, in memory from the
  load address on, in an SDRAM that has room for the file and the boundary.
\<close>

definition uploading :: "mem \<Rightarrow> bytes \<Rightarrow> nat \<Rightarrow> upgrade \<Rightarrow> bool \<Rightarrow> bytes \<Rightarrow> http \<Rightarrow> bool" where
  "uploading m0 b n t r got st \<longleftrightarrow>
     hs_state st = STATE_UPLOAD_REQUEST \<and> (data_start_found st \<or> small_file_flag st) \<and> boundary_value st = Some b \<and>
     \<not> upload_failed st \<and> hs_upload st = word_of_nat (length got) \<and> hs_upload_total st = word_of_nat n \<and>
     data_pointer st = CONFIG_LOADADDR + word_of_nat (length got) \<and>
     sdram st = store m0 (unat CONFIG_LOADADDR) got \<and> upgrade_type st = t \<and> ready_for_upgrade st = r \<and>
     unat CONFIG_LOADADDR + (n + length b + 6) \<le> sdram_end st"

definition form_body :: "bytes \<Rightarrow> bytes \<Rightarrow> bytes \<Rightarrow> bytes" where
  "form_body part b dat = part @ dat @ eol @ b @ bs ''--'' @ eol"

lemma form_body_length: "length (form_body part b dat) = length part + length dat + length b + 6"
  by (simp add: form_body_def eol_def)

lemma end_buffer_sel [simp]: "uip_len (end_buffer u) = uip_len u" "uip_mss (end_buffer u) = uip_mss u"
  by (simp_all add: end_buffer_def)

lemma firstchunk_uploading:
  assumes "brings u (pre @ part @ rest)" "form_head pre part b"
    and "hs_state st = STATE_UPLOAD_REQUEST" "boundary_value st = Some b" "\<not> upload_failed st"
    and "hs_upload_total st = word_of_nat (length (form_body part b dat))" "data_pointer st = CONFIG_LOADADDR" "sdram st = m0"
    and "upgrade_type st = t" "\<not> size_wrong t (word_of_nat (length dat))" "ready_for_upgrade st = r"
    and "length rest \<le> length dat + length b + 6" "unat CONFIG_LOADADDR + (length dat + length b + 6) \<le> sdram_end st"
  shows "\<exists>s. store_firstchunk (end_buffer u) (length pre) (length pre + length part - 4) b st = Some s \<and>
    uploading m0 b (length dat) t r rest (s\<lparr>data_start_found := True\<rparr>)"
proof -
  let ?e = "length pre + length part"
  have four: "?e - 4 + 4 = ?e" "?e - length pre = length part" using assms(2) by (auto simp: form_head_def)
  have lens: "unat (uip_len u) = ?e + length rest" using assms(1) by (simp add: brings_def)
  then have "length rest < 2 ^ 16" using unat_u16_lt [of "uip_len u"] by simp
  then have rest: "unat (word_of_nat (length rest) :: u32) = length rest" by (simp add: unat_of_nat)
  have n: "ucast (uip_len u) - word_of_nat ?e = (word_of_nat (length rest) :: u32)"
    using arg_cong [OF lens, of "word_of_nat :: nat \<Rightarrow> u32"] by simp
  have total: "hs_upload_total st - word_of_nat (length part) - word_of_nat (length b) - 6 = word_of_nat (length dat)"
    by (simp add: assms(6) form_body_length)
  have "bytes_at (uip_appdata (end_buffer u)) ?e (length rest) = bytes_at (uip_appdata u) ?e (length rest)"
    using lens by (simp add: end_buffer_def)
  also have "\<dots> = rest"
    using assms(1) bytes_at_sub [of "uip_appdata u" 0 "pre @ part" rest "[]"] by (simp add: brings_def)
  finally have dat: "bytes_at (uip_appdata (end_buffer u)) ?e (length rest) = rest" .
  have "in_ram x (unat CONFIG_LOADADDR) (length rest)" if "sdram_end x = sdram_end st" for x
    using that assms(12,13) by (simp add: in_ram_def CONFIG_LOADADDR_def)
  then show ?thesis
    using assms(3-5,7-) dat unfolding store_firstchunk_def Let_def four end_buffer_sel n rest
    by (simp add: uploading_def copy_in_def copied_def httpd_download_progress_def total)
qed

subsection \<open>The rest of the body\<close>

lemma http_chunk_end_buffer [simp]: "http_chunk (end_buffer u) st = http_chunk u st"
  by (simp add: http_chunk_def)

text \<open>The state once a further segment has been stored.\<close>

definition seg_stored :: "uip \<Rightarrow> http \<Rightarrow> http" where
  "seg_stored u st =
     httpd_download_progress (copied (uip_appdata (end_buffer u)) 0 (unat (uip_len u))
       (st\<lparr>hs_upload := hs_upload st + ucast (uip_len u)\<rparr>))"

lemma brings_word:
  assumes "brings u seg"
  shows "ucast (uip_len u) = (word_of_nat (length seg) :: u32)"
proof -
  have "unat (uip_len u) = length seg" using assms by (simp add: brings_def)
  from arg_cong [OF this, of "word_of_nat :: nat \<Rightarrow> u32"] show ?thesis by simp
qed

lemma load_pointer:
  assumes "unat CONFIG_LOADADDR + k < 2 ^ 32"
  shows "unat (CONFIG_LOADADDR + word_of_nat k) = unat CONFIG_LOADADDR + k"
  using assms by (subst unat_plus_no_wrap) (simp_all add: unat_of_nat)

lemma upload_data_stored:
  assumes "uploading m0 b n t r got st" "brings u seg" "length got + length seg \<le> n + length b + 6"
    "unat CONFIG_LOADADDR + length got < 2 ^ 32"
  shows "http_upload_data si u st =
    (if hs_upload st + ucast (uip_len u) \<ge> hs_upload_total st + word_of_nat (length b) + 6
     then http_upload_done si (end_buffer u) (seg_stored u st) else Some (seg_stored u st, None))"
proof -
  have c: "(\<not> small_file_flag st \<and> \<not> data_start_found st) = False" using assms by (auto simp: uploading_def)
  have "in_ram x (unat (data_pointer x)) (unat (uip_len u))"
    if "sdram_end x = sdram_end st" "data_pointer x = data_pointer st" for x
    using assms that load_pointer [OF assms(4)] by (simp add: in_ram_def uploading_def brings_def CONFIG_LOADADDR_def)
  then show ?thesis
    using assms(1) unfolding http_upload_data_def Let_def c if_False
    by (simp add: uploading_def seg_stored_def copy_in_def copied_def httpd_download_progress_def)
qed

lemma stored_uploading:
  assumes "uploading m0 b n t r got st" "brings u seg" "unat CONFIG_LOADADDR + length got < 2 ^ 32"
  shows "uploading m0 b n t r (got @ seg) (seg_stored u st)"
proof -
  have len: "unat (uip_len u) = length seg" and seg: "bytes_at (uip_appdata u) 0 (length seg) = seg"
    using assms(2) by (simp_all add: brings_def)
  note w = brings_word [OF assms(2)]
  have b: "bytes_at (uip_appdata (end_buffer u)) 0 (length seg) = seg" using seg len by (simp add: end_buffer_def)
  note p = load_pointer [OF assms(3)]
  have "store (store m0 (unat CONFIG_LOADADDR) got) (unat CONFIG_LOADADDR + length got) seg = store m0 (unat CONFIG_LOADADDR) (got @ seg)"
    by (simp add: store_append)
  then show ?thesis using assms(1) unfolding seg_stored_def len w
    by (simp add: uploading_def copied_def httpd_download_progress_def b p add.assoc)
qed

lemma upload_complete_iff:
  assumes "uploading m0 b n t r got st" "brings u seg" "length got + length seg < 2 ^ 32" "n + length b + 6 < 2 ^ 32"
  shows "hs_upload st + ucast (uip_len u) \<ge> hs_upload_total st + word_of_nat (length b) + 6
    \<longleftrightarrow> n + length b + 6 \<le> length got + length seg"
proof -
  note w = brings_word [OF assms(2)]
  have "hs_upload st + ucast (uip_len u) = word_of_nat (length got + length seg)"
    "hs_upload_total st + word_of_nat (length b) + 6 = word_of_nat (n + length b + 6)"
    using assms(1) by (simp_all add: uploading_def w)
  then show ?thesis using assms(3,4) by (simp add: word_le_nat_alt unat_of_nat del: of_nat_add)
qed

text \<open>The end of the upload: the verdict and the page that is sent.\<close>

definition verdict_page :: "site \<Rightarrow> bool \<Rightarrow> fsdata_file option" where
  "verdict_page si bad = open_file si (if bad then file_fail_html si else file_flashing_html si)"

definition uploaded :: "site \<Rightarrow> mem \<Rightarrow> nat \<Rightarrow> upgrade \<Rightarrow> bool \<Rightarrow> bool \<Rightarrow> http \<Rightarrow> bool" where
  "uploaded si m n t bad r st \<longleftrightarrow>
     hs_state st = STATE_FILE_REQUEST \<and> sdram st = m \<and> xfer_size st = word_of_nat n \<and> upgrade_type st = t \<and>
     post_done st \<and> upload_failed st = bad \<and> boundary_value st = None \<and> \<not> small_file_flag st \<and> ready_for_upgrade st = r \<and>
     (\<exists>page. verdict_page si bad = Some page \<and> hs_dataptr st = f_data page \<and> hs_upload st = f_len page)"

definition verdict :: "upgrade \<Rightarrow> mem \<Rightarrow> nat \<Rightarrow> bool option" where
  "verdict t m n =
     (if t = WEBFAILSAFE_UPGRADE_TYPE_FIRMWARE
      then map_option (\<lambda>r. r \<noteq> FWTOOL_FIRMWARE_VALID) (fwtool_validate_manifest m CONFIG_LOADADDR (word_of_nat n))
      else Some False)"

definition answered :: "fsdata_file \<Rightarrow> bool \<Rightarrow> http \<Rightarrow> http" where
  "answered f bad st =
     httpd_state_reset (st\<lparr>post_done := True, xfer_size := hs_upload_total st, upload_failed := bad, small_file_flag := False\<rparr>)
       \<lparr>hs_state := STATE_FILE_REQUEST, hs_dataptr := f_data f, hs_upload := f_len f, led_flashing_flag := False\<rparr>"

lemma upload_done_answered:
  assumes "\<not> upload_failed st" "verdict (upgrade_type st) (sdram st) n = Some bad" "hs_upload_total st = word_of_nat n"
    "fs_open (str_mem (if bad then file_fail_html si else file_flashing_html si)) (FS_ROOT si) = Some (Some f)"
  shows "http_upload_done si u st = Some (answered f bad st, Some (http_chunk u (answered f bad st)))"
proof -
  have "http_chunk u (x\<lparr>led_flashing_flag := y\<rparr>) = http_chunk u x" for x y by (simp add: http_chunk_def)
  then have c: "map_option (\<lambda>(st, a). (st\<lparr>led_flashing_flag := False\<rparr>, a))
      (serve u f (httpd_state_reset (st\<lparr>post_done := True, xfer_size := hs_upload_total st, upload_failed := bad, small_file_flag := False\<rparr>)))
    = Some (answered f bad st, Some (http_chunk u (answered f bad st)))"
    by (simp add: serve_def Let_def answered_def)
  show ?thesis
  proof (cases "upgrade_type st = WEBFAILSAFE_UPGRADE_TYPE_FIRMWARE")
    case True
    then have "map_option (\<lambda>r. r \<noteq> FWTOOL_FIRMWARE_VALID)
        (fwtool_validate_manifest (sdram st) CONFIG_LOADADDR (hs_upload_total st)) = Some bad"
      using assms(2,3) by (simp add: verdict_def)
    then show ?thesis unfolding http_upload_done_def Let_def
      by (simp add: assms(1,4) True c del: map_option_eq_Some)
  next
    case False
    then have "\<not> bad" using assms(2) by (simp add: verdict_def)
    with False show ?thesis using c assms(4) unfolding http_upload_done_def Let_def by (simp add: assms(1))
  qed
qed

lemma upload_done_verdict:
  assumes "uploading m0 b n t r got st" "site_ok si" "site_pages si"
    "verdict t (store m0 (unat CONFIG_LOADADDR) got) n = Some bad"
  shows "\<exists>st'. http_upload_done si u st = Some (st', Some (http_chunk u st')) \<and>
    uploaded si (store m0 (unat CONFIG_LOADADDR) got) n t bad r st'"
proof -
  have "names_short (FS_ROOT si)" "clean_name (file_flashing_html si)" "clean_name (file_fail_html si)"
    using assms(2) by (simp_all add: site_ok_def)
  moreover obtain f where f: "verdict_page si bad = Some f"
    using assms(3) by (cases bad) (auto simp: verdict_page_def site_pages_def)
  ultimately have "fs_open (str_mem (if bad then file_fail_html si else file_flashing_html si)) (FS_ROOT si) = Some (Some f)"
    by (cases bad) (simp_all add: fs_open_lit verdict_page_def)
  then have "http_upload_done si u st = Some (answered f bad st, Some (http_chunk u (answered f bad st)))"
    using assms(1,4) by (intro upload_done_answered) (simp_all add: uploading_def)
  moreover have "uploaded si (store m0 (unat CONFIG_LOADADDR) got) n t bad r (answered f bad st)"
    using assms(1) f by (simp add: uploaded_def answered_def uploading_def httpd_state_reset_def)
  ultimately show ?thesis by blast
qed

lemma receive_segments:
  assumes "list_all2 brings us segs" "uploading m0 b n t r got st" "length (got @ concat segs) < n + length b + 6"
    and "unat CONFIG_LOADADDR + (n + length b + 6) < 2 ^ 32"
  shows "\<exists>st'. http_run si us st = Some (st', replicate (length us) None) \<and> uploading m0 b n t r (got @ concat segs) st'"
  using assms(1-3)
proof (induction us segs arbitrary: got st rule: list_all2_induct)
  case (Cons u us seg segs)
  have len: "length got + length seg < n + length b + 6" using Cons.prems(2) by simp
  then have small: "length got + length seg < 2 ^ 32" "n + length b + 6 < 2 ^ 32" "unat CONFIG_LOADADDR + length got < 2 ^ 32"
    using assms(4) by linarith+
  have "httpd_appcall si u st = Some (seg_stored u st, None)"
    using Cons.prems(1) len unfolding appcall_brings [OF Cons.hyps(1)] upload_data_stored [OF Cons.prems(1) Cons.hyps(1) less_imp_le [OF len] small(3)]
      upload_complete_iff [OF Cons.prems(1) Cons.hyps(1) small(1,2)] by (simp add: uploading_def)
  with Cons.IH [OF stored_uploading [OF Cons.prems(1) Cons.hyps(1) small(3)]] Cons.prems(2) show ?case by auto
qed simp

lemma receive_last:
  assumes "brings u seg" "uploading m0 b n t r got st" "length (got @ seg) = n + length b + 6"
    and "unat CONFIG_LOADADDR + (n + length b + 6) < 2 ^ 32" "site_ok si" "site_pages si"
    and "verdict t (store m0 (unat CONFIG_LOADADDR) (got @ seg)) n = Some bad"
  shows "\<exists>st'. httpd_appcall si u st = Some (st', Some (http_chunk u st')) \<and>
    uploaded si (store m0 (unat CONFIG_LOADADDR) (got @ seg)) n t bad r st'"
proof -
  have small: "length got + length seg < 2 ^ 32" "n + length b + 6 < 2 ^ 32" "unat CONFIG_LOADADDR + length got < 2 ^ 32"
    using assms(3,4) by simp_all
  have fits: "length got + length seg \<le> n + length b + 6" using assms(3) by simp
  have "httpd_appcall si u st = http_upload_done si (end_buffer u) (seg_stored u st)"
    using assms(2,3) unfolding appcall_brings [OF assms(1)] upload_data_stored [OF assms(2,1) fits small(3)]
      upload_complete_iff [OF assms(2,1) small(1,2)] by (simp add: uploading_def)
  with upload_done_verdict [OF stored_uploading [OF assms(2,1) small(3)] assms(5-7), of "end_buffer u"] show ?thesis by auto
qed

lemma receive_run:
  assumes "list_all2 brings us segs" "segs \<noteq> []" "last segs \<noteq> []"
    and "uploading m0 b n t r got st" "length (got @ concat segs) = n + length b + 6"
    and "unat CONFIG_LOADADDR + (n + length b + 6) < 2 ^ 32" "site_ok si" "site_pages si"
    and "verdict t (store m0 (unat CONFIG_LOADADDR) (got @ concat segs)) n = Some bad"
  shows "\<exists>st'. http_run si us st = Some (st', replicate (length us - 1) None @ [Some (http_chunk (last us) st')]) \<and>
    uploaded si (store m0 (unat CONFIG_LOADADDR) (got @ concat segs)) n t bad r st'"
proof -
  obtain segs1 seg where segs: "segs = segs1 @ [seg]" using assms(2) by (metis append_butlast_last_id)
  then obtain us1 u where us: "us = us1 @ [u]" "list_all2 brings us1 segs1" "brings u seg"
    using assms(1) by (auto simp: list_all2_append2 list_all2_Cons2)
  have split: "got @ concat segs = (got @ concat segs1) @ seg" "seg \<noteq> []" using segs assms(3) by simp_all
  then have "length (got @ concat segs1) < n + length b + 6" using assms(5) by (cases seg) simp_all
  from receive_segments [OF us(2) assms(4) this assms(6), of si] obtain s where
    "http_run si us1 st = Some (s, replicate (length us1) None)" "uploading m0 b n t r (got @ concat segs1) s" by blast
  with receive_last [OF us(3) _ _ assms(6-8)] assms(5,9) us(1) show ?thesis
    unfolding split(1) by (fastforce simp: web.run_append)
qed

subsection \<open>The request\<close>

definition post_start :: "nat \<Rightarrow> bytes \<Rightarrow> http \<Rightarrow> http" where
  "post_start n b st =
     st\<lparr>hs_state := STATE_UPLOAD_REQUEST, hs_upload_total := word_of_nat n,
        small_file_flag := ((word_of_nat n :: u32) < 10240 \<or> small_file_flag st), boundary_value := Some b,
        data_pointer := CONFIG_LOADADDR, led_flashing_flag := True,
        sdram := memset (sdram st) (unat CONFIG_LOADADDR) 0xFF (unat CONFIG_MAX_UBOOT_SIZE)\<rparr>"

lemma post_dispatch:
  assumes "brings u (hdr @ x)" "hs_state st = STATE_NONE" "take 5 hdr = bs ''POST ''"
  shows "httpd_appcall si u st = http_post si u (st\<lparr>hs_state := STATE_UPLOAD_REQUEST\<rparr>)"
proof -
  have "5 \<le> length hdr" using arg_cong [OF assms(3), of length] by simp
  then have "uip_appdata u i = bs ''POST '' ! i" if "i < 5" for i
    using that brings_nth [OF assms(1), of i] arg_cong [OF assms(3), of "\<lambda>s. s ! i"]
    by (simp add: nth_append del: bs_simps)
  from this [of 0] this [of 1] this [of 2] this [of 3] this [of 4]
  have m: "uip_appdata u 0 = 0x50" "uip_appdata u 1 = 0x4f" "uip_appdata u 2 = 0x53" "uip_appdata u 3 = 0x54" "uip_appdata u 4 = 0x20"
    by (simp_all add: of_char_def)
  have "http_request si u st = http_post si u (st\<lparr>hs_state := STATE_UPLOAD_REQUEST\<rparr>)"
    unfolding http_request_def Let_def m by simp
  then show ?thesis using assms(2) by (simp add: appcall_brings [OF assms(1)])
qed

lemma post_accepted:
  assumes "brings u (hdr @ x)" "hs_state st = STATE_NONE" "take 5 hdr = bs ''POST ''" "0 \<notin> set hdr"
    "content_length hdr = Some n" "boundary_of hdr = Some b" "\<And>k. malloc_ok si k" "ram_ok st"
  shows "httpd_appcall si u st =
    do { (found, s) \<leftarrow> httpd_findandstore_firstchunk (end_buffer u) (post_start n b st); Some (s\<lparr>data_start_found := found\<rparr>, None) }"
proof -
  have c: "cstr (uip_appdata (end_buffer u)) 0 (hdr @ c_text x)"
    using packet_text [OF assms(1)] assms(4) by (simp add: c_text_append)
  have "post_length (uip_appdata (end_buffer u)) = Some (Inr (word_of_nat n))"
    "post_boundary (malloc_ok si) (uip_appdata (end_buffer u)) = Some (Inr b)"
    using post_length_cstr [OF c content_length_append] post_boundary_cstr [OF c boundary_of_append] assms(5-7) by blast+
  moreover have "in_ram x (unat CONFIG_LOADADDR) (unat CONFIG_MAX_UBOOT_SIZE)" if "sdram_end x = sdram_end st" for x
    using assms(8) that by (simp add: in_ram_def ram_ok_def CONFIG_LOADADDR_def)
  ultimately show ?thesis
    unfolding post_dispatch [OF assms(1-3)] by (simp add: http_post_def post_start_def)
qed

lemma form_head_split:
  assumes "form_head pre part b" "b \<noteq> []"
  shows "index_of b pre = None" "form_head [] part b"
proof -
  note h = assms(1) [unfolded form_head_def]
  show "index_of b pre = None"
  proof (cases "index_of b pre")
    case (Some i)
    then show ?thesis using index_of_append [OF Some, of part] h index_of_le [OF Some] assms(2) by simp
  qed
  have "take (length b) part = b" "length b \<le> length part" using h by (simp_all add: index_of_Some)
  then have "index_of b part = Some 0" by (simp add: index_of_Some)
  then show "form_head [] part b" using h by (simp add: form_head_def)
qed

lemma firstchunk_absent:
  assumes "brings u hdr" "0 \<notin> set hdr" "boundary_value st = Some b" "index_of b hdr = None"
  shows "httpd_findandstore_firstchunk (end_buffer u) st = Some (False, st)"
proof -
  have "c_text hdr = hdr" using assms(2) by (simp add: takeWhile_eq_all_conv) blast
  then show ?thesis
    using strstr_lit_cstr [OF packet_text [OF assms(1)], of b, unfolded \<open>c_text hdr = hdr\<close>] assms(3,4)
    by (simp add: httpd_findandstore_firstchunk_def)
qed

subsection \<open>An upload\<close>

text \<open>The memory after an upload: the blank area, the file, and the closing boundary behind it.\<close>

definition upload_memory :: "mem \<Rightarrow> bytes \<Rightarrow> bytes \<Rightarrow> mem" where
  "upload_memory m b dat =
     store (memset m (unat CONFIG_LOADADDR) 0xFF (unat CONFIG_MAX_UBOOT_SIZE)) (unat CONFIG_LOADADDR)
       (dat @ eol @ b @ bs ''--'' @ eol)"

text \<open>
  The segments of the request: the headers, alone in a segment or with the beginning of the body, which
  is cut into further segments anywhere behind its head.
\<close>

definition upload_segments :: "bool \<Rightarrow> bytes \<Rightarrow> bytes \<Rightarrow> bytes list \<Rightarrow> bytes list" where
  "upload_segments joined hdr seg0 segs = (if joined then [hdr @ seg0] else [hdr, seg0]) @ segs"

definition upload_request :: "bytes \<Rightarrow> bytes \<Rightarrow> bytes \<Rightarrow> bytes \<Rightarrow> bool" where
  "upload_request hdr part b dat \<longleftrightarrow>
     take 5 hdr = bs ''POST '' \<and> content_length hdr = Some (length (form_body part b dat)) \<and> boundary_of hdr = Some b \<and>
     form_head hdr part b \<and> unat CONFIG_LOADADDR + length (form_body part b dat) < 2 ^ 32"

text \<open>The SDRAM has room for so many bytes at the load address, and for the area that is blanked.\<close>

definition room_for :: "nat \<Rightarrow> http \<Rightarrow> bool" where
  "room_for n st \<longleftrightarrow> ram_ok st \<and> unat CONFIG_LOADADDR + n \<le> sdram_end st"

lemma start_uploading:
  assumes "brings u (pre @ part @ rest)" "form_head pre part b" "form_type (c_text (part @ rest)) = Some t"
    and "\<not> upload_failed st" "\<not> size_wrong t (word_of_nat (length dat))"
    and "s = post_start (length (form_body part b dat)) b st \<or>
         s = post_start (length (form_body part b dat)) b st\<lparr>data_start_found := False\<rparr>"
    and "length rest \<le> length dat + length b + 6" "room_for (length dat + length b + 6) st"
  shows "\<exists>s'. httpd_findandstore_firstchunk (end_buffer u) s = Some (True, s') \<and>
    uploading (memset (sdram st) (unat CONFIG_LOADADDR) 0xFF (unat CONFIG_MAX_UBOOT_SIZE)) b (length dat) t (ready_for_upgrade st)
      rest (s'\<lparr>data_start_found := True\<rparr>)"
proof -
  have b: "boundary_value s = Some b" using assms(6) by (auto simp: post_start_def)
  have "\<exists>s'. store_firstchunk (end_buffer u) (length pre) (length pre + length part - 4) b (s\<lparr>upgrade_type := t\<rparr>) = Some s' \<and>
    uploading (memset (sdram st) (unat CONFIG_LOADADDR) 0xFF (unat CONFIG_MAX_UBOOT_SIZE)) b (length dat) t (ready_for_upgrade st)
      rest (s'\<lparr>data_start_found := True\<rparr>)"
    using assms(4-8) by (intro firstchunk_uploading [OF assms(1,2)]) (auto simp: post_start_def room_for_def)
  then show ?thesis unfolding firstchunk_found [OF assms(1,2) b assms(3)] by auto
qed

lemma upload_start:
  assumes "hs_state st = STATE_NONE" "\<not> upload_failed st" "\<And>k. malloc_ok si k" "upload_request hdr part b dat"
    and "form_type (c_text (part @ rest)) = Some t" "\<not> size_wrong t (word_of_nat (length dat))"
    and "list_all2 brings us (if joined then [hdr @ part @ rest] else [hdr, part @ rest])"
    and "joined \<or> \<not> small_file_flag st \<and> 10240 \<le> length (form_body part b dat)"
    and "length rest \<le> length dat + length b + 6" "room_for (length dat + length b + 6) st"
  shows "\<exists>s. http_run si us st = Some (s, replicate (length us) None) \<and>
    uploading (memset (sdram st) (unat CONFIG_LOADADDR) 0xFF (unat CONFIG_MAX_UBOOT_SIZE)) b (length dat) t (ready_for_upgrade st) rest s"
proof -
  let ?n = "length (form_body part b dat)"
  note r = assms(4) [unfolded upload_request_def]
  have hdr: "0 \<notin> set hdr" and head: "form_head hdr part b" using r by (simp_all add: form_head_def)
  have "b \<noteq> []" using r by (auto simp: boundary_of_def split: option.splits)
  note split = form_head_split [OF head this]
  have ram: "ram_ok st" using assms(10) by (simp add: room_for_def)
  show ?thesis
  proof (cases joined)
    case True
    then obtain u where us: "us = [u]" "brings u (hdr @ part @ rest)"
      using assms(7) by (auto simp: list_all2_Cons2)
    from start_uploading [OF us(2) head assms(5,2,6) disjI1 [OF refl] assms(9,10)]
    show ?thesis using post_accepted [OF us(2) assms(1) _ hdr] r assms(3) us(1) ram by auto
  next
    case False
    then obtain u v where us: "us = [u, v]" "brings u hdr" "brings v (part @ rest)"
      using assms(7) by (auto simp: list_all2_Cons2)
    let ?s = "post_start ?n b st\<lparr>data_start_found := False\<rparr>"
    have "httpd_appcall si u st = Some (?s, None)"
      using post_accepted [of u hdr "[]" st ?n b si] us(2) assms(1,3) r hdr ram
        firstchunk_absent [OF us(2) hdr _ split(1), of "post_start ?n b st"] by (simp add: post_start_def)
    moreover obtain s' where s': "httpd_findandstore_firstchunk (end_buffer v) ?s = Some (True, s')"
      "uploading (memset (sdram st) (unat CONFIG_LOADADDR) 0xFF (unat CONFIG_MAX_UBOOT_SIZE)) b (length dat) t (ready_for_upgrade st) rest
         (s'\<lparr>data_start_found := True\<rparr>)"
      using start_uploading [OF _ split(2) assms(5,2,6) disjI2 [OF refl] assms(9,10), of v] us(3) unfolding append_Nil by blast
    moreover have "?n < 2 ^ 32" using r by simp
    then have "\<not> (word_of_nat ?n :: u32) < 10240" using assms(8) False by (simp add: word_less_nat_alt unat_of_nat)
    then have "hs_state ?s = STATE_UPLOAD_REQUEST" "\<not> small_file_flag ?s" "\<not> data_start_found ?s"
      using assms(8) False by (simp_all add: post_start_def)
    then have "http_upload_data si v ?s = Some (s'\<lparr>data_start_found := True\<rparr>, None)"
      using s'(1) by (simp add: http_upload_data_def)
    then have "httpd_appcall si v ?s = Some (s'\<lparr>data_start_found := True\<rparr>, None)"
      by (simp add: appcall_brings [OF us(3)] post_start_def)
    ultimately show ?thesis using us(1) by auto
  qed
qed

lemma upload_run:
  assumes "hs_state st = STATE_NONE" "\<not> upload_failed st" "site_ok si" "site_pages si" "\<And>k. malloc_ok si k"
    and "upload_request hdr part b dat" "seg0 @ concat segs = form_body part b dat" "length part \<le> length seg0"
    and "segs \<noteq> []" "last segs \<noteq> []" "list_all2 brings us (upload_segments joined hdr seg0 segs)"
    and "joined \<or> \<not> small_file_flag st \<and> 10240 \<le> length (form_body part b dat)"
    and "form_type (c_text seg0) = Some t" "\<not> size_wrong t (word_of_nat (length dat))"
    and "verdict t (upload_memory (sdram st) b dat) (length dat) = Some bad" "room_for (length dat + length b + 6) st"
  shows "\<exists>st'. http_run si us st = Some (st', replicate (length us - 1) None @ [Some (http_chunk (last us) st')]) \<and>
    uploaded si (upload_memory (sdram st) b dat) (length dat) t bad (ready_for_upgrade st) st' \<and>
    bytes_at (sdram st') (unat CONFIG_LOADADDR) (length dat) = dat"
proof -
  let ?m = "memset (sdram st) (unat CONFIG_LOADADDR) 0xFF (unat CONFIG_MAX_UBOOT_SIZE)"
  define rest where "rest = drop (length part) seg0"
  have seg0: "seg0 = part @ rest"
    using arg_cong [OF assms(7), of "take (length part)"] assms(8) by (simp add: rest_def form_body_def) (metis append_take_drop_id)
  then have whole: "rest @ concat segs = dat @ eol @ b @ bs ''--'' @ eol" using assms(7) by (simp add: form_body_def)
  have len: "length (rest @ concat segs) = length dat + length b + 6" "length rest \<le> length dat + length b + 6"
    using arg_cong [OF whole, of length] by (simp_all add: eol_def)
  obtain us1 us2 where us: "us = us1 @ us2" "list_all2 brings us1 (if joined then [hdr @ part @ rest] else [hdr, part @ rest])"
    "list_all2 brings us2 segs"
    using assms(11) unfolding upload_segments_def seg0 list_all2_append2 by blast
  obtain s where s: "http_run si us1 st = Some (s, replicate (length us1) None)"
    "uploading ?m b (length dat) t (ready_for_upgrade st) rest s"
    using upload_start [OF assms(1,2,5,6) _ assms(14) us(2) assms(12) _ assms(16)] assms(13) seg0 len by auto
  note len(1)
  moreover have "unat CONFIG_LOADADDR + (length dat + length b + 6) < 2 ^ 32"
    using assms(6) by (simp add: upload_request_def form_body_length)
  ultimately obtain st' where st': "http_run si us2 s = Some (st', replicate (length us2 - 1) None @ [Some (http_chunk (last us2) st')])"
    "uploaded si (upload_memory (sdram st) b dat) (length dat) t bad (ready_for_upgrade st) st'"
    using receive_run [OF us(3) assms(9,10) s(2) _ _ assms(3,4), of bad] assms(15)
    unfolding whole upload_memory_def by auto
  have l: "us2 \<noteq> []" using us(3) assms(9) by auto
  then have "length us1 + (length us2 - 1) = length us - 1" using us(1) by (cases us2) simp_all
  then have "replicate (length us1) (None :: uip_act option) @ replicate (length us2 - 1) None = replicate (length us - 1) None"
    by (simp flip: replicate_add)
  then have "http_run si us st = Some (st', replicate (length us - 1) None @ [Some (http_chunk (last us) st')])"
    using s(1) st'(1) us(1) l by (simp add: web.run_append flip: append_assoc)
  moreover have "bytes_at (sdram st') (unat CONFIG_LOADADDR) (length dat) = dat"
    using st'(2) bytes_at_prefix [OF at_store, of "length dat" "dat @ eol @ b @ bs ''--'' @ eol" ?m "unat CONFIG_LOADADDR"]
    by (simp add: uploaded_def upload_memory_def)
  ultimately show ?thesis using st'(2) by blast
qed


text \<open>The acknowledged page of a verdict settles the upload.\<close>

lemma upload_settled:
  assumes "uploaded si m n t bad r st" "page_acks mss (unat (hs_upload st)) us" "0 < mss"
    "unat (hs_dataptr st) + unat (hs_upload st) < 2 ^ 32"
  shows "\<exists>st' as. http_run si us st = Some (st', as) \<and> last as = Some uip_close \<and> hs_state st' = STATE_NONE \<and>
    ready_for_upgrade st' = (\<not> bad \<or> r) \<and> \<not> post_done st' \<and> \<not> upload_failed st' \<and>
    sdram st' = m \<and> xfer_size st' = word_of_nat n \<and> upgrade_type st' = t"
  using page_run [OF assms(2) _ refl assms(3,4), of si m] assms(1)
  by (auto simp: uploaded_def settle_def httpd_state_reset_def)

subsection \<open>An example\<close>

definition demo_boundary :: bytes where "demo_boundary = bs ''--XY''"

definition demo_part :: bytes where
  "demo_part = demo_boundary @ eol @ bs ''name=\"firmware\"'' @ eol2"

definition demo_hdr :: bytes where
  "demo_hdr = bs ''POST / HTTP/1.1'' @ eol @ bs ''Content-Length: 116'' @ eol @ bs ''boundary=XY'' @ eol2"

definition demo_seg0 :: bytes where
  "demo_seg0 = take 60 (form_body demo_part demo_boundary demo_firmware)"

definition demo_segs :: "bytes list" where
  "demo_segs = [drop 60 (form_body demo_part demo_boundary demo_firmware)]"

definition demo_events :: "uip list" where
  "demo_events = map data_event (upload_segments True demo_hdr demo_seg0 demo_segs)"

lemma demo_lengths: "length demo_firmware = 81" "length (form_body demo_part demo_boundary demo_firmware) = 116" "length demo_part = 25"
    "length demo_hdr < 1000"
  by (simp_all add: demo_firmware_def demo_manifest_def fw_image_def form_body_length demo_part_def demo_boundary_def eol_def
      eol2_def demo_hdr_def)

lemma demo_request: "upload_request demo_hdr demo_part demo_boundary demo_firmware"
proof -
  have "take 5 demo_hdr = bs ''POST ''" "content_length demo_hdr = Some 116" "boundary_of demo_hdr = Some demo_boundary"
    "form_head demo_hdr demo_part demo_boundary"
    by code_simp+
  then show ?thesis by (simp add: upload_request_def demo_lengths CONFIG_LOADADDR_def del: bs_simps)
qed

lemma demo_type: "form_type (c_text demo_seg0) = Some WEBFAILSAFE_UPGRADE_TYPE_FIRMWARE"
  by code_simp

lemma demo_site_pages: "site_pages demo_site"
  by (simp add: site_pages_def open_file_def demo_site_def of_char_def)

lemma demo_segments: "demo_seg0 @ concat demo_segs = form_body demo_part demo_boundary demo_firmware" "length demo_part \<le> length demo_seg0"
    "demo_segs \<noteq> []" "last demo_segs \<noteq> []"
  using demo_lengths by (simp_all add: demo_seg0_def demo_segs_def)

lemma demo_brought: "list_all2 brings demo_events (upload_segments True demo_hdr demo_seg0 demo_segs)"
  using demo_lengths by (simp add: demo_events_def upload_segments_def demo_segs_def demo_seg0_def brings_data_event)

lemma demo_verdict: "verdict WEBFAILSAFE_UPGRADE_TYPE_FIRMWARE (upload_memory m demo_boundary demo_firmware) (length demo_firmware) = Some False"
proof -
  let ?m = "upload_memory m demo_boundary demo_firmware"
  have "bytes_at ?m (unat CONFIG_LOADADDR) (length demo_firmware) = demo_firmware"
    using bytes_at_prefix [OF at_store, of "length demo_firmware"] by (simp add: upload_memory_def)
  moreover have "demo_manifest \<noteq> []" "unat CONFIG_LOADADDR + length demo_firmware < 2 ^ 32"
    by (simp_all add: demo_manifest_def demo_lengths CONFIG_LOADADDR_def)
  ultimately have "fwtool_validate_manifest ?m CONFIG_LOADADDR (word_of_nat (length demo_firmware)) = Some FWTOOL_FIRMWARE_VALID"
    using fwtool_laid_out [OF demo_firmware_def, of ?m CONFIG_LOADADDR] demo_visible by simp
  then show ?thesis by (simp add: verdict_def)
qed

lemma demo_state: "hs_state demo_idle = STATE_NONE" "\<not> upload_failed demo_idle" "\<not> post_done demo_idle" "\<not> ready_for_upgrade demo_idle"
    "\<And>k. malloc_ok demo_site k" "\<not> size_wrong WEBFAILSAFE_UPGRADE_TYPE_FIRMWARE (word_of_nat (length demo_firmware))"
  by (simp_all add: demo_idle_def demo_site_def size_wrong_def WEBFAILSAFE_UPLOAD_FW_SIZE_IN_BYTES_def demo_lengths)

lemma demo_room: "room_for (length demo_firmware + length demo_boundary + 6) demo_idle" "ram_ok demo_idle"
  by (simp_all add: room_for_def ram_ok_def demo_idle_def demo_lengths demo_boundary_def CONFIG_LOADADDR_def CONFIG_MAX_UBOOT_SIZE_def)


subsection \<open>Upgrades\<close>


lemma demo_upgrade:
  "\<exists>st' as. http_run demo_site (demo_events @ [ack_event 1446 3]) demo_idle = Some (st', as) \<and> ready_for_upgrade st'"
proof -
  obtain s where s: "http_run demo_site demo_events demo_idle =
      Some (s, replicate (length demo_events - 1) None @ [Some (http_chunk (last demo_events) s)])"
    "uploaded demo_site (upload_memory (sdram demo_idle) demo_boundary demo_firmware) (length demo_firmware)
      WEBFAILSAFE_UPGRADE_TYPE_FIRMWARE False (ready_for_upgrade demo_idle) s"
    using upload_run [OF demo_state(1,2) demo_site_ok demo_site_pages demo_state(5) demo_request demo_segments demo_brought _
        demo_type demo_state(6) demo_verdict demo_room(1)] by auto
  have "verdict_page demo_site False = Some \<lparr>f_name = bs ''/flashing.html'', f_data = 3000, f_len = 3\<rparr>"
    by (simp add: verdict_page_def open_file_def demo_site_def of_char_def)
  then have "hs_dataptr s = 3000" "hs_upload s = 3" using s(2) by (simp_all add: uploaded_def)
  moreover have "page_acks 1446 3 [ack_event 1446 3]" by (simp add: acks_def ack_event_def)
  ultimately show ?thesis using s(1) upload_settled [OF s(2), of 1446 "[ack_event 1446 3]"]
    by (auto simp: web.run_append simp del: http_run.simps)
qed


end
