(* ===== verification/Httpd_Faults.thy ===== *)
theory Httpd_Faults
  imports Httpd_Upload
begin

text \<open>
  Uploads that the web server mishandles: one that fits a single segment, one after a small file, and a
  stale completion that starts an upgrade from blank memory.
\<close>

subsection \<open>Refused requests\<close>

lemma post_length_refused:
  assumes "cstr m 0 s" "content_length s = None" "\<And>i. index_of (bs ''Content-Length:'') s = Some i \<Longrightarrow> i + 16 \<le> length s"
  shows "post_length m = Some (Inl No_Content_Length)"
proof (cases "index_of (bs ''Content-Length:'') s")
  case None
  then show ?thesis by (simp add: post_length_def strstr_lit_cstr [OF assms(1)] del: bs_simps)
next
  case (Some i)
  have "cstr m (i + 16) (drop (i + 16) s)" using cstr_drop [OF assms(1) assms(3) [OF Some]] by simp
  moreover have "index_of eol (drop (i + 16) s) = None"
    using assms(2) Some by (simp add: content_length_def del: bs_simps split: if_splits)
  ultimately show ?thesis
    using Some strstr_lit_cstr [of m "i + 16" "drop (i + 16) s" eol]
    by (simp add: post_length_def strstr_lit_cstr [OF assms(1)] del: bs_simps)
qed

lemma post_boundary_refused:
  assumes "cstr m 0 s" "boundary_of s = None \<or> (\<forall>k. \<not> ok k)"
  shows "\<exists>e. post_boundary ok m = Some (Inl e)"
proof (cases "index_of (bs ''boundary='') s")
  case None
  then show ?thesis by (simp add: post_boundary_def strstr_lit_cstr [OF assms(1)] del: bs_simps)
next
  case (Some i)
  have "i + 9 \<le> length s" using index_of_le [OF Some] by simp
  then have "cstr m (i + 9) (drop (i + 9) s)" using cstr_drop [OF assms(1), of "i + 9"] by simp
  then show ?thesis
    using Some assms(2) strstr_lit_cstr [of m "i + 9" "drop (i + 9) s" eol]
    by (cases "index_of eol (drop (i + 9) s)")
       (auto simp: post_boundary_def strstr_lit_cstr [OF assms(1)] boundary_of_def simp del: bs_simps)
qed



subsection \<open>Faults\<close>

text \<open>
  An upload whose request comes in one segment is stored whole and never answered: the completion is only
  tested when a further segment arrives.
\<close>

theorem one_segment_upload_waits:
  assumes "hs_state st = STATE_NONE" "\<not> upload_failed st" "\<And>k. malloc_ok si k" "upload_request hdr part b dat"
    and "form_type (c_text (form_body part b dat)) = Some t" "\<not> size_wrong t (word_of_nat (length dat))"
    and "brings u (hdr @ form_body part b dat)" "room_for (length dat + length b + 6) st"
  shows "\<exists>s. httpd_appcall si u st = Some (s, None) \<and> hs_state s = STATE_UPLOAD_REQUEST \<and>
    hs_upload s = hs_upload_total s + word_of_nat (length b) + 6 \<and> sdram s = upload_memory (sdram st) b dat"
proof -
  let ?rest = "dat @ eol @ b @ bs ''--'' @ eol"
  have len: "length ?rest \<le> length dat + length b + 6" by (simp add: eol_def)
  obtain s where "http_run si [u] st = Some (s, [None])"
    "uploading (memset (sdram st) (unat CONFIG_LOADADDR) 0xFF (unat CONFIG_MAX_UBOOT_SIZE)) b (length dat) t (ready_for_upgrade st) ?rest s"
    using upload_start [OF assms(1-4), of ?rest t "[u]" True] assms(5-8) len by (auto simp: form_body_def simp del: bs_simps http_run.simps)
  then show ?thesis
    by (auto simp: uploading_def upload_memory_def eol_def split: bind_splits)
qed

theorem one_segment_upload_waits_witness:
  "\<exists>s. httpd_appcall demo_site (data_event (demo_hdr @ form_body demo_part demo_boundary demo_firmware)) demo_idle = Some (s, None) \<and>
    hs_state s = STATE_UPLOAD_REQUEST \<and> hs_upload s = hs_upload_total s + word_of_nat (length demo_boundary) + 6 \<and>
    sdram s = upload_memory (sdram demo_idle) demo_boundary demo_firmware"
proof (rule one_segment_upload_waits [OF demo_state(1,2,5) demo_request _ demo_state(6) brings_data_event])
  show "form_type (c_text (form_body demo_part demo_boundary demo_firmware)) = Some WEBFAILSAFE_UPGRADE_TYPE_FIRMWARE" by code_simp
  show "room_for (length demo_firmware + length demo_boundary + 6) demo_idle" by (rule demo_room)
  show "length (demo_hdr @ form_body demo_part demo_boundary demo_firmware) < 65536" using demo_lengths by simp
qed

text \<open>
  The mark for a small file stays set when its upload does not complete. The next upload whose headers
  come in a segment of their own is then taken without looking for the start of the file: the form's head
  is stored as its first bytes, and however long the file is, nothing is answered.
\<close>

theorem small_file_mark_stays:
  assumes "hs_state st = STATE_NONE" "\<not> upload_failed st" "small_file_flag st" "hs_upload st = 0" "\<And>k. malloc_ok si k"
    and "upload_request hdr part b dat" "unat CONFIG_LOADADDR + (length (form_body part b dat) + length b + 6) < 2 ^ 32"
    and "list_all2 brings us (hdr # segs)" "concat segs = form_body part b dat"
    and "room_for (length (form_body part b dat) + length b + 6) st"
  shows "\<exists>s. http_run si us st = Some (s, replicate (length us) None) \<and> hs_state s = STATE_UPLOAD_REQUEST \<and>
    bytes_at (sdram s) (unat CONFIG_LOADADDR) (length part) = part"
proof -
  let ?n = "length (form_body part b dat)" and ?m = "memset (sdram st) (unat CONFIG_LOADADDR) 0xFF (unat CONFIG_MAX_UBOOT_SIZE)"
  let ?s = "post_start ?n b st\<lparr>data_start_found := False\<rparr>"
  note r = assms(6) [unfolded upload_request_def]
  have hdr: "0 \<notin> set hdr" using r by (simp add: form_head_def)
  have "b \<noteq> []" using r by (auto simp: boundary_of_def split: option.splits)
  then have absent: "index_of b hdr = None" using r form_head_split(1) by blast
  obtain u vs where us: "us = u # vs" "brings u hdr" "list_all2 brings vs segs"
    using assms(8) by (auto simp: list_all2_Cons2)
  have "httpd_appcall si u st = Some (?s, None)"
    using post_accepted [of u hdr "[]" st ?n b si] us(2) assms(1,5,10) r hdr
      firstchunk_absent [OF us(2) hdr _ absent, of "post_start ?n b st"] by (simp add: post_start_def room_for_def)
  moreover have "uploading ?m b ?n (upgrade_type st) (ready_for_upgrade st) [] ?s"
    using assms(2-4,10) by (simp add: uploading_def post_start_def room_for_def)
  from receive_segments [OF us(3) this, of si] assms(7,9) obtain s where
    "http_run si vs ?s = Some (s, replicate (length vs) None)"
    "uploading ?m b ?n (upgrade_type st) (ready_for_upgrade st) (form_body part b dat) s" by auto
  moreover have "bytes_at (store ?m (unat CONFIG_LOADADDR) (form_body part b dat)) (unat CONFIG_LOADADDR) (length part) = part"
    using bytes_at_prefix [OF at_store, of "length part" "form_body part b dat" ?m "unat CONFIG_LOADADDR"] by (simp add: form_body_def)
  ultimately show ?thesis using us(1) by (auto simp: uploading_def)
qed

theorem small_file_mark_stays_witness:
  "\<exists>s. http_run demo_site (map data_event [demo_hdr, form_body demo_part demo_boundary demo_firmware])
      (demo_idle\<lparr>small_file_flag := True\<rparr>) = Some (s, [None, None]) \<and> hs_state s = STATE_UPLOAD_REQUEST \<and>
    bytes_at (sdram s) (unat CONFIG_LOADADDR) (length demo_part) = demo_part"
proof -
  let ?us = "map data_event [demo_hdr, form_body demo_part demo_boundary demo_firmware]"
  have "list_all2 brings ?us (demo_hdr # [form_body demo_part demo_boundary demo_firmware])"
    "unat CONFIG_LOADADDR + (length (form_body demo_part demo_boundary demo_firmware) + length demo_boundary + 6) < 2 ^ 32"
    "room_for (length (form_body demo_part demo_boundary demo_firmware) + length demo_boundary + 6) (demo_idle\<lparr>small_file_flag := True\<rparr>)"
    using demo_lengths by (simp_all add: brings_data_event CONFIG_LOADADDR_def demo_boundary_def room_for_def ram_ok_def demo_idle_def
        CONFIG_MAX_UBOOT_SIZE_def)
  moreover have "hs_state (demo_idle\<lparr>small_file_flag := True\<rparr>) = STATE_NONE" "\<not> upload_failed (demo_idle\<lparr>small_file_flag := True\<rparr>)"
    "small_file_flag (demo_idle\<lparr>small_file_flag := True\<rparr>)" "hs_upload (demo_idle\<lparr>small_file_flag := True\<rparr>) = 0"
    by (simp_all add: demo_idle_def)
  ultimately show ?thesis
    using small_file_mark_stays [of "demo_idle\<lparr>small_file_flag := True\<rparr>" demo_site demo_hdr demo_part demo_boundary demo_firmware ?us
        "[form_body demo_part demo_boundary demo_firmware]"] demo_state(5) demo_request
    by (simp del: http_run.simps add: numeral_2_eq_2)
qed

text \<open>
  A finished upload whose last page is not acknowledged stays marked as finished when the connection is
  lost. A second request then blanks the memory, and when it is given up too, the next page that anyone
  fetches starts the upgrade, from the blank memory and with the size of the first upload.
\<close>

definition aborts :: "uip \<Rightarrow> bool" where
  "aborts u \<longleftrightarrow> uip_lport u = 0x5000 \<and> uip_flags u = UIP_ABORT"

lemma bytes_at_replicate: "bytes_at (store m p (replicate n c)) p n = replicate n c"
  using bytes_at_store_in [where xs = "replicate n c"] by (simp only: length_replicate)

theorem stale_completion:
  assumes "hs_state st = STATE_NONE" "post_done st" "\<not> upload_failed st" "site_ok si" "\<And>k. malloc_ok si k"
    and "brings u1 hdr" "take 5 hdr = bs ''POST ''" "0 \<notin> set hdr" "content_length hdr = Some n" "boundary_of hdr = Some b"
    and "index_of b hdr = None" "aborts u2" "brings u3 (get_request name rest)" "list_all name_char name" "length name < 26"
    and "page_for si name = Some f" "unat (uip_mss u3) = mss" "0 < mss" "page_acks mss (unat (f_len f)) us"
    and "unat (f_data f) + unat (f_len f) < 2 ^ 32" "ram_ok st"
  shows "\<exists>s as. http_run si (u1 # u2 # u3 # us) st = Some (s, as) \<and> ready_for_upgrade s \<and> xfer_size s = xfer_size st \<and>
    bytes_at (sdram s) (unat CONFIG_LOADADDR) (unat CONFIG_MAX_UBOOT_SIZE) = replicate (unat CONFIG_MAX_UBOOT_SIZE) 0xFF"
proof -
  let ?s1 = "post_start n b st\<lparr>data_start_found := False\<rparr>" and ?n = "unat CONFIG_MAX_UBOOT_SIZE"
  let ?s3 = "httpd_state_reset (settle (httpd_state_reset ?s1))"
  have s1: "httpd_appcall si u1 st = Some (?s1, None)"
    using post_accepted [of u1 hdr "[]" st n b si] assms(1,5-10,21)
      firstchunk_absent [OF assms(6,8) _ assms(11), of "post_start n b st"] by (simp add: post_start_def)
  have s2: "httpd_appcall si u2 ?s1 = Some (httpd_state_reset ?s1, Some uip_abort)"
    using assms(12) by (simp add: httpd_appcall_def aborts_def uip_bits)
  have "hs_state (httpd_state_reset ?s1) = STATE_NONE" by (simp add: httpd_state_reset_def)
  from page_sent [OF this assms(4,16,13-15,17-20)] obtain as where
    "http_run si (u3 # us) (httpd_state_reset ?s1) = Some (?s3, as)" by blast
  from web.run_step [OF s1 web.run_step [OF s2 this]]
  have "http_run si (u1 # u2 # u3 # us) st = Some (?s3, None # Some uip_abort # as)" .
  moreover have "ready_for_upgrade ?s3" "xfer_size ?s3 = xfer_size st"
    using assms(2,3) by (simp_all add: httpd_state_reset_def settle_def post_start_def)
  moreover have "sdram ?s3 = store (sdram st) (unat CONFIG_LOADADDR) (replicate ?n 0xFF)"
    by (simp add: httpd_state_reset_def settle_def post_start_def memset_store)
  then have "bytes_at (sdram ?s3) (unat CONFIG_LOADADDR) ?n = replicate ?n 0xFF"
    by (simp only: bytes_at_replicate)
  ultimately show ?thesis by blast
qed

theorem stale_completion_witness:
  "\<exists>s as. http_run demo_site (data_event demo_hdr # data_event [] \<lparr>uip_flags := UIP_ABORT\<rparr> # data_event (get_request (bs ''/'') []) #
        [ack_event 2 2, ack_event 2 2, ack_event 2 1]) (demo_idle\<lparr>post_done := True, xfer_size := 7\<rparr>) = Some (s, as) \<and>
     ready_for_upgrade s \<and> xfer_size s = 7 \<and>
     bytes_at (sdram s) (unat CONFIG_LOADADDR) (unat CONFIG_MAX_UBOOT_SIZE) = replicate (unat CONFIG_MAX_UBOOT_SIZE) 0xFF"
proof -
  let ?st = "demo_idle\<lparr>post_done := True, xfer_size := 7\<rparr>" and ?f = "\<lparr>f_name = bs ''/index.html'', f_data = 1000, f_len = 5\<rparr>"
  have page: "page_for demo_site (bs ''/'') = Some ?f"
    by (simp add: page_for_def open_file_def demo_site_def)
  have hdr: "take 5 demo_hdr = bs ''POST ''" "0 \<notin> set demo_hdr" "content_length demo_hdr = Some 116"
    "boundary_of demo_hdr = Some demo_boundary" "index_of demo_boundary demo_hdr = None" by code_simp+
  have c: "brings (data_event demo_hdr) demo_hdr"
    "brings (data_event (get_request (bs ''/'') [])) (get_request (bs ''/'') [])"
    using demo_lengths by (auto intro!: brings_data_event simp: get_request_def)
  have st: "hs_state ?st = STATE_NONE" "post_done ?st" "\<not> upload_failed ?st" "xfer_size ?st = 7"
    by (simp_all add: demo_idle_def)
  have ev: "aborts (data_event [] \<lparr>uip_flags := UIP_ABORT\<rparr>)" "list_all name_char (bs ''/'')" "length (bs ''/'') < 26"
    "unat (uip_mss (data_event (get_request (bs ''/'') []))) = 2" "(0 :: nat) < 2"
    "page_acks 2 (unat (f_len ?f)) [ack_event 2 2, ack_event 2 2, ack_event 2 1]" "unat (f_data ?f) + unat (f_len ?f) < 2 ^ 32"
    by (simp_all add: aborts_def data_event_def name_char_def of_char_def acks_def ack_event_def)
  show ?thesis
    using stale_completion [OF st(1-3) demo_site_ok demo_state(5) c(1) hdr ev(1) c(2) ev(2,3) page ev(4-7)] st(4) demo_room(2)
    by (simp add: ram_ok_def)
qed

end
