(* ===== verification/Failsafe.thy ===== *)
theory Failsafe
  imports Httpd_Faults Tftp
begin

text \<open>
  The recovery mode around the web server: the upgrade commands of \<open>net/httpd.c\<close> and the loop
  \<open>NetLoopHttpd\<close> of \<open>net/net.c\<close>.

  A turn of the loop is the events that the network brings in it and whether the operator pressed Ctrl-C;
  running a command is an argument. What a loop returns is why it ended, the state, and the command it ran.
  The interface's start and stop, the console output and the blinking of the LED are left out; after a
  failed upgrade the loop starts again.
\<close>

subsection \<open>The commands\<close>

definition CONFIG_UBOOT_START :: u32 where "CONFIG_UBOOT_START = 0xf0000"
definition CONFIG_UBOOT_SIZE :: u32 where "CONFIG_UBOOT_SIZE = 0x80000"

definition upgrade_command :: "u32 \<Rightarrow> upgrade \<Rightarrow> bytes" where
  "upgrade_command n t =
     (case t of
        WEBFAILSAFE_UPGRADE_TYPE_UBOOT \<Rightarrow>
          sprintf_text (bs ''sf probe && sf erase 0x%x 0x%x && sf write 0x%x 0x%x 0x%x'')
            [W32 CONFIG_LOADADDR, W32 CONFIG_UBOOT_START, W32 CONFIG_UBOOT_SIZE, W32 CONFIG_UBOOT_START, W32 n]
      | WEBFAILSAFE_UPGRADE_TYPE_FIRMWARE \<Rightarrow>
          sprintf_text (bs ''sf probe && imgaddr=0x%x && source $imgaddr:script'') [W32 CONFIG_LOADADDR]
      | WEBFAILSAFE_UPGRADE_TYPE_ART \<Rightarrow>
          sprintf_text (bs ''sf probe && sf erase 0x170000 0x10000 && sf write 0x%x 0x170000 0x10000'') [W32 CONFIG_LOADADDR])"

definition do_http_upgrade :: "(bytes \<Rightarrow> int) \<Rightarrow> u32 \<Rightarrow> upgrade \<Rightarrow> int" where
  "do_http_upgrade run_command n t = run_command (upgrade_command n t)"

text \<open>Formats of literal text and \<open>%x\<close>.\<close>

abbreviation hex :: "u32 \<Rightarrow> bytes" where
  "hex w \<equiv> digits_text 16 32 (unat w)"

lemma vs_text_lit:
  "37 \<notin> set p \<Longrightarrow> 0 \<notin> set p \<Longrightarrow> vs_text m (p @ fmt) args = map_option (\<lambda>(t, r). (p @ t, r)) (vs_text m fmt args)"
proof (induction p)
  case (Cons c p)
  then show ?case
    by (simp add: vs_text.simps [of m "c # x" for x] option.map_comp comp_def case_prod_beta split: option.split)
qed (simp add: case_prod_beta option.map_id)

lemma vs_text_hex:
  "vs_text m (37 # 120 # fmt) (W32 w # args) = map_option (\<lambda>(t, r). (hex w @ t, r)) (vs_text m fmt args)"
  by (simp add: fmt_simps(2-) vs_text.simps [of m "37 # x" for x] unat_ucast_64 split: option.split)

lemma vs_text_end: "vs_text m [] args = Some ([], [])"
  by (simp add: vs_text.simps)

lemma sprintf_hex1:
  assumes "list_all (\<lambda>c. c \<noteq> 37 \<and> c \<noteq> 0) p" "list_all (\<lambda>c. c \<noteq> 37 \<and> c \<noteq> 0) q"
  shows "sprintf_text (p @ 37 # 120 # q) [W32 w] = p @ hex w @ q"
proof -
  have "vs_text (\<lambda>_. 0) q [] = Some (q, [])"
    using vs_text_lit [of q "\<lambda>_. 0" "[]" "[]"] assms(2) by (auto simp: vs_text_end list_all_iff)
  moreover have "vs_text (\<lambda>_. 0) (p @ 37 # 120 # q) [W32 w] =
      map_option (\<lambda>(t, r). (p @ t, r)) (vs_text (\<lambda>_. 0) (37 # 120 # q) [W32 w])"
    by (rule vs_text_lit) (use assms(1) in \<open>auto simp: list_all_iff\<close>)
  ultimately show ?thesis by (simp add: sprintf_text_def vs_text_hex)
qed

lemma hex_numbers: "hex CONFIG_LOADADDR = bs ''81000000''" "hex CONFIG_UBOOT_START = bs ''f0000''" "hex CONFIG_UBOOT_SIZE = bs ''80000''"
  by (simp_all add: CONFIG_LOADADDR_def CONFIG_UBOOT_START_def CONFIG_UBOOT_SIZE_def digits_text_def rdigits_step rdigits_small
      dchar_def digits16_def of_char_def)

text \<open>The command for each kind of file.\<close>

lemma firmware_command:
  "upgrade_command n WEBFAILSAFE_UPGRADE_TYPE_FIRMWARE = bs ''sf probe && imgaddr=0x81000000 && source $imgaddr:script''"
proof -
  have "bs ''sf probe && imgaddr=0x%x && source $imgaddr:script'' =
      bs ''sf probe && imgaddr=0x'' @ 37 # 120 # bs '' && source $imgaddr:script''" by (simp add: of_char_def)
  moreover have "sprintf_text (bs ''sf probe && imgaddr=0x'' @ 37 # 120 # bs '' && source $imgaddr:script'') [W32 CONFIG_LOADADDR]
      = bs ''sf probe && imgaddr=0x'' @ hex CONFIG_LOADADDR @ bs '' && source $imgaddr:script''"
    by (rule sprintf_hex1) (simp_all add: of_char_def)
  ultimately show ?thesis by (simp add: upgrade_command_def hex_numbers)
qed

lemma art_command:
  "upgrade_command n WEBFAILSAFE_UPGRADE_TYPE_ART =
     bs ''sf probe && sf erase 0x170000 0x10000 && sf write 0x81000000 0x170000 0x10000''"
proof -
  have "bs ''sf probe && sf erase 0x170000 0x10000 && sf write 0x%x 0x170000 0x10000'' =
      bs ''sf probe && sf erase 0x170000 0x10000 && sf write 0x'' @ 37 # 120 # bs '' 0x170000 0x10000''" by (simp add: of_char_def)
  moreover have "sprintf_text (bs ''sf probe && sf erase 0x170000 0x10000 && sf write 0x'' @ 37 # 120 # bs '' 0x170000 0x10000'')
      [W32 CONFIG_LOADADDR] = bs ''sf probe && sf erase 0x170000 0x10000 && sf write 0x'' @ hex CONFIG_LOADADDR @ bs '' 0x170000 0x10000''"
    by (rule sprintf_hex1) (simp_all add: of_char_def)
  ultimately show ?thesis by (simp add: upgrade_command_def hex_numbers)
qed

text \<open>
  The command for a boot loader is built from arguments in the wrong order: it erases at the load address,
  which is no flash address, with the partition's offset for a length, and writes from the address that is
  the partition's size.
\<close>

theorem uboot_command:
  "upgrade_command n WEBFAILSAFE_UPGRADE_TYPE_UBOOT =
     bs ''sf probe && sf erase 0x81000000 0xf0000 && sf write 0x80000 0xf0000 0x'' @ hex n"
proof -
  let ?z = "bs '' 0x''"
  have fmt: "bs ''sf probe && sf erase 0x%x 0x%x && sf write 0x%x 0x%x 0x%x'' =
      bs ''sf probe && sf erase 0x'' @ 37 # 120 # ?z @ 37 # 120 # bs '' && sf write 0x'' @ 37 # 120 # ?z @ 37 # 120 # ?z @ 37 # 120 # []"
    by (simp add: of_char_def)
  have "vs_text m (p @ fmt) args = map_option (\<lambda>(t, r). (p @ t, r)) (vs_text m fmt args)"
    if "p \<in> {bs ''sf probe && sf erase 0x'', ?z, bs '' && sf write 0x''}" for m p fmt args
    using that by (intro vs_text_lit) (auto simp: of_char_def)
  then have lits: "vs_text m (bs ''sf probe && sf erase 0x'' @ fmt) args = map_option (\<lambda>(t, r). (bs ''sf probe && sf erase 0x'' @ t, r)) (vs_text m fmt args)"
    "vs_text m (?z @ fmt) args = map_option (\<lambda>(t, r). (?z @ t, r)) (vs_text m fmt args)"
    "vs_text m (bs '' && sf write 0x'' @ fmt) args = map_option (\<lambda>(t, r). (bs '' && sf write 0x'' @ t, r)) (vs_text m fmt args)" for m fmt args
    by blast+
  show ?thesis
    unfolding upgrade_command_def upgrade.case fmt sprintf_text_def lits vs_text_hex vs_text_end
    by (simp add: hex_numbers)
qed

subsection \<open>The loop\<close>

datatype loop_end = Loop_again | Loop_ctrlc | Loop_reset | Loop_restart

definition http_turn :: "site \<Rightarrow> (bytes \<Rightarrow> int) \<Rightarrow> uip list \<Rightarrow> bool \<Rightarrow> http \<Rightarrow> (loop_end \<times> http \<times> bytes list) option" where
  "http_turn si run_command us ctrlc st =
     do { (st, _) \<leftarrow> http_run si us st;
          if ctrlc
          then Some (Loop_ctrlc, st\<lparr>led_flashing_flag := False, ready_for_upgrade := False,
                                    upgrade_type := WEBFAILSAFE_UPGRADE_TYPE_FIRMWARE\<rparr>, [])
          else if \<not> ready_for_upgrade st then Some (Loop_again, st, [])
          else let cmd = upgrade_command (xfer_size st) (upgrade_type st)
               in if do_http_upgrade run_command (xfer_size st) (upgrade_type st) \<ge> 0 then Some (Loop_reset, st, [cmd])
                  else Some (Loop_restart, st\<lparr>ready_for_upgrade := False, upgrade_type := WEBFAILSAFE_UPGRADE_TYPE_FIRMWARE,
                                              xfer_size := 0\<rparr>, [cmd]) }"

text \<open>The loop over a sequence of turns, with the commands it runs.\<close>

fun NetLoopHttpd :: "site \<Rightarrow> (bytes \<Rightarrow> int) \<Rightarrow> (uip list \<times> bool) list \<Rightarrow> http \<Rightarrow> (loop_end \<times> http \<times> bytes list) option" where
  "NetLoopHttpd si run_command [] st = Some (Loop_again, st, [])"
| "NetLoopHttpd si run_command ((us, ctrlc) # turns) st =
     do { (r, st, cs) \<leftarrow> http_turn si run_command us ctrlc st;
          if r = Loop_again \<or> r = Loop_restart
          then do { (r, st, ds) \<leftarrow> NetLoopHttpd si run_command turns st; Some (r, st, cs @ ds) }
          else Some (r, st, cs) }"

text \<open>The flag that starts an upgrade is never taken back by an event.\<close>

lemma ready_stays: "httpd_appcall si u st = Some (st', a) \<Longrightarrow> ready_for_upgrade st \<Longrightarrow> ready_for_upgrade st'"
proof -
  have get: "ready_for_upgrade s'" if "http_get si u s = Some (s', a)" "ready_for_upgrade s" for s s' a
    using that by (elim http_get_cases) (auto simp: httpd_state_reset_def serve_def Let_def)
  have first: "ready_for_upgrade s' = ready_for_upgrade s" if "httpd_findandstore_firstchunk v s = Some (f, s')" for v s s' f
    using firstchunk_session [OF that] by (simp add: same_session_def)
  have post: "ready_for_upgrade s'" if "http_post si u s = Some (s', a)" "ready_for_upgrade s" for s s' a
    using that by (auto simp: http_post_def http_abort_def Let_def httpd_state_reset_def split: bind_splits sum.splits if_splits dest!: first)
  have fin: "ready_for_upgrade s'" if "http_upload_done si v s = Some (s', a)" "ready_for_upgrade s" for v s s' a
    using that by (auto simp: http_upload_done_def Let_def serve_def httpd_state_reset_def split: bind_splits option.splits)
  have up: "ready_for_upgrade s'" if "http_upload_data si u s = Some (s', a)" "ready_for_upgrade s" for s s' a
    using that by (auto simp: http_upload_data_def Let_def http_abort_def httpd_state_reset_def httpd_download_progress_def copy_in_def copied_def
        split: bind_splits option.splits if_splits dest!: first fin)
  show "httpd_appcall si u st = Some (st', a) \<Longrightarrow> ready_for_upgrade st \<Longrightarrow> ready_for_upgrade st'"
    using get post up [of st st' a]
    by (auto simp: httpd_appcall_def http_request_def http_acked_def http_abort_def httpd_state_reset_def Let_def split: if_splits)
qed

lemma run_ready_stays: "http_run si us st = Some (st', as) \<Longrightarrow> ready_for_upgrade st \<Longrightarrow> ready_for_upgrade st'"
  by (rule web.run_invariant [where P = ready_for_upgrade]) (rule ready_stays)

text \<open>Turns in which nothing becomes ready only run the events.\<close>

lemma loop_waits:
  assumes "http_run si (concat (map fst turns)) st = Some (s, as)" "\<not> ready_for_upgrade s" "list_all (\<lambda>t. \<not> snd t) turns"
  shows "NetLoopHttpd si run_command (turns @ rest) st = NetLoopHttpd si run_command rest s"
  using assms
proof (induction turns arbitrary: st as)
  case (Cons t turns)
  obtain us where t: "t = (us, False)" using Cons.prems(3) by (cases t) auto
  obtain s1 as1 as2 where s1: "http_run si us st = Some (s1, as1)" "http_run si (concat (map fst turns)) s1 = Some (s, as2)"
    using Cons.prems(1) t by (auto simp: web.run_append split: bind_splits)
  have "\<not> ready_for_upgrade s1" using run_ready_stays [OF s1(2)] Cons.prems(2) by blast
  then have "http_turn si run_command us False st = Some (Loop_again, s1, [])" using s1(1) by (simp add: http_turn_def)
  with Cons.IH [OF s1(2) Cons.prems(2)] Cons.prems(3) t show ?case by (auto split: bind_splits)
qed simp



end
