(* ===== verification/Spec2Isabelle.thy ===== *)
theory Spec2Isabelle
  imports Circbuf Env_Boot Lmb_Alloc Fips Md5 Image Tftp_Put Net_Arp Net_Addr Failsafe
begin

text \<open>
  Verification of the boot loader of the OpenMPTCProuter tree.

  The repository is an overlay for OpenWrt: package recipes, kernel patches, copied kernel drivers, and one
  program of its own, the U-Boot of the Teltonika RUTX routers under
  \<open>src/common/package/boot/uboot-ipq40xx/src\<close>. The development models the logic that this boot loader runs
  before the kernel starts, as the board's configuration \<open>include/configs/ipq40xx_cdp.h\<close> builds it: a
  32-bit little-endian ARM with unsigned \<open>char\<close>. File names below are relative to that directory.

  \<^bold>\<open>The parts and how they interact.\<close> The environment, a map of names to values, is a hash table
  (\<open>lib/hashtable.c\<close>). Commands change it (\<open>common/cmd_nvedit.c\<close>); at boot and on \<open>saveenv\<close> it is turned from
  and to a text with a CRC-32 (\<open>common/env_common.c\<close>, \<open>lib/crc32.c\<close>) that is kept in NAND flash
  (\<open>common/env_nand.c\<close>). An image is fetched by TFTP (\<open>net/tftp.c\<close>), which takes its options from the
  environment and its packets from the IP layer (\<open>net/net.c\<close>, \<open>net/arp.c\<close>), checked by the checksums of its header and data (\<open>common/image.c\<close>), and placed in memory by
  the allocator of logical memory blocks (\<open>lib/lmb.c\<close>). When the router does not start, a web server
  (\<open>httpd/httpd.c\<close>, \<open>net/httpd.c\<close>) takes a firmware from a browser, checks its manifest (\<open>lib/fwtool.c\<close>) and
  flashes it. All of it rests on the string routines, the number
  parsers and the formatted output of \<open>lib/\<close>.

  \<^bold>\<open>Theories and sources.\<close>
  \<^item> \<open>Prelude\<close>: the types of bytes, words and memory, the two collections of rewrite rules, shared lemmas.
  \<^item> \<open>Ctype\<close>, \<open>Cstring\<close>: \<open>lib/ctype.c\<close> and \<open>lib/string.c\<close>, over an explicit memory; a search for a terminator
    that may not be there is an option. \<open>Qsort\<close>: \<open>lib/qsort.c\<close>; the locale \<open>qsort_order\<close> states what the sort
    asks of a comparison, and \<open>strcmp\<close> on ASCII strings meets it.
  \<^item> \<open>Strtoul\<close>, \<open>Vsprintf\<close>, \<open>Vsprintf_Text\<close>: \<open>lib/vsprintf.c\<close>. \<open>vs_text\<close> is the text that a format and its
    arguments stand for; \<open>vsnprintf\<close> leaves it, cut to the buffer, and stores nowhere else, as long as the text
    does not run over the end of the address space, where the pointer wraps.
  \<^item> \<open>Hashtable\<close>, \<open>Hashtable_Inv\<close>, \<open>Hashtable_Ops\<close>, \<open>Env_Text\<close>: \<open>lib/hashtable.c\<close>. \<open>ht_ok\<close> is the invariant of the
    open-addressing table and \<open>ht_map\<close> the map it stands for; search, entry and deletion refine lookup, update
    and removal. The locale \<open>env_store\<close> is the interface the import is proved against; the hash table
    is its instance. The import restores the map that was exported, for entries that survive the text.
  \<^item> \<open>Nand\<close>: reading around bad blocks and erasing of \<open>drivers/mtd/nand/nand_util.c\<close>, on a device that only
    clears bits when it is programmed.
  \<^item> \<open>Nvedit\<close>, \<open>Env_Boot\<close>: \<open>common/cmd_nvedit.c\<close>, \<open>common/env_common.c\<close>, \<open>common/env_nand.c\<close>. \<open>env_state\<close> holds the
    globals. What \<open>setenv\<close> stored \<open>getenv\<close> returns, before relocation from the raw block and after it from the
    table; what \<open>saveenv\<close> saved the next boot restores; a damaged block is replaced by the default.
  \<^item> \<open>Crc\<close>, \<open>Digest\<close>, \<open>Sha1\<close>, \<open>Sha256\<close>, \<open>Md5\<close>, \<open>Fips\<close>: \<open>lib/crc32.c\<close>, \<open>lib/sha1.c\<close>, \<open>lib/sha256.c\<close>, \<open>lib/md5.c\<close>. The
    locale \<open>md_stream\<close> is the buffering the three digests share; the digest of a message does not depend on
    how it is cut into updates. \<open>Fips\<close> holds the compression functions of the standard and their equality with
    the optimised ones.
  \<^item> \<open>Lmb\<close>, \<open>Lmb_Inv\<close>, \<open>Lmb_Alloc\<close>: \<open>lib/lmb.c\<close>. A table of regions stands for a set of addresses; the locale
    \<open>range_table\<close> is the contract of adding a range, met by the table of memory and by that of
    reservations. The allocator returns an aligned free range, and fails only when there is none.
  \<^item> \<open>Image\<close>: the legacy half of \<open>common/image.c\<close>. Damage to header or data is detected, components of a
    multi-component image are found where they were put.
  \<^item> \<open>Tftp\<close>, \<open>Tftp_Session\<close>, \<open>Tftp_Put\<close>: \<open>net/tftp.c\<close>. The record \<open>tftp\<close> holds the static variables and
    the calls made to the network code; one definition per handler. \<open>session\<close> is the step relation of a
    download over a network that repeats and loses packets (less the repeats around a wrap of the block number that
    the code mishandles), \<open>receiving\<close> its invariant.
    From every state of it the rest of the blocks in order completes the file; an upload to a server with options sends each block once.
  \<^item> \<open>Net\<close>, \<open>Net_Udp\<close>, \<open>Net_Arp\<close>, \<open>Net_Addr\<close>: \<open>net/net.c\<close>, \<open>net/arp.c\<close>, \<open>net/ping.c\<close>, \<open>lib/net_utils.c\<close>. The record
    \<open>net\<close> holds the globals and what was done to the Ethernet device. A packet that one station sends reaches the
    handler of another with its payload, a damaged header does not, a packet that waits for ARP is sent as if the
    address had been known, and addresses survive their text.
  \<^item> \<open>Fwtool\<close>: \<open>lib/fwtool.c\<close>. On a firmware as the build writes it the check depends on the visible part of the
    manifest only.
  \<^item> \<open>Httpd\<close>, \<open>Httpd_Get\<close>, \<open>Httpd_Safe\<close>, \<open>Httpd_Upload\<close>, \<open>Httpd_Faults\<close>: \<open>httpd/httpd.c\<close>, \<open>httpd/fs.c\<close>. The record
    \<open>http\<close> holds the one \<open>httpd_state\<close>, the static variables and the memory, the record \<open>uip\<close> what the TCP stack
    provides in a call; \<open>httpd_appcall\<close> is the callback, one definition per branch. \<open>http_ok\<close> is kept by every
    event, and an event is undefined in it in one of three named ways only; pages are sent whole while the segment
    size stays the same; an upload is received exactly when its form's head is in one segment and more
    follow; an upgrade is started only behind a validated upload. The locale \<open>event_steps\<close> is what the loop and
    the trace theorems rely on, with the callback as its instance. \<open>Httpd_Faults\<close> has the refused requests
    and the uploads that the server mishandles.
  \<^item> \<open>Failsafe\<close>: the upgrade commands of \<open>net/httpd.c\<close> and the loop \<open>NetLoopHttpd\<close> of \<open>net/net.c\<close>. An uploaded
    firmware is flashed: the composition of the web server, the manifest check and the formatted output.
  \<^item> \<open>Circbuf\<close>: \<open>lib/circbuf.c\<close>, a queue; the locale \<open>ring_queue\<close> is its contract.

  \<^bold>\<open>Errors, bounds and loops.\<close> Integers have their C width where they can wrap (\<open>u8\<close>, \<open>u16\<close>, \<open>u32\<close>, \<open>u64\<close>);
  addresses and lengths of objects are natural numbers where the code cannot take them past the memory.
  \<open>None\<close> is undefined behaviour of the C code: a null pointer, a read past a string, a store past a buffer; the
  theorems show that it does not happen under the stated conditions. Error returns are values. Loops are
  recursive functions with a termination proof, so no fuel is used, except where a C loop may run on: the
  probe of the hash table and the scan for a terminator return an option, and the theorems show that they
  return. The calls a component makes to \<open>malloc\<close>, to a console or to the MTD functions of the NAND chip driver are
  parameters; \<open>nand_laws\<close> states what these do on a chip without defects outside its bad blocks.

  \<^bold>\<open>Not modelled.\<close> The heap (\<open>common/dlmalloc.c\<close>), the hush shell, the file systems, the decompressors and
  the TCP stack under the web server (\<open>httpd/uip.c\<close>) are imported third-party code; the stack's events are
  inputs of the web server's model, in any order. The table of web pages is generated by the build. The packet loop of \<open>net/net.c\<close>, BOOTP, the
  drivers and the board code act on hardware registers and timers. Of \<open>common/image.c\<close> the FIT half and the boot flow,
  of \<open>common/cmd_nvedit.c\<close> the printing and completion are left out. Options that the board does not define
  (redundant environment, multicast TFTP and the TFTP server, the self tests) are not compiled in. The
  kernel drivers elsewhere in the tree are copies of the Linux ones.
\<close>

end
